(* ===== verification/Prelude.thy ===== *)
theory Prelude
  imports Main "HOL-Library.Word" "HOL-Library.Multiset"
begin

text \<open>
  Shared vocabulary of the development: the machine types of the C++ code, the
  parts of the C and C++ standard libraries it uses on characters and numbers
  (\<^verbatim>\<open>isspace\<close>, \<^verbatim>\<open>isdigit\<close>, \<^verbatim>\<open>toupper\<close>, \<^verbatim>\<open>std::to_string\<close>,
  \<^verbatim>\<open>std::stoull\<close>, \<^verbatim>\<open>std::stoll\<close>, \<^verbatim>\<open>std::stoi\<close>, extraction of a
  word from a string stream), and the generic lemmas on words and lists that
  the components rely on.
\<close>

section \<open>Machine types and lemma collections\<close>

type_synonym u64 = "64 word"
type_synonym i32 = "32 word"
type_synonym bytes = "char list"
type_synonym path = string

named_theorems frame_simps \<open>parts of the world an operation leaves unchanged\<close>
named_theorems unat_simps \<open>word arithmetic read as natural numbers\<close>

section \<open>Characters\<close>

definition isspace :: "char \<Rightarrow> bool" where
  "isspace c \<longleftrightarrow> (let n = of_char c :: nat in n = 32 \<or> 9 \<le> n \<and> n \<le> 13)"

definition isdigit :: "char \<Rightarrow> bool" where
  "isdigit c \<longleftrightarrow> (let n = of_char c :: nat in 48 \<le> n \<and> n \<le> 57)"

definition toupper :: "char \<Rightarrow> char" where
  "toupper c = (let n = of_char c :: nat in
     if 97 \<le> n \<and> n \<le> 122 then char_of (n - 32) else c)"

definition newline :: char where
  "newline = CHR 0x0A"

definition carriage_return :: char where
  "carriage_return = CHR 0x0D"

section \<open>Decimal numbers\<close>

definition digit_char :: "nat \<Rightarrow> char" where
  "digit_char d = char_of (48 + d)"

definition digit_val :: "char \<Rightarrow> nat" where
  "digit_val c = of_char c - 48"

fun show_nat :: "nat \<Rightarrow> string" where
  "show_nat n = (if n < 10 then [digit_char n]
                 else show_nat (n div 10) @ [digit_char (n mod 10)])"

declare show_nat.simps [simp del]

definition show_int :: "int \<Rightarrow> string" where
  "show_int i = (if i < 0 then CHR ''-'' # show_nat (nat (- i)) else show_nat (nat i))"

text \<open>\<^verbatim>\<open>std::to_string\<close> on \<^verbatim>\<open>uint64_t\<close>.\<close>

definition to_string :: "u64 \<Rightarrow> string" where
  "to_string v = show_nat (unat v)"

definition digits_val :: "string \<Rightarrow> nat" where
  "digits_val ds = foldl (\<lambda>acc c. 10 * acc + digit_val c) 0 ds"

text \<open>
  \<^verbatim>\<open>strtoull\<close>, \<^verbatim>\<open>strtoll\<close> and \<^verbatim>\<open>strtol\<close> in base 10 read optional white
  space, an optional sign and the longest run of digits; what follows is
  ignored. \<^verbatim>\<open>std::stoull\<close> and its kin throw \<^verbatim>\<open>invalid_argument\<close> when
  there is no digit and \<^verbatim>\<open>out_of_range\<close> when the value does not fit.
\<close>

datatype conv_error = Invalid_argument | Out_of_range

definition strto :: "string \<Rightarrow> (bool \<times> nat) option" where
  "strto s =
     (let t = dropWhile isspace s;
          neg = (case t of c # _ \<Rightarrow> c = CHR ''-'' | [] \<Rightarrow> False);
          u = (case t of c # r \<Rightarrow> if c = CHR ''-'' \<or> c = CHR ''+'' then r else t | [] \<Rightarrow> []);
          ds = takeWhile isdigit u
      in if ds = [] then None else Some (neg, digits_val ds))"

definition stoull :: "string \<Rightarrow> conv_error + u64" where
  "stoull s = (case strto s of
       None \<Rightarrow> Inl Invalid_argument
     | Some (neg, v) \<Rightarrow>
         if 2 ^ 64 \<le> v then Inl Out_of_range
         else Inr (if neg then - of_nat v else of_nat v))"

definition sto_signed :: "nat \<Rightarrow> string \<Rightarrow> conv_error + int" where
  "sto_signed w s = (case strto s of
       None \<Rightarrow> Inl Invalid_argument
     | Some (neg, v) \<Rightarrow>
         (let i = (if neg then - int v else int v) in
          if - (2 ^ (w - 1)) \<le> i \<and> i < 2 ^ (w - 1) then Inr i else Inl Out_of_range))"

definition stoll :: "string \<Rightarrow> conv_error + int" where
  "stoll = sto_signed 64"

definition stoi :: "string \<Rightarrow> conv_error + int" where
  "stoi = sto_signed 32"

section \<open>String streams\<close>

text \<open>
  \<^verbatim>\<open>iss >> s\<close>: skip white space, then read up to the next white space;
  \<^const>\<open>None\<close> when nothing is left.
\<close>

definition extract_word :: "string \<Rightarrow> (string \<times> string) option" where
  "extract_word s =
     (let t = dropWhile isspace s;
          w = takeWhile (\<lambda>c. \<not> isspace c) t
      in if w = [] then None else Some (w, dropWhile (\<lambda>c. \<not> isspace c) t))"


section \<open>Words as natural numbers\<close>

lemma unat_of_nat_u64 [unat_simps]: "n < 2 ^ 64 \<Longrightarrow> unat (of_nat n :: u64) = n"
  by (simp add: unat_of_nat take_bit_eq_mod)

lemma unat_add_u64 [unat_simps]:
  "unat a + unat b < 2 ^ 64 \<Longrightarrow> unat (a + b :: u64) = unat a + unat b"
  by (simp add: unat_word_ariths)

lemma unat_diff_u64 [unat_simps]: "b \<le> a \<Longrightarrow> unat (a - b :: u64) = unat a - unat b"
  by (rule unat_sub)

lemma unat_min_u64 [unat_simps]: "unat (min a b :: u64) = min (unat a) (unat b)"
  by (simp add: min_def word_le_nat_alt)

lemma unat_max_u64 [unat_simps]: "unat (max a b :: u64) = max (unat a) (unat b)"
  by (simp add: max_def word_le_nat_alt)

lemma unat_lt_u64: "unat (a :: u64) < 2 ^ 64"
  using unsigned_less [of a] by simp

lemma unat_pos_u64: "0 < unat (a :: u64) \<longleftrightarrow> a \<noteq> 0"
  by (simp add: unat_gt_0)

lemma of_nat_unat_u64 [simp]: "of_nat (unat (a :: u64)) = a"
  by simp

lemma of_nat_nonzero_u64: "0 < n \<Longrightarrow> n < 2 ^ 64 \<Longrightarrow> (of_nat n :: u64) \<noteq> 0"
  by (metis less_not_refl unat_0 unat_of_nat_u64)

lemmas word_order = word_less_nat_alt word_le_nat_alt

section \<open>Digits, printing and reading of numbers\<close>

lemma of_char_digit_char: "d < 10 \<Longrightarrow> of_char (digit_char d) = 48 + d"
  by (simp add: digit_char_def)

lemma isdigit_digit_char [simp]: "d < 10 \<Longrightarrow> isdigit (digit_char d)"
  by (simp add: isdigit_def of_char_digit_char)

lemma digit_val_digit_char [simp]: "d < 10 \<Longrightarrow> digit_val (digit_char d) = d"
  by (simp add: digit_val_def of_char_digit_char)

lemma isdigit_not_space: "isdigit c \<Longrightarrow> \<not> isspace c"
  by (auto simp: isdigit_def isspace_def Let_def)

lemma isdigit_not_sign: "isdigit c \<Longrightarrow> c \<noteq> CHR ''-'' \<and> c \<noteq> CHR ''+''"
  by (auto simp: isdigit_def)

lemma newline_char [simp]: "isspace newline" "\<not> isdigit newline"
  by (simp_all add: newline_def isspace_def isdigit_def)

lemma space_char [simp]: "isspace (CHR '' '')" "\<not> isdigit (CHR '' '')"
  by (simp_all add: isspace_def isdigit_def)

lemma show_nat_nonempty [simp]: "show_nat n \<noteq> []"
  by (subst show_nat.simps) simp

lemma show_nat_digits: "c \<in> set (show_nat n) \<Longrightarrow> isdigit c"
proof (induction n rule: show_nat.induct)
  case (1 n)
  then show ?case
    by (subst (asm) show_nat.simps) (auto split: if_splits)
qed

lemma digits_val_snoc [simp]: "digits_val (ds @ [c]) = 10 * digits_val ds + digit_val c"
  by (simp add: digits_val_def)

lemma digits_val_single [simp]: "digits_val [c] = digit_val c"
  by (simp add: digits_val_def)

lemma digits_val_show_nat [simp]: "digits_val (show_nat n) = n"
proof (induction n rule: show_nat.induct)
  case (1 n)
  show ?case
  proof (cases "n < 10")
    case True
    then show ?thesis by (simp add: show_nat.simps [of n])
  next
    case False
    with "1.IH" show ?thesis by (simp add: show_nat.simps [of n])
  qed
qed

lemma takeWhile_stop: "list_all P xs \<Longrightarrow> r = [] \<or> \<not> P (hd r) \<Longrightarrow> takeWhile P (xs @ r) = xs"
  by (induction xs) (auto simp: takeWhile_eq_Nil_iff)

lemma dropWhile_stop: "list_all P xs \<Longrightarrow> r = [] \<or> \<not> P (hd r) \<Longrightarrow> dropWhile P (xs @ r) = r"
  by (induction xs) (auto simp: dropWhile_eq_self_iff)

lemma strto_show_nat:
  assumes "r = [] \<or> \<not> isdigit (hd r)"
  shows "strto (show_nat n @ r) = Some (False, n)"
proof -
  have dg: "list_all isdigit (show_nat n)"
    by (simp add: list_all_iff show_nat_digits)
  obtain c cs where c: "show_nat n = c # cs"
    by (cases "show_nat n") auto
  with dg have "isdigit c" by simp
  then have skip: "dropWhile isspace (show_nat n @ r) = show_nat n @ r"
      and sign: "c \<noteq> CHR ''-''" "c \<noteq> CHR ''+''"
    using c by (auto simp: isdigit_not_space isdigit_not_sign)
  have "takeWhile isdigit (show_nat n @ r) = show_nat n"
    using dg assms by (rule takeWhile_stop)
  with c have "takeWhile isdigit (c # cs @ r) = c # cs" by simp
  then show ?thesis
    using skip sign digits_val_show_nat [of n] by (simp add: strto_def c)
qed

lemma stoull_to_string:
  "r = [] \<or> \<not> isdigit (hd r) \<Longrightarrow> stoull (to_string v @ r) = Inr v"
  using unat_lt_u64 [of v] by (simp add: stoull_def to_string_def strto_show_nat)

lemma stoull_digits:
  assumes "ds \<noteq> []" "list_all isdigit ds"
  shows "stoull ds = (if 2 ^ 64 \<le> digits_val ds then Inl Out_of_range
                      else Inr (of_nat (digits_val ds)))"
proof -
  obtain c cs where c: "ds = c # cs" using assms(1) by (cases ds) auto
  with assms have d: "isdigit c" by simp
  have tw: "takeWhile isdigit cs = cs"
    using assms(2) c by (simp add: list_all_iff takeWhile_eq_all_conv)
  from c d have "strto ds = Some (False, digits_val ds)"
    using isdigit_not_space [of c] isdigit_not_sign [of c] by (simp add: strto_def tw)
  then show ?thesis by (simp add: stoull_def)
qed

section \<open>Slices of lists\<close>

lemma drop_take_split:
  "k + n \<le> m \<Longrightarrow> drop k (take m xs) = take n (drop k xs) @ drop (k + n) (take m xs)"
proof -
  assume "k + n \<le> m"
  then have "take n (drop k (take m xs)) = take n (drop k xs)"
    by (simp add: drop_take min_def)
  moreover have "drop n (drop k (take m xs)) = drop (k + n) (take m xs)"
    by (simp add: add.commute)
  ultimately show ?thesis
    by (metis append_take_drop_id)
qed

section \<open>Extraction of words\<close>

lemma extract_word_Nil [simp]: "extract_word [] = None"
  by (simp add: extract_word_def)

lemma extract_word_space [simp]: "isspace c \<Longrightarrow> extract_word (c # s) = extract_word s"
  by (simp add: extract_word_def)

lemma extract_word_append:
  assumes "w \<noteq> []" "list_all (\<lambda>c. \<not> isspace c) w" "r = [] \<or> isspace (hd r)"
  shows "extract_word (w @ r) = Some (w, r)"
proof -
  obtain c cs where c: "w = c # cs" using assms(1) by (cases w) auto
  with assms(2) have "\<not> isspace c" by simp
  then have "dropWhile isspace (w @ r) = w @ r" using c by simp
  moreover have "takeWhile (\<lambda>c. \<not> isspace c) (w @ r) = w"
      "dropWhile (\<lambda>c. \<not> isspace c) (w @ r) = r"
    using assms by (auto intro: takeWhile_stop dropWhile_stop)
  ultimately show ?thesis using assms(1) by (simp add: extract_word_def)
qed

lemma extract_word_nonempty:
  assumes "extract_word s = Some (w, r)"
  shows "w \<noteq> [] \<and> list_all (\<lambda>c. \<not> isspace c) w"
  using assms by (auto simp: extract_word_def Let_def list_all_iff dest: set_takeWhileD split: if_splits)

lemma digits_not_space: "list_all isdigit ds \<Longrightarrow> list_all (\<lambda>c. \<not> isspace c) ds"
  by (auto simp: list_all_iff isdigit_not_space)

lemma to_string_props [simp]:
  "to_string v \<noteq> []" "list_all isdigit (to_string v)" "list_all (\<lambda>c. \<not> isspace c) (to_string v)"
  by (auto simp: to_string_def list_all_iff show_nat_digits isdigit_not_space)

end
