(* ===== verification/Os_Model.thy ===== *)
theory Os_Model
  imports Prelude
begin

text \<open>
  The environment of the program: what it uses of the operating system and of
  the C++ stream classes. Nothing here is code of the repository. A
  \<^emph>\<open>world\<close> holds the regular files, the sockets and the monotonic clock; a
  \<^emph>\<open>disk\<close> says which file operations the system refuses, so that every
  error branch of the program is reachable in the model. A definition that can
  meet such a failure takes the disk as an argument.

  A socket has an inbox, the events its peer causes in order, each with the
  time it takes to arrive; a plan, how much each coming \<^verbatim>\<open>send\<close> accepts (all
  of it once the plan is used up); and a log of the bytes each \<^verbatim>\<open>send\<close>
  accepted. An empty inbox is a peer that has closed its end.
\<close>

section \<open>Sockets, files, clock\<close>

datatype recv_event =
    Segment nat bytes   \<comment> \<open>bytes that arrive after a delay in nanoseconds\<close>
  | Reset nat           \<comment> \<open>the connection is reset after a delay\<close>
  | Interrupted         \<comment> \<open>the next \<^verbatim>\<open>select\<close> or \<^verbatim>\<open>recv\<close> fails\<close>

datatype send_event = Accepts nat | Send_fails

record socket =
  inbox :: "recv_event list"
  send_plan :: "send_event list"
  sent :: "bytes list"
  sock_open :: bool

record world =
  files :: "path \<rightharpoonup> bytes"
  socks :: "int \<Rightarrow> socket"
  now :: nat   \<comment> \<open>\<^verbatim>\<open>CLOCK_MONOTONIC\<close> in nanoseconds\<close>

record disk =
  can_read :: "path \<Rightarrow> bool"
  can_create :: "path \<Rightarrow> bool"
  can_update :: "path \<Rightarrow> bool"
  can_write :: "path \<Rightarrow> nat \<Rightarrow> bool"   \<comment> \<open>may the file grow to this length\<close>
  can_rename :: "path \<Rightarrow> path \<Rightarrow> bool"

definition healthy_disk :: disk where
  "healthy_disk = \<lparr>can_read = \<lambda>_. True, can_create = \<lambda>_. True, can_update = \<lambda>_. True,
     can_write = \<lambda>_ _. True, can_rename = \<lambda>_ _. True\<rparr>"

definition set_sock :: "int \<Rightarrow> (socket \<Rightarrow> socket) \<Rightarrow> world \<Rightarrow> world" where
  "set_sock fd f w = w\<lparr>socks := (socks w)(fd := f (socks w fd))\<rparr>"

text \<open>All bytes the program has put on a connection.\<close>

definition wire :: "world \<Rightarrow> int \<Rightarrow> bytes" where
  "wire w fd = concat (sent (socks w fd))"

section \<open>System calls on sockets\<close>

fun wait_readable :: "nat \<Rightarrow> recv_event list \<Rightarrow> int \<times> nat \<times> recv_event list" where
  "wait_readable t [] = (1, 0, [])"
| "wait_readable t (Segment d b # r) =
     (if d \<le> t then (1, d, Segment 0 b # r) else (0, t, Segment (d - t) b # r))"
| "wait_readable t (Reset d # r) =
     (if d \<le> t then (1, d, Reset 0 # r) else (0, t, Reset (d - t) # r))"
| "wait_readable t (Interrupted # r) = (-1, 0, r)"

definition sys_select :: "int \<Rightarrow> nat \<Rightarrow> world \<Rightarrow> int \<times> world" where
  "sys_select fd t w =
     (let (res, waited, q) = wait_readable t (inbox (socks w fd))
      in (res, (set_sock fd (\<lambda>s. s\<lparr>inbox := q\<rparr>) w)\<lparr>now := now w + waited\<rparr>))"

text \<open>
  \<^verbatim>\<open>recv\<close> with room for \<open>n\<close> bytes: \<^const>\<open>None\<close> is a negative result,
  \<open>Some bs\<close> the count \<open>length bs\<close> with the bytes stored.
\<close>

fun take_event :: "nat \<Rightarrow> recv_event list \<Rightarrow> bytes option \<times> nat \<times> recv_event list" where
  "take_event n [] = (Some [], 0, [])"
| "take_event n (Segment d b # r) =
     (Some (take n b), d, (if length b \<le> n then r else Segment 0 (drop n b) # r))"
| "take_event n (Reset d # r) = (None, d, r)"
| "take_event n (Interrupted # r) = (None, 0, r)"

definition sys_recv :: "int \<Rightarrow> nat \<Rightarrow> world \<Rightarrow> bytes option \<times> world" where
  "sys_recv fd n w =
     (let (res, waited, q) = take_event n (inbox (socks w fd))
      in (res, (set_sock fd (\<lambda>s. s\<lparr>inbox := q\<rparr>) w)\<lparr>now := now w + waited\<rparr>))"

text \<open>\<^verbatim>\<open>send\<close>: \<^const>\<open>None\<close> is a negative result, \<open>Some k\<close> accepts \<open>k\<close> bytes.\<close>

definition sys_send :: "int \<Rightarrow> bytes \<Rightarrow> world \<Rightarrow> nat option \<times> world" where
  "sys_send fd data w =
     (case send_plan (socks w fd) of
        [] \<Rightarrow> (Some (length data), set_sock fd (\<lambda>s. s\<lparr>sent := sent s @ [data]\<rparr>) w)
      | Accepts k # r \<Rightarrow>
          (Some (min k (length data)),
           set_sock fd (\<lambda>s. s\<lparr>sent := sent s @ [take k data], send_plan := r\<rparr>) w)
      | Send_fails # r \<Rightarrow> (None, set_sock fd (\<lambda>s. s\<lparr>send_plan := r\<rparr>) w))"

definition sys_close :: "int \<Rightarrow> world \<Rightarrow> world" where
  "sys_close fd = set_sock fd (\<lambda>s. s\<lparr>sock_open := False\<rparr>)"

section \<open>Files\<close>

text \<open>
  Opening for reading. A file longer than the offset type can express is
  refused by the system (\<^verbatim>\<open>EOVERFLOW\<close>).
\<close>

definition open_read :: "disk \<Rightarrow> path \<Rightarrow> world \<Rightarrow> bytes option" where
  "open_read d p w = (case files w p of
       None \<Rightarrow> None
     | Some c \<Rightarrow> if can_read d p \<and> length c < 2 ^ 63 then Some c else None)"

text \<open>Opening with \<^verbatim>\<open>trunc\<close>: creates the file or empties it.\<close>

definition open_trunc :: "disk \<Rightarrow> path \<Rightarrow> world \<Rightarrow> bool \<times> world" where
  "open_trunc d p w =
     (if can_create d p then (True, w\<lparr>files := (files w)(p \<mapsto> [])\<rparr>) else (False, w))"

text \<open>Opening with \<^verbatim>\<open>in | out\<close>: the file has to exist.\<close>

definition open_update :: "disk \<Rightarrow> path \<Rightarrow> world \<Rightarrow> bool" where
  "open_update d p w \<longleftrightarrow> can_update d p \<and> (\<exists>c. files w p = Some c \<and> length c < 2 ^ 63)"

lemma open_update_code [code]:
  "open_update d p w \<longleftrightarrow> can_update d p \<and>
     (case files w p of None \<Rightarrow> False | Some c \<Rightarrow> length c < 2 ^ 63)"
  by (auto simp: open_update_def split: option.splits)

text \<open>Writing at a position, over the old contents; a gap is filled with zero bytes.\<close>

definition overwrite :: "nat \<Rightarrow> bytes \<Rightarrow> bytes \<Rightarrow> bytes" where
  "overwrite pos data c =
     take pos (c @ replicate (pos - length c) (CHR 0x00)) @ data @ drop (pos + length data) c"

definition stream_write :: "disk \<Rightarrow> path \<Rightarrow> nat \<Rightarrow> bytes \<Rightarrow> world \<Rightarrow> bool \<times> world" where
  "stream_write d p pos data w =
     (case files w p of
        None \<Rightarrow> (False, w)
      | Some c \<Rightarrow>
          (let c' = overwrite pos data c
           in if can_write d p (length c') then (True, w\<lparr>files := (files w)(p \<mapsto> c')\<rparr>)
              else (False, w)))"

definition sys_rename :: "disk \<Rightarrow> path \<Rightarrow> path \<Rightarrow> world \<Rightarrow> bool \<times> world" where
  "sys_rename d a b w =
     (case files w a of
        None \<Rightarrow> (False, w)
      | Some c \<Rightarrow>
          if can_rename d a b then (True, w\<lparr>files := (files w)(a := None, b \<mapsto> c)\<rparr>)
          else (False, w))"

definition sys_remove :: "path \<Rightarrow> world \<Rightarrow> world" where
  "sys_remove p w = w\<lparr>files := (files w)(p := None)\<rparr>"

section \<open>Frame facts\<close>

lemma set_sock_frame [simp, frame_simps]:
  "files (set_sock fd f w) = files w"
  "now (set_sock fd f w) = now w"
  "socks (set_sock fd f w) fd = f (socks w fd)"
  "fd' \<noteq> fd \<Longrightarrow> socks (set_sock fd f w) fd' = socks w fd'"
  by (simp_all add: set_sock_def)

lemma wait_readable_bound: "wait_readable t q = (r, v, q') \<Longrightarrow> v \<le> t"
  by (cases "(t, q)" rule: wait_readable.cases) (auto split: if_splits)

lemma sys_select_frame:
  assumes "sys_select fd t w = (r, w')"
  shows "files w' = files w" "fd' \<noteq> fd \<Longrightarrow> socks w' fd' = socks w fd'"
    "sent (socks w' fd) = sent (socks w fd)" "send_plan (socks w' fd) = send_plan (socks w fd)"
    "now w \<le> now w'" "now w' \<le> now w + t"
proof -
  obtain q v where q: "wait_readable t (inbox (socks w fd)) = (r, v, q)" and
    w': "w' = (set_sock fd (\<lambda>s. s\<lparr>inbox := q\<rparr>) w)\<lparr>now := now w + v\<rparr>"
    using assms by (auto simp: sys_select_def Let_def split: prod.splits)
  have "v \<le> t"
    using q by (rule wait_readable_bound)
  with w' show "files w' = files w" "fd' \<noteq> fd \<Longrightarrow> socks w' fd' = socks w fd'"
    "sent (socks w' fd) = sent (socks w fd)" "send_plan (socks w' fd) = send_plan (socks w fd)"
    "now w \<le> now w'" "now w' \<le> now w + t"
    by auto
qed

lemma sys_recv_frame:
  assumes "sys_recv fd n w = (r, w')"
  shows "files w' = files w" "fd' \<noteq> fd \<Longrightarrow> socks w' fd' = socks w fd'"
    "sent (socks w' fd) = sent (socks w fd)" "send_plan (socks w' fd) = send_plan (socks w fd)"
    "now w \<le> now w'"
  using assms by (auto simp: sys_recv_def Let_def split: prod.splits)

lemma sys_recv_length: "sys_recv fd n w = (Some bs, w') \<Longrightarrow> length bs \<le> n"
  by (cases "(n, inbox (socks w fd))" rule: take_event.cases)
     (auto simp: sys_recv_def Let_def split: if_splits)

lemma sys_send_frame:
  assumes "sys_send fd data w = (r, w')"
  shows "files w' = files w" "now w' = now w" "fd' \<noteq> fd \<Longrightarrow> socks w' fd' = socks w fd'"
    "inbox (socks w' fd) = inbox (socks w fd)"
  using assms by (auto simp: sys_send_def split: list.splits send_event.splits)

lemma overwrite_at_end [simp]: "pos = length c \<Longrightarrow> overwrite pos data c = c @ data"
  by (simp add: overwrite_def)

end
