(* ===== verification/Socket_IO.thy ===== *)
theory Socket_IO
  imports Os_Model
begin

text \<open>
  \<^verbatim>\<open>socket.cpp\<close>: the bounded reading of a header line, the sending of a whole
  buffer over partial writes, and the set-up of the listening socket. The
  locale \<open>byte_sink\<close> is what the rest of the server relies on when it sends: a
  successful call puts exactly the data on the connection, a failing one a
  proper prefix of it.
\<close>

section \<open>Definitions\<close>

definition send_data :: "int \<Rightarrow> bytes \<Rightarrow> world \<Rightarrow> nat option \<times> world" where
  "send_data socket_fd data w = sys_send socket_fd data w"

text \<open>
  \<^verbatim>\<open>recv_data_with_timeout\<close>: \<^const>\<open>None\<close> is the result -1, \<open>Some []\<close> the
  result 0 (time-out or end of the stream).
\<close>

definition recv_data_with_timeout ::
  "int \<Rightarrow> nat \<Rightarrow> nat \<Rightarrow> world \<Rightarrow> bytes option \<times> world" where
  "recv_data_with_timeout fd n timeout_ms w =
     (let tv_sec = timeout_ms div 1000;
          tv_usec = (timeout_ms mod 1000) * 1000;
          (select_result, w1) = sys_select fd (tv_sec * 1000000000 + tv_usec * 1000) w
      in if select_result < 0 then (None, w1)
         else if select_result = 0 then (Some [], w1)
         else sys_recv fd n w1)"

text \<open>
  The byte loop of \<^verbatim>\<open>read_header_line\<close>: push bytes until a newline; the rest
  of the buffer is then the leftover.
\<close>

fun scan_line :: "string \<Rightarrow> bytes \<Rightarrow> string \<times> bytes option" where
  "scan_line line [] = (line, None)"
| "scan_line line (c # buffer) =
     (if c = newline then (line @ [c], Some buffer) else scan_line (line @ [c]) buffer)"

lemma scan_line_length:
  "scan_line line buf = (l, None) \<Longrightarrow> length l = length line + length buf"
  by (induction line buf rule: scan_line.induct) (auto split: if_splits)

lemma scan_line_grows:
  "(l, None) = scan_line line buf \<Longrightarrow> buf \<noteq> [] \<Longrightarrow> length line < length l"
  using scan_line_length [of line buf l] by simp

text \<open>The time left until the deadline in whole milliseconds, at least one.\<close>

definition header_wait_ms :: "nat \<Rightarrow> nat \<Rightarrow> nat" where
  "header_wait_ms deadline t =
     (let remaining = (deadline - t) div 1000000 in if 0 < remaining then remaining else 1)"

function read_header_loop ::
  "int \<Rightarrow> nat \<Rightarrow> string \<Rightarrow> world \<Rightarrow> string \<times> bytes \<times> world" where
  "read_header_loop fd deadline line w =
     (if length line < 8192 then
        if deadline \<le> now w then ([], [], w)
        else
          (case recv_data_with_timeout fd 4096 (header_wait_ms deadline (now w)) w of
             (None, w1) \<Rightarrow> ([], [], w1)
           | (Some buffer, w1) \<Rightarrow>
               if buffer = [] then ([], [], w1)
               else (case scan_line line buffer of
                       (line1, Some leftover) \<Rightarrow> (line1, leftover, w1)
                     | (line1, None) \<Rightarrow> read_header_loop fd deadline line1 w1))
      else ([], [], w))"
  by pat_completeness auto
termination
proof (relation "measure (\<lambda>(fd, deadline, line, w). 8192 - length line)", goal_cases)
  case 1
  then show ?case by simp
next
  case (2 fd deadline line w)
  then show ?case
    by (auto intro: diff_less_mono2 scan_line_grows)
qed

text \<open>The empty line stands for a time-out or an error, as in the source.\<close>

definition read_header_line :: "int \<Rightarrow> nat \<Rightarrow> world \<Rightarrow> string \<times> bytes \<times> world" where
  "read_header_line fd timeout_ms w =
     read_header_loop fd (now w + timeout_ms * 1000000) [] w"

function send_all_loop :: "int \<Rightarrow> bytes \<Rightarrow> nat \<Rightarrow> world \<Rightarrow> bool \<times> world" where
  "send_all_loop fd data bytes_sent w =
     (if bytes_sent < length data then
        (case sys_send fd (drop bytes_sent data) w of
           (None, w1) \<Rightarrow> (False, w1)
         | (Some n, w1) \<Rightarrow> send_all_loop fd data (bytes_sent + n) w1)
      else (True, w))"
  by pat_completeness auto
termination
  by (relation "measure (\<lambda>(fd, data, k, w). (length data - k) + length (send_plan (socks w fd)))")
     (auto simp: sys_send_def split: list.splits send_event.splits)

definition send_all :: "int \<Rightarrow> bytes \<Rightarrow> world \<Rightarrow> bool \<times> world" where
  "send_all fd data w = send_all_loop fd data 0 w"

definition close_socket :: "int \<Rightarrow> world \<Rightarrow> world" where
  "close_socket fd w = (if 0 \<le> fd then sys_close fd w else w)"

text \<open>
  \<^verbatim>\<open>create_listening_socket\<close>: the results of the system calls are the
  parameter; the value is the result and the descriptors closed on the way.
\<close>

record net_calls =
  socket_result :: int
  setsockopt_ok :: bool
  inet_pton_ok :: "string \<Rightarrow> bool"
  bind_ok :: "string \<Rightarrow> nat \<Rightarrow> bool"
  listen_ok :: bool

definition create_listening_socket :: "net_calls \<Rightarrow> string \<Rightarrow> int \<Rightarrow> int \<times> int list" where
  "create_listening_socket net ip port =
     (let listen_socket = socket_result net in
      if listen_socket < 0 then (-1, [])
      else if \<not> setsockopt_ok net then (-1, [listen_socket])
      else if \<not> inet_pton_ok net ip then (-1, [listen_socket])
      else if \<not> bind_ok net ip (nat (port mod 65536)) then (-1, [listen_socket])
      else if \<not> listen_ok net then (-1, [listen_socket])
      else (listen_socket, []))"

definition accept_connection :: "int \<Rightarrow> int" where
  "accept_connection accepted = (if accepted < 0 then -1 else accepted)"


declare read_header_loop.simps [simp del] send_all_loop.simps [simp del]

section \<open>Frame facts\<close>

lemma recv_data_frame:
  assumes "recv_data_with_timeout fd n t w = (r, w')"
  shows "files w' = files w" "fd' \<noteq> fd \<Longrightarrow> socks w' fd' = socks w fd'"
    "sent (socks w' fd) = sent (socks w fd)" "send_plan (socks w' fd) = send_plan (socks w fd)"
proof -
  obtain s w1 where s: "sys_select fd (t div 1000 * 1000000000 + t mod 1000 * 1000 * 1000) w = (s, w1)"
    by fastforce
  with assms have "(r, w') = (None, w1) \<or> (r, w') = (Some [], w1) \<or> sys_recv fd n w1 = (r, w')"
    by (auto simp: recv_data_with_timeout_def split: if_splits)
  then show "files w' = files w" "fd' \<noteq> fd \<Longrightarrow> socks w' fd' = socks w fd'"
    "sent (socks w' fd) = sent (socks w fd)" "send_plan (socks w' fd) = send_plan (socks w fd)"
    using sys_select_frame [OF s] sys_recv_frame [of fd n w1 r w'] by auto
qed

lemma recv_data_length:
  "recv_data_with_timeout fd n t w = (Some bs, w') \<Longrightarrow> length bs \<le> n"
  by (auto simp: recv_data_with_timeout_def Let_def split: prod.splits if_splits dest: sys_recv_length)

text \<open>After a successful \<^verbatim>\<open>select\<close> the following \<^verbatim>\<open>recv\<close> does not wait.\<close>

lemma wait_readable_ready:
  "wait_readable t q = (1, v, q') \<Longrightarrow> fst (snd (take_event n q')) = 0"
  by (cases "(t, q)" rule: wait_readable.cases) (auto split: if_splits)

lemma wait_readable_result:
  "wait_readable t q = (r, v, q') \<Longrightarrow> r = 1 \<or> r = 0 \<or> r = -1"
  by (cases "(t, q)" rule: wait_readable.cases) (auto split: if_splits)

lemma timeval_ns: "a * 1000000000 + b * 1000 * 1000 = (a * 1000 + b) * (1000000 :: nat)"
  by simp

lemma recv_data_time:
  assumes "recv_data_with_timeout fd n t w = (r, w')"
  shows "now w \<le> now w'" "now w' \<le> now w + t * 1000000"
proof -
  let ?t = "t div 1000 * 1000000000 + t mod 1000 * 1000 * 1000"
  have t: "?t = t * 1000000"
    using timeval_ns [of "t div 1000" "t mod 1000"] by (simp only: div_mult_mod_eq)
  obtain s v q where s: "wait_readable ?t (inbox (socks w fd)) = (s, v, q)"
    by (metis prod_cases3)
  have v: "v \<le> t * 1000000"
    using wait_readable_bound [OF s] t by simp
  have "now w' = now w + v"
    using assms s wait_readable_result [OF s] wait_readable_ready [of ?t "inbox (socks w fd)" v q n]
    by (auto simp: recv_data_with_timeout_def sys_select_def sys_recv_def Let_def
        split: if_splits prod.splits)
  with v show "now w \<le> now w'" "now w' \<le> now w + t * 1000000" by auto
qed


section \<open>Reading a header line\<close>

text \<open>The bytes a peer still has to deliver, whatever their grouping.\<close>

fun stream_of :: "recv_event list \<Rightarrow> bytes" where
  "stream_of [] = []"
| "stream_of (Segment d b # r) = b @ stream_of r"
| "stream_of (Reset d # r) = stream_of r"
| "stream_of (Interrupted # r) = stream_of r"

lemma wait_readable_stream: "wait_readable t q = (r, v, q') \<Longrightarrow> stream_of q' = stream_of q"
  by (cases "(t, q)" rule: wait_readable.cases) (auto split: if_splits)

lemma take_event_stream: "take_event n q = (Some bs, v, q') \<Longrightarrow> stream_of q = bs @ stream_of q'"
  by (cases "(n, q)" rule: take_event.cases) (auto split: if_splits)

lemma recv_data_stream:
  assumes "recv_data_with_timeout fd n t w = (Some bs, w')"
  shows "stream_of (inbox (socks w fd)) = bs @ stream_of (inbox (socks w' fd))"
  using assms
  by (auto simp: recv_data_with_timeout_def sys_select_def sys_recv_def Let_def
      split: prod.splits if_splits dest!: wait_readable_stream take_event_stream)

lemma scan_line_Some:
  "scan_line line buf = (l, Some rest) \<Longrightarrow>
   (\<exists>m. l = line @ m @ [newline] \<and> newline \<notin> set m \<and> buf = m @ newline # rest)"
proof (induction line buf rule: scan_line.induct)
  case (2 line c buffer)
  show ?case
  proof (cases "c = newline")
    case True
    with "2.prems" show ?thesis by auto
  next
    case False
    with "2.prems" "2.IH" obtain m where
      "l = (line @ [c]) @ m @ [newline]" "newline \<notin> set m" "buffer = m @ newline # rest"
      by auto
    with False show ?thesis by (intro exI [of _ "c # m"]) auto
  qed
qed simp

lemma scan_line_None:
  "scan_line line buf = (l, None) \<Longrightarrow> l = line @ buf \<and> newline \<notin> set buf"
  by (induction line buf rule: scan_line.induct) (auto split: if_splits)

lemma scan_line_found [simp]:
  "newline \<notin> set m \<Longrightarrow> scan_line line (m @ newline # rest) = (line @ m @ [newline], Some rest)"
  by (induction m arbitrary: line) auto

text \<open>The ways one turn of the loop can go.\<close>

lemma read_header_loop_cases:
  assumes "read_header_loop fd deadline line w = (l, leftover, w')"
  obtains (full) "8192 \<le> length line" "l = []" "leftover = []" "w' = w"
  | (late) "deadline \<le> now w" "l = []" "leftover = []" "w' = w"
  | (failed) r where "length line < 8192" "now w < deadline" "l = []" "leftover = []"
      "recv_data_with_timeout fd 4096 (header_wait_ms deadline (now w)) w = (r, w')"
      "r = None \<or> r = Some []"
  | (found) buf where "length line < 8192" "now w < deadline" "buf \<noteq> []"
      "recv_data_with_timeout fd 4096 (header_wait_ms deadline (now w)) w = (Some buf, w')"
      "scan_line line buf = (l, Some leftover)"
  | (more) buf w1 where "length line < 8192" "now w < deadline" "buf \<noteq> []"
      "recv_data_with_timeout fd 4096 (header_wait_ms deadline (now w)) w = (Some buf, w1)"
      "scan_line line buf = (line @ buf, None)"
      "read_header_loop fd deadline (line @ buf) w1 = (l, leftover, w')"
      "8192 - length (line @ buf) < 8192 - length line"
  using assms
  by (subst (asm) read_header_loop.simps)
     (auto split: if_splits prod.splits option.splits dest: scan_line_None
       simp: diff_less_mono2)

text \<open>The loop invariant: what was read so far, then the stream still to come.\<close>

lemma read_header_loop_stream:
  assumes "read_header_loop fd deadline line w = (l, leftover, w')" "l \<noteq> []" "newline \<notin> set line"
  shows "\<exists>m. l = m @ [newline] \<and> newline \<notin> set m \<and>
     line @ stream_of (inbox (socks w fd)) = l @ leftover @ stream_of (inbox (socks w' fd))"
  using assms
proof (induction "8192 - length line" arbitrary: line w rule: less_induct)
  case less
  from less.prems(1) show ?case
  proof (cases rule: read_header_loop_cases)
    case (found buf)
    with less.prems show ?thesis
      by (auto dest!: scan_line_Some recv_data_stream)
  next
    case (more buf w1)
    then have "newline \<notin> set (line @ buf)"
      using less.prems(3) by (auto dest!: scan_line_None)
    from less.hyps [OF more(7,6) less.prems(2) this] recv_data_stream [OF more(4)]
    show ?thesis by simp
  qed (use less.prems in auto)
qed

lemma read_header_loop_frame:
  assumes "read_header_loop fd deadline line w = (l, leftover, w')"
  shows "files w' = files w \<and> (\<forall>fd'. fd' \<noteq> fd \<longrightarrow> socks w' fd' = socks w fd') \<and>
    sent (socks w' fd) = sent (socks w fd) \<and> send_plan (socks w' fd) = send_plan (socks w fd) \<and> now w \<le> now w'"
  using assms
proof (induction "8192 - length line" arbitrary: line w rule: less_induct)
  case less
  from less.prems(1) show ?case
  proof (cases rule: read_header_loop_cases)
    case (more buf w1)
    from less.hyps [OF more(7,6)] recv_data_frame [OF more(4)] recv_data_time(1) [OF more(4)] show ?thesis by auto
  qed (auto dest: recv_data_frame recv_data_time(1))
qed

lemma header_wait_bound:
  "t < deadline \<Longrightarrow> t + header_wait_ms deadline t * 1000000 \<le> deadline + 1000000"
  using div_times_less_eq_dividend [of "deadline - t" 1000000]
  by (auto simp: header_wait_ms_def Let_def)

lemma read_header_loop_time:
  assumes "read_header_loop fd deadline line w = (l, leftover, w')" "now w \<le> deadline + 1000000"
  shows "now w' \<le> deadline + 1000000"
  using assms
proof (induction "8192 - length line" arbitrary: line w rule: less_induct)
  case less
  from less.prems(1) show ?case
  proof (cases rule: read_header_loop_cases)
    case (failed r)
    with header_wait_bound [of "now w" deadline] show ?thesis
      using recv_data_time(2) [OF failed(5)] by linarith
  next
    case (found buf)
    with header_wait_bound [of "now w" deadline] show ?thesis
      using recv_data_time(2) [OF found(4)] by linarith
  next
    case (more buf w1)
    have "now w1 \<le> deadline + 1000000"
      using header_wait_bound [OF more(2)] recv_data_time(2) [OF more(4)] by linarith
    with less.hyps [OF more(7,6)] show ?thesis by blast
  qed (use less.prems in auto)
qed


text \<open>A header that arrives as one segment in time is read as it is.\<close>

lemma read_header_line_segment:
  assumes "inbox (socks w fd) = Segment d (m @ newline # rest) # q" "newline \<notin> set m"
    "length m + length rest < 4096" "d \<le> ms * 1000000" "0 < ms"
  shows "\<exists>w'. read_header_line fd ms w = (m @ [newline], rest, w') \<and> inbox (socks w' fd) = q"
proof -
  let ?w1 = "(set_sock fd (\<lambda>s. s\<lparr>inbox := q\<rparr>) w)\<lparr>now := now w + d\<rparr>"
  have ms: "header_wait_ms (now w + ms * 1000000) (now w) = ms"
    using assms(5) by (simp add: header_wait_ms_def)
  have "ms div 1000 * 1000000000 + ms mod 1000 * 1000 * 1000 = ms * 1000000"
    using timeval_ns [of "ms div 1000" "ms mod 1000"] by (simp only: div_mult_mod_eq)
  then have "recv_data_with_timeout fd 4096 ms w = (Some (m @ newline # rest), ?w1)"
    using assms(1,3,4) by (simp add: recv_data_with_timeout_def sys_select_def sys_recv_def set_sock_def)
  then have "read_header_line fd ms w = (m @ [newline], rest, ?w1)"
    using assms(2,5) by (simp add: read_header_line_def read_header_loop.simps [of fd _ "[]" w] ms)
  then show ?thesis by auto
qed

section \<open>Sending\<close>

locale byte_sink =
  fixes send :: "int \<Rightarrow> bytes \<Rightarrow> 'w \<Rightarrow> bool \<times> 'w"
    and out :: "'w \<Rightarrow> int \<Rightarrow> bytes"
  assumes send_ok: "send fd data w = (True, w') \<Longrightarrow> out w' fd = out w fd @ data"
    and send_fail: "send fd data w = (False, w') \<Longrightarrow>
      \<exists>k < length data. out w' fd = out w fd @ take k data"
    and send_other: "send fd data w = (b, w') \<Longrightarrow> fd' \<noteq> fd \<Longrightarrow> out w' fd' = out w fd'"
begin

text \<open>Whatever happens, a call extends the connection's bytes by a prefix of the data.\<close>

lemma send_prefix:
  assumes "send fd data w = (b, w')"
  obtains k where "out w' fd = out w fd @ take k data" "b \<longleftrightarrow> length data \<le> k" "k \<le> length data"
proof (cases b)
  case True
  with assms send_ok [of fd data w w'] that [of "length data"] show ?thesis by simp
next
  case False
  with assms send_fail [of fd data w w'] obtain k where
    "k < length data" "out w' fd = out w fd @ take k data" by auto
  with False that [of k] show ?thesis by simp
qed

lemma send_empty_fails_not: "send fd [] w \<noteq> (False, w')"
  using send_fail by fastforce

text \<open>Two successful calls put the concatenation on the connection.\<close>

lemma send_seq:
  "send fd a w = (True, w1) \<Longrightarrow> send fd b w1 = (True, w2) \<Longrightarrow> out w2 fd = out w fd @ a @ b"
  by (simp add: send_ok)

end

lemma sys_send_wire:
  "sys_send fd data w = (Some n, w') \<Longrightarrow> n \<le> length data \<and> wire w' fd = wire w fd @ take n data"
  by (auto simp: sys_send_def wire_def min_def split: list.splits send_event.splits)

lemma sys_send_fail_wire: "sys_send fd data w = (None, w') \<Longrightarrow> wire w' fd = wire w fd"
  by (auto simp: sys_send_def wire_def split: list.splits send_event.splits)

lemma send_all_loop_wire:
  assumes "send_all_loop fd data k w = (b, w')" "k \<le> length data"
  shows "\<exists>m \<le> length data. k \<le> m \<and> (b \<longleftrightarrow> m = length data) \<and>
     wire w' fd = wire w fd @ drop k (take m data)"
  using assms
proof (induction fd data k w rule: send_all_loop.induct)
  case (1 fd data k w)
  show ?case
  proof (cases "k < length data")
    case True
    show ?thesis
    proof (cases "sys_send fd (drop k data) w")
      case (Pair r w1)
      show ?thesis
      proof (cases r)
        case None
        with Pair True "1.prems" have "\<not> b" "wire w' fd = wire w fd"
          by (auto simp: send_all_loop.simps [of fd data k w] dest: sys_send_fail_wire)
        with True show ?thesis by (intro exI [of _ k]) simp
      next
        case (Some n)
        with Pair True "1.prems" have rec: "send_all_loop fd data (k + n) w1 = (b, w')"
          by (simp add: send_all_loop.simps [of fd data k w])
        have n: "k + n \<le> length data" "wire w1 fd = wire w fd @ take n (drop k data)"
          using sys_send_wire [of fd "drop k data" w n w1] Pair Some True by auto
        from "1.IH" [OF True Pair [symmetric] Some rec n(1)]
        obtain m where m: "m \<le> length data" "k + n \<le> m" "b \<longleftrightarrow> m = length data"
          "wire w' fd = wire w1 fd @ drop (k + n) (take m data)" by blast
        have "drop k (take m data) = take n (drop k data) @ drop (k + n) (take m data)"
          using m(2) by (rule drop_take_split)
        with m n(2) show ?thesis by (intro exI [of _ m]) simp
      qed
    qed
  next
    case False
    with "1.prems" show ?thesis
      by (intro exI [of _ "length data"]) (simp add: send_all_loop.simps [of fd data k w])
  qed
qed

lemma send_all_loop_frame:
  "send_all_loop fd data k w = (b, w') \<Longrightarrow>
   files w' = files w \<and> now w' = now w \<and> (\<forall>fd'. fd' \<noteq> fd \<longrightarrow> socks w' fd' = socks w fd') \<and>
   inbox (socks w' fd) = inbox (socks w fd)"
proof (induction fd data k w rule: send_all_loop.induct)
  case (1 fd data k w)
  then show ?case
    by (subst (asm) (2) send_all_loop.simps)
       (auto split: if_splits prod.splits option.splits simp: sys_send_frame)
qed


lemma send_all_frame:
  assumes "send_all fd data w = (b, w')"
  shows "files w' = files w" "now w' = now w" "fd' \<noteq> fd \<Longrightarrow> socks w' fd' = socks w fd'"
    "inbox (socks w' fd) = inbox (socks w fd)"
  using send_all_loop_frame [OF assms [unfolded send_all_def]] by auto

lemma send_all_wire:
  assumes "send_all fd data w = (b, w')"
  obtains k where "k \<le> length data" "b \<longleftrightarrow> k = length data" "wire w' fd = wire w fd @ take k data"
  using send_all_loop_wire [OF assms [unfolded send_all_def]] by auto

interpretation sink: byte_sink send_all wire
proof unfold_locales
  fix fd data w w'
  assume "send_all fd data w = (True, w')"
  then show "wire w' fd = wire w fd @ data" by (rule send_all_wire) auto
next
  fix fd data w w'
  assume "send_all fd data w = (False, w')"
  then show "\<exists>k < length data. wire w' fd = wire w fd @ take k data"
    by (rule send_all_wire) (metis le_neq_implies_less)
next
  fix fd data w b w' fd'
  assume "send_all fd data w = (b, w')" "fd' \<noteq> fd"
  then show "wire w' fd' = wire w fd'" by (simp add: wire_def send_all_frame)
qed

lemma send_all_plain:
  assumes "send_plan (socks w fd) = []"
  shows "send_all fd data w =
    (True, if data = [] then w else set_sock fd (\<lambda>s. s\<lparr>sent := sent s @ [data]\<rparr>) w)"
  using assms by (simp add: send_all_def send_all_loop.simps sys_send_def)

text \<open>A connection on which no write will fail, whatever the partial writes.\<close>

definition reliable :: "world \<Rightarrow> int \<Rightarrow> bool" where
  "reliable w fd \<longleftrightarrow> Send_fails \<notin> set (send_plan (socks w fd))"

lemma send_all_loop_reliable:
  "reliable w fd \<Longrightarrow> send_all_loop fd data k w = (b, w') \<Longrightarrow> b \<and> reliable w' fd"
proof (induction fd data k w rule: send_all_loop.induct)
  case (1 fd data k w)
  obtain r w1 where s: "sys_send fd (drop k data) w = (r, w1)" by fastforce
  with "1.prems"(1) obtain n where n: "r = Some n" "reliable w1 fd"
    by (auto simp: sys_send_def reliable_def split: list.splits send_event.splits)
  show ?case
    using "1.IH" [OF _ s [symmetric] n(1) n(2)] "1.prems" s n
    by (auto simp: send_all_loop.simps [of fd data k w] split: if_splits)
qed

lemma send_all_reliable:
  assumes "reliable w fd"
  obtains w' where "send_all fd data w = (True, w')" "reliable w' fd" "wire w' fd = wire w fd @ data"
proof (cases "send_all fd data w")
  case (Pair b w')
  with send_all_loop_reliable [OF assms] have "b" "reliable w' fd"
    by (auto simp: send_all_def)
  with that Pair sink.send_ok show ?thesis by simp
qed

section \<open>Properties\<close>

text \<open>
  C33. When \<^verbatim>\<open>read_header_line\<close> returns a line, that line is everything up to
  and including the first newline of the peer's stream, and the line, the
  leftover bytes and the bytes not yet received are together exactly that
  stream: no byte is lost, duplicated or reordered, however the stream was cut
  into segments. No file and no other connection changes.
\<close>

theorem read_header_line_exact:
  assumes "read_header_line fd ms w = (line, leftover, w')" and "line \<noteq> []"
  shows "(\<exists>m. line = m @ [newline] \<and> newline \<notin> set m) \<and>
    stream_of (inbox (socks w fd)) = line @ leftover @ stream_of (inbox (socks w' fd)) \<and>
    files w' = files w \<and> (\<forall>fd'. fd' \<noteq> fd \<longrightarrow> socks w' fd' = socks w fd')"
  using read_header_loop_stream [OF assms(1) [unfolded read_header_line_def] assms(2)]
    read_header_loop_frame [OF assms(1) [unfolded read_header_line_def]] by auto

definition demo_socket :: "recv_event list \<Rightarrow> socket" where
  "demo_socket q = \<lparr>inbox = q, send_plan = [], sent = [], sock_open = True\<rparr>"

definition demo_world :: "(path \<rightharpoonup> bytes) \<Rightarrow> recv_event list \<Rightarrow> world" where
  "demo_world fs q = \<lparr>files = fs, socks = (\<lambda>_. demo_socket q), now = 0\<rparr>"

lemma demo_world_simps [simp]:
  "files (demo_world fs q) = fs" "socks (demo_world fs q) fd = demo_socket q"
  "now (demo_world fs q) = 0" "send_plan (demo_socket q) = []" "sent (demo_socket q) = []"
  "inbox (demo_socket q) = q"
  by (simp_all add: demo_world_def demo_socket_def)

theorem read_header_line_exact_witness:
  "\<exists>w'. read_header_line 4 1000 (demo_world Map.empty [Segment 5 (''HEALTH'' @ newline # ''xy'')])
      = (''HEALTH'' @ [newline], ''xy'', w') \<and>
    (\<exists>m. ''HEALTH'' @ [newline] = m @ [newline] \<and> newline \<notin> set m) \<and>
    ''HEALTH'' @ newline # ''xy'' = (''HEALTH'' @ [newline]) @ ''xy'' @ stream_of (inbox (socks w' 4))"
proof -
  let ?w = "demo_world Map.empty [Segment 5 (''HEALTH'' @ newline # ''xy'')]"
  obtain w' where w': "read_header_line 4 1000 ?w = (''HEALTH'' @ [newline], ''xy'', w')"
    using read_header_line_segment [of ?w 4 5 "''HEALTH''" "''xy''" "[]" 1000]
    by (auto simp: newline_def)
  have "''HEALTH'' @ [newline] \<noteq> []" by simp
  from read_header_line_exact [OF w' this] w' show ?thesis by auto
qed


text \<open>
  \<^verbatim>\<open>send_all\<close> returns for every sequence of partial writes. If it reports
  success, exactly the data has been appended to the connection; if it reports
  failure, a proper prefix of the data has. Files, clock, inbox and the other
  connections are untouched.
\<close>

theorem send_all_exact:
  "\<exists>b w' k. send_all fd data w = (b, w') \<and> k \<le> length data \<and> (b \<longleftrightarrow> k = length data) \<and>
     wire w' fd = wire w fd @ take k data \<and> files w' = files w \<and> now w' = now w \<and>
     inbox (socks w' fd) = inbox (socks w fd) \<and> socks w' = (socks w)(fd := socks w' fd)"
proof -
  obtain b w' where s: "send_all fd data w = (b, w')" by fastforce
  obtain k where "k \<le> length data" "b \<longleftrightarrow> k = length data" "wire w' fd = wire w fd @ take k data"
    using s by (rule send_all_wire)
  moreover have "socks w' = (socks w)(fd := socks w' fd)"
    using send_all_frame(3) [OF s] by (auto simp: fun_eq_iff)
  ultimately show ?thesis using s send_all_frame [OF s] by blast
qed

end
