(* ===== verification/File_IO.thy ===== *)
theory File_IO
  imports Socket_IO
begin

text \<open>
  \<^verbatim>\<open>file_io.cpp\<close>: file names, sizes, chunks, and the line reader the GET path
  is built on. The locale \<open>line_source\<close> states what the GET path relies on:
  inside the file a read returns the next whole line and moves the offset just
  past it, at the end it returns nothing.
\<close>

section \<open>Definitions\<close>

definition is_valid_filename :: "string \<Rightarrow> bool" where
  "is_valid_filename filename \<longleftrightarrow>
     (if filename = [] then False
      else if filename = ''.'' \<or> filename = ''..'' then False
      else if CHR ''/'' \<in> set filename then False
      else True)"

definition is_path_safe :: "string \<Rightarrow> bool" where
  "is_path_safe filename \<longleftrightarrow> is_valid_filename filename"

definition file_exists :: "path \<Rightarrow> world \<Rightarrow> bool" where
  "file_exists filepath w \<longleftrightarrow> files w filepath \<noteq> None"

definition get_file_size :: "path \<Rightarrow> world \<Rightarrow> u64" where
  "get_file_size filepath w =
     (case files w filepath of Some c \<Rightarrow> of_nat (length c) | None \<Rightarrow> 0)"

definition read_file_chunk :: "disk \<Rightarrow> path \<Rightarrow> u64 \<Rightarrow> u64 \<Rightarrow> world \<Rightarrow> bytes" where
  "read_file_chunk d filepath offset n w =
     (case open_read d filepath w of
        None \<Rightarrow> []
      | Some c \<Rightarrow> if 2 ^ 63 \<le> unat offset then [] else take (unat n) (drop (unat offset) c))"

text \<open>
  \<^verbatim>\<open>read_file_line\<close> returns the line and the new offset, or \<^const>\<open>None\<close> for
  \<^verbatim>\<open>false\<close>. An offset that is negative as a stream offset makes the seek fail;
  \<^verbatim>\<open>getline\<close> fails when no byte is left; when it stops at the end of the file
  instead of at a newline, \<^verbatim>\<open>tellg\<close> fails, the offset becomes the file size and
  no newline is added back.
\<close>

definition read_file_line :: "disk \<Rightarrow> path \<Rightarrow> u64 \<Rightarrow> world \<Rightarrow> (bytes \<times> u64) option" where
  "read_file_line d filepath offset w =
     (case open_read d filepath w of
        None \<Rightarrow> None
      | Some c \<Rightarrow>
          if 2 ^ 63 \<le> unat offset then None
          else
            (let rest = drop (unat offset) c in
             if rest = [] then None
             else
               (let line = takeWhile (\<lambda>b. b \<noteq> newline) rest;
                    eof = (line = rest);
                    new_offset = (if eof then get_file_size filepath w
                                  else offset + of_nat (length line) + 1)
                in Some (if eof then line else line @ [newline], new_offset))))"

definition write_file_data :: "disk \<Rightarrow> path \<Rightarrow> bytes \<Rightarrow> world \<Rightarrow> bool \<times> world" where
  "write_file_data d filepath data w =
     (case open_trunc d filepath w of
        (False, w1) \<Rightarrow> (False, w1)
      | (True, w1) \<Rightarrow>
          if data = [] then (True, w1) else stream_write d filepath 0 data w1)"

section \<open>Lines\<close>

text \<open>The reference notion: the lines of a byte string, each with its newline.\<close>

definition first_line :: "bytes \<Rightarrow> bytes" where
  "first_line s =
     (let l = takeWhile (\<lambda>b. b \<noteq> newline) s in if l = s then s else l @ [newline])"

lemma takeWhile_cut: "takeWhile P s \<noteq> s \<Longrightarrow> \<exists>x r. \<not> P x \<and> s = takeWhile P s @ x # r"
  by (metis append_Nil2 dropWhile_eq_Nil_conv hd_dropWhile list.collapse takeWhile_dropWhile_id)

lemma first_line_prefix: "\<exists>r. s = first_line s @ r"
proof (cases "takeWhile (\<lambda>b. b \<noteq> newline) s = s")
  case True
  then show ?thesis by (simp add: first_line_def)
next
  case False
  then obtain x r where "x = newline" "s = takeWhile (\<lambda>b. b \<noteq> newline) s @ x # r"
    using takeWhile_cut by blast
  moreover from False have "first_line s = takeWhile (\<lambda>b. b \<noteq> newline) s @ [newline]"
    by (simp only: first_line_def Let_def if_False)
  ultimately show ?thesis by (metis append.assoc append_Cons append_Nil)
qed

lemma first_line_append_drop [simp]: "first_line s @ drop (length (first_line s)) s = s"
  by (metis append_eq_conv_conj first_line_prefix)

lemma first_line_length: "length (first_line s) \<le> length s"
  by (metis first_line_append_drop le_add1 length_append)

lemma first_line_nonempty: "s \<noteq> [] \<Longrightarrow> first_line s \<noteq> []"
  by (auto simp: first_line_def)

lemma first_line_take: "take (length (first_line s)) s = first_line s"
  by (metis append_eq_conv_conj first_line_prefix)

function lines_of :: "bytes \<Rightarrow> bytes list" where
  "lines_of s = (if s = [] then []
                 else first_line s # lines_of (drop (length (first_line s)) s))"
  by pat_completeness auto
termination
  by (relation "measure length") (auto simp: first_line_nonempty)

declare lines_of.simps [simp del]

lemma lines_of_Nil [simp]: "lines_of [] = []"
  by (simp add: lines_of.simps)

lemma lines_of_rec:
  "s \<noteq> [] \<Longrightarrow> lines_of s = first_line s # lines_of (drop (length (first_line s)) s)"
  by (simp add: lines_of.simps [of s])

lemma concat_lines_of [simp]: "concat (lines_of s) = s"
proof (induction s rule: lines_of.induct)
  case (1 s)
  then show ?case by (cases "s = []") (auto simp: lines_of_rec [of s])
qed

lemma lines_of_nonempty: "l \<in> set (lines_of s) \<Longrightarrow> l \<noteq> []"
proof (induction s rule: lines_of.induct)
  case (1 s)
  show ?case
  proof (cases "s = []")
    case False
    with "1.prems" have "l = first_line s \<or> l \<in> set (lines_of (drop (length (first_line s)) s))"
      by (simp add: lines_of_rec [of s])
    with "1.IH" [OF False] first_line_nonempty [OF False] show ?thesis by metis
  qed (use "1.prems" in simp)
qed

lemma first_line_inner:
  assumes "first_line s \<noteq> s"
  shows "\<exists>l. first_line s = l @ [newline] \<and> newline \<notin> set l"
proof -
  have "first_line s = takeWhile (\<lambda>b. b \<noteq> newline) s @ [newline]"
    using assms unfolding first_line_def Let_def by (simp split: if_splits)
  moreover have "newline \<notin> set (takeWhile (\<lambda>b. b \<noteq> newline) s)"
    by (auto dest: set_takeWhileD)
  ultimately show ?thesis by blast
qed

text \<open>Dropping the first lines leaves the lines of the rest.\<close>

lemma drop_lines_of: "drop k (lines_of s) = lines_of (drop (length (concat (take k (lines_of s)))) s)"
proof (induction k arbitrary: s)
  case (Suc k)
  show ?case
  proof (cases "s = []")
    case False
    let ?f = "first_line s" and ?r = "drop (length (first_line s)) s"
    have "drop (Suc k) (lines_of s) = drop k (lines_of ?r)"
      using False by (simp add: lines_of_rec [of s])
    also have "\<dots> = lines_of (drop (length (concat (take k (lines_of ?r)))) ?r)"
      by (rule Suc.IH)
    also have "drop (length (concat (take k (lines_of ?r)))) ?r =
        drop (length (concat (take (Suc k) (lines_of s)))) s"
      using False by (simp add: lines_of_rec [of s] add.commute)
    finally show ?thesis .
  qed simp
qed simp

lemma lines_of_after: "lines_of s = P @ Q \<Longrightarrow> lines_of (drop (length (concat P)) s) = Q"
  using drop_lines_of [of "length P" s] by simp

section \<open>The line reader\<close>

locale line_source =
  fixes content :: "'w \<Rightarrow> bytes option"
    and read :: "u64 \<Rightarrow> 'w \<Rightarrow> (bytes \<times> u64) option"
  assumes content_bound: "content w = Some c \<Longrightarrow> length c < 2 ^ 63"
    and read_inside: "content w = Some c \<Longrightarrow> unat off < length c \<Longrightarrow>
      read off w = Some (first_line (drop (unat off) c),
                         of_nat (unat off + length (first_line (drop (unat off) c))))"
    and read_end: "content w = Some c \<Longrightarrow> length c \<le> unat off \<Longrightarrow> read off w = None"
    and read_closed: "content w = None \<Longrightarrow> read off w = None"
begin

text \<open>Every successful read makes progress and stays inside the file.\<close>

lemma read_progress:
  assumes "read off w = Some (line, off')"
  obtains c where "content w = Some c" "unat off < length c" "line = first_line (drop (unat off) c)"
    "unat off' = unat off + length line" "0 < length line" "unat off' \<le> length c" "length c < 2 ^ 63"
proof (cases "content w")
  case None
  with assms read_closed show ?thesis by simp
next
  case (Some c)
  then have lt: "unat off < length c" using assms read_end [OF Some, of off] by fastforce
  let ?f = "first_line (drop (unat off) c)"
  have eq: "line = ?f" "off' = of_nat (unat off + length ?f)"
    using assms read_inside [OF Some lt] by auto
  have f: "0 < length ?f" using lt by (simp add: first_line_nonempty)
  have le: "unat off + length ?f \<le> length c"
    using first_line_length [of "drop (unat off) c"] lt by simp
  have "unat off' = unat off + length ?f"
    unfolding eq(2) using le content_bound [OF Some] by (intro unat_of_nat_u64) simp
  with that [of c] Some lt eq(1) f le content_bound [OF Some] show ?thesis by simp
qed

lemma line_size_word:
  assumes "read off w = Some (line, off')"
  shows "unat (of_nat (length line) :: u64) = length line" "(of_nat (length line) :: u64) \<noteq> 0"
    "0 < length line"
proof -
  obtain c where "0 < length line" "length line < 2 ^ 63"
    using assms by (rule read_progress) linarith
  then show "unat (of_nat (length line) :: u64) = length line" "(of_nat (length line) :: u64) \<noteq> 0"
    "0 < length line"
    using unat_of_nat_u64 [of "length line"] of_nat_nonzero_u64 [of "length line"] by simp_all
qed

text \<open>The next line of the rest of the file, and the rest after it.\<close>

lemma read_next_line:
  assumes "content w = Some c" "lines_of (drop (unat off) c) = l # ls"
  obtains off' where "read off w = Some (l, off')" "off' = of_nat (unat off + length l)"
    "unat off' = unat off + length l" "drop (unat off) c = l @ drop (unat off') c"
    "lines_of (drop (unat off') c) = ls" "unat off' \<le> length c"
proof -
  let ?s = "drop (unat off) c"
  have ne: "?s \<noteq> []" using assms(2) by auto
  then have lt: "unat off < length c" by simp
  from lines_of_rec [OF ne] assms(2) have l: "l = first_line ?s" "ls = lines_of (drop (length l) ?s)"
    by auto
  have rd: "read off w = Some (l, of_nat (unat off + length l))"
    using read_inside [OF assms(1) lt] l(1) by simp
  then have off': "unat (of_nat (unat off + length l) :: u64) = unat off + length l"
    "unat (of_nat (unat off + length l) :: u64) \<le> length c"
    using assms(1) by (auto elim: read_progress)
  have "?s = l @ drop (unat off + length l) c"
    using first_line_append_drop [of ?s] l(1) by (simp add: add.commute)
  with that rd off' l(2) show ?thesis by (simp add: add.commute)
qed

text \<open>At the start of line \<open>k\<close> the reader returns line \<open>k\<close> and the start of the next one.\<close>

lemma read_nth_line:
  assumes "content w = Some c" "k < length (lines_of c)"
  defines "start \<equiv> \<lambda>j. length (concat (take j (lines_of c)))"
  shows "read (of_nat (start k)) w = Some (lines_of c ! k, of_nat (start (Suc k)))"
proof -
  let ?o = "start k"
  have "concat (take k (lines_of c)) @ concat (drop k (lines_of c)) = c"
    by (metis append_take_drop_id concat_append concat_lines_of)
  moreover have dr: "drop k (lines_of c) = lines_of (drop ?o c)"
    by (simp add: start_def drop_lines_of)
  ultimately have c: "length c = ?o + length (drop ?o c)"
    by (metis concat_lines_of length_append start_def)
  have ne: "drop ?o c \<noteq> []" using dr assms(2) by auto
  then have lt: "?o < length c" by simp
  then have u: "unat (of_nat ?o :: u64) = ?o"
    using content_bound [OF assms(1)] by (intro unat_of_nat_u64) simp
  have hd: "lines_of c ! k = first_line (drop ?o c)"
    using dr assms(2) lines_of_rec [OF ne] by (metis hd_drop_conv_nth list.sel(1))
  have "start (Suc k) = ?o + length (lines_of c ! k)"
    using assms(2) by (simp add: start_def take_Suc_conv_app_nth)
  with read_inside [OF assms(1), of "of_nat ?o"] lt u hd show ?thesis by simp
qed

end

lemma read_file_line_inside:
  assumes "open_read d p w = Some c" "unat off < length c"
  shows "read_file_line d p off w = Some (first_line (drop (unat off) c),
     of_nat (unat off + length (first_line (drop (unat off) c))))"
proof -
  have c: "files w p = Some c" "length c < 2 ^ 63"
    using assms(1) by (auto simp: open_read_def split: option.splits if_splits)
  let ?r = "drop (unat off) c"
  have "get_file_size p w = of_nat (unat off + length ?r)"
    using c assms(2) by (simp add: get_file_size_def)
  moreover have "off + of_nat n + 1 = of_nat (unat off + (n + 1))" for n
    by simp
  ultimately show ?thesis
    using assms c by (auto simp: read_file_line_def first_line_def Let_def)
qed

interpretation file_lines: line_source "open_read d p" "read_file_line d p" for d p
proof unfold_locales
  fix w c
  assume "open_read d p w = Some c"
  then show "length c < 2 ^ 63" by (auto simp: open_read_def split: option.splits if_splits)
next
  fix w c and off :: u64
  assume "open_read d p w = Some c" "unat off < length c"
  then show "read_file_line d p off w = Some (first_line (drop (unat off) c),
     of_nat (unat off + length (first_line (drop (unat off) c))))"
    by (rule read_file_line_inside)
next
  fix w c and off :: u64
  assume "open_read d p w = Some c" "length c \<le> unat off"
  then show "read_file_line d p off w = None" by (simp add: read_file_line_def)
next
  fix w and off :: u64
  assume "open_read d p w = None"
  then show "read_file_line d p off w = None" by (simp add: read_file_line_def)
qed


section \<open>Properties\<close>

text \<open>
  C35. \<^verbatim>\<open>read_file_line\<close> walks a file line by line: at the start of line
  \<open>k\<close> it returns exactly that line with its newline (the last one as it is) and
  the start of line \<open>k + 1\<close>, and past the last line it returns false; the lines
  together are the file.
\<close>

theorem read_file_line_walks:
  assumes "open_read d p w = Some c"
  shows "(\<forall>k < length (lines_of c).
      read_file_line d p (of_nat (length (concat (take k (lines_of c))))) w =
        Some (lines_of c ! k, of_nat (length (concat (take (Suc k) (lines_of c)))))) \<and>
    read_file_line d p (of_nat (length c)) w = None \<and> concat (lines_of c) = c"
proof -
  have "unat (of_nat (length c) :: u64) = length c"
    using file_lines.content_bound [OF assms] by (intro unat_of_nat_u64) simp
  then show ?thesis
    using file_lines.read_nth_line [OF assms] file_lines.read_end [OF assms] by simp
qed

definition two_lines :: bytes where
  "two_lines = ''ab'' @ newline # ''c''"

lemma lines_of_two_lines [simp]: "lines_of two_lines = [''ab'' @ [newline], ''c'']"
  by (simp add: two_lines_def lines_of.simps first_line_def newline_def)

theorem read_file_line_walks_witness:
  "open_read healthy_disk ''d/f'' (demo_world [''d/f'' \<mapsto> two_lines] []) = Some two_lines \<and>
   read_file_line healthy_disk ''d/f'' 3 (demo_world [''d/f'' \<mapsto> two_lines] []) = Some (''c'', 4)"
proof -
  let ?w = "demo_world [''d/f'' \<mapsto> two_lines] []"
  have o: "open_read healthy_disk ''d/f'' ?w = Some two_lines"
    by (simp add: open_read_def healthy_disk_def two_lines_def)
  from read_file_line_walks [OF o] have "\<forall>k < length (lines_of two_lines).
      read_file_line healthy_disk ''d/f'' (of_nat (length (concat (take k (lines_of two_lines))))) ?w =
        Some (lines_of two_lines ! k, of_nat (length (concat (take (Suc k) (lines_of two_lines)))))"
    by blast
  then have "1 < length (lines_of two_lines) \<longrightarrow>
      read_file_line healthy_disk ''d/f'' (of_nat (length (concat (take 1 (lines_of two_lines))))) ?w =
        Some (lines_of two_lines ! 1, of_nat (length (concat (take (Suc 1) (lines_of two_lines)))))"
    by blast
  with o show ?thesis by simp
qed

text \<open>The components of a path, as the system separates them.\<close>

fun path_components :: "path \<Rightarrow> string list" where
  "path_components [] = [[]]"
| "path_components (c # p) =
     (if c = CHR ''/'' then [] # path_components p
      else (case path_components p of [] \<Rightarrow> [[c]] | x # xs \<Rightarrow> (c # x) # xs))"

lemma path_components_nonempty: "path_components p \<noteq> []"
  by (cases p) (auto split: list.splits)

lemma path_components_plain: "CHR ''/'' \<notin> set f \<Longrightarrow> path_components f = [f]"
  by (induction f) auto

lemma path_components_join:
  "path_components (dir @ CHR ''/'' # f) = path_components dir @ path_components f"
proof (induction dir)
  case (Cons c dir)
  then show ?case
    using path_components_nonempty [of dir] by (auto simp: neq_Nil_conv)
qed simp

text \<open>
  A name accepted by \<^verbatim>\<open>is_valid_filename\<close> stays inside the served
  directory: the path the server builds from it has the directory's components
  and then one more, which is neither empty nor \<^verbatim>\<open>.\<close> nor \<^verbatim>\<open>..\<close>. Every name
  whose path escapes in one of these ways is rejected.
\<close>

theorem is_valid_filename_confines:
  "is_valid_filename f \<longleftrightarrow>
     (\<exists>x. path_components (dir @ ''/'' @ f) = path_components dir @ [x] \<and>
          x \<noteq> [] \<and> x \<noteq> ''.'' \<and> x \<noteq> ''..'')"
proof (cases "CHR ''/'' \<in> set f")
  case True
  then obtain a b where "f = a @ ''/'' @ b" by (metis append_Cons append_Nil split_list)
  then have "length (path_components f) \<ge> 2"
    using path_components_nonempty [of a] path_components_nonempty [of b]
    by (auto simp: path_components_join neq_Nil_conv)
  then have "path_components f \<noteq> [x]" for x by auto
  with True show ?thesis by (auto simp: path_components_join is_valid_filename_def)
next
  case False
  then show ?thesis
    by (auto simp: path_components_join path_components_plain is_valid_filename_def)
qed

end
