(* ===== verification/Request_Queue.thy ===== *)
theory Request_Queue
  imports Prelude
begin

text \<open>
  \<^verbatim>\<open>queue.h\<close> and \<^verbatim>\<open>queue.cpp\<close>: the request record, the shared queue of
  admitted requests and the queue of accepted connections. Each operation is
  one critical section of the source. A pop whose wait predicate does not hold
  is \<open>Blocked\<close>: the thread stays in \<^verbatim>\<open>cv_.wait\<close>. The locale
  \<open>request_pool\<close> is the contract the scheduler and the worker pool rely on; it
  is interpreted for the FIFO pop and for the best-element pop.
\<close>

section \<open>Requests\<close>

datatype operation = GET | PUT | HEALTH

record request =
  request_id :: i32
  client_fd :: int
  op :: operation
  filename :: string
  total_bytes :: u64
  offset :: u64
  rounds :: u64
  forfeited_bytes :: u64
  deficit :: u64
  a14_events :: u64
  arrival_ns :: u64
  start_ns :: u64
  finish_ns :: u64
  pending_bytes :: bytes
  pending_offset :: u64
  staging_filename :: string
  response_sent :: bool

definition new_request :: request where
  "new_request = \<lparr>request_id = 0, client_fd = -1, op = GET, filename = [],
     total_bytes = 0, offset = 0, rounds = 0, forfeited_bytes = 0, deficit = 0, a14_events = 0,
     arrival_ns = 0, start_ns = 0, finish_ns = 0,
     pending_bytes = [], pending_offset = 0, staging_filename = [], response_sent = False\<rparr>"

section \<open>The request queue\<close>

record request_queue =
  q_items :: "request list"
  q_closed :: bool
  q_inflight :: nat

definition empty_queue :: request_queue where
  "empty_queue = \<lparr>q_items = [], q_closed = False, q_inflight = 0\<rparr>"

definition push :: "request \<Rightarrow> request_queue \<Rightarrow> bool \<times> request_queue" where
  "push r q = (if q_closed q then (False, q) else (True, q\<lparr>q_items := q_items q @ [r]\<rparr>))"

datatype ('r, 'q) pop_result = Blocked | Drained | Popped 'r 'q

text \<open>The wait predicate of both pops.\<close>

definition pop_ready :: "request_queue \<Rightarrow> bool" where
  "pop_ready q \<longleftrightarrow> q_items q \<noteq> [] \<or> (q_closed q \<and> q_inflight q = 0)"

definition wait_pop :: "request_queue \<Rightarrow> (request, request_queue) pop_result" where
  "wait_pop q =
     (if \<not> pop_ready q then Blocked
      else case q_items q of
             [] \<Rightarrow> Drained
           | r # rs \<Rightarrow> Popped r (q\<lparr>q_items := rs, q_inflight := q_inflight q + 1\<rparr>))"

definition try_pop :: "request_queue \<Rightarrow> (request \<times> request_queue) option" where
  "try_pop q =
     (case q_items q of
        [] \<Rightarrow> None
      | r # rs \<Rightarrow> Some (r, q\<lparr>q_items := rs, q_inflight := q_inflight q + 1\<rparr>))"

text \<open>The scan of \<^verbatim>\<open>wait_pop_best\<close>: \<open>best\<close> and \<open>i\<close> are the two iterators.\<close>

function best_loop :: "('r \<Rightarrow> 'r \<Rightarrow> bool) \<Rightarrow> 'r list \<Rightarrow> nat \<Rightarrow> nat \<Rightarrow> nat" where
  "best_loop compare xs best i =
     (if i < length xs
      then best_loop compare xs (if compare (xs ! i) (xs ! best) then i else best) (Suc i)
      else best)"
  by pat_completeness auto
termination
  by (relation "measure (\<lambda>(compare, xs, best, i). length xs - i)") auto

declare best_loop.simps [simp del]

definition wait_pop_best ::
  "(request \<Rightarrow> request \<Rightarrow> bool) \<Rightarrow> request_queue \<Rightarrow> (request, request_queue) pop_result" where
  "wait_pop_best compare q =
     (if \<not> pop_ready q then Blocked
      else if q_items q = [] then Drained
      else (let xs = q_items q; best = best_loop compare xs 0 1
            in Popped (xs ! best)
                 (q\<lparr>q_items := take best xs @ drop (Suc best) xs,
                    q_inflight := q_inflight q + 1\<rparr>)))"

definition requeue :: "request \<Rightarrow> request_queue \<Rightarrow> request_queue" where
  "requeue r q =
     q\<lparr>q_inflight := (if 0 < q_inflight q then q_inflight q - 1 else q_inflight q),
       q_items := q_items q @ [r]\<rparr>"

definition complete :: "request_queue \<Rightarrow> request_queue" where
  "complete q =
     q\<lparr>q_inflight := (if 0 < q_inflight q then q_inflight q - 1 else q_inflight q)\<rparr>"

definition queue_size :: "request_queue \<Rightarrow> nat" where
  "queue_size q = length (q_items q)"

definition queue_empty :: "request_queue \<Rightarrow> bool" where
  "queue_empty q \<longleftrightarrow> q_items q = []"

definition close_queue :: "request_queue \<Rightarrow> request_queue" where
  "close_queue q = q\<lparr>q_closed := True\<rparr>"

definition is_closed :: "request_queue \<Rightarrow> bool" where
  "is_closed q \<longleftrightarrow> q_closed q"

section \<open>The queue of accepted connections\<close>

record fd_queue =
  fd_items :: "int list"
  fd_closed :: bool

definition fd_push :: "int \<Rightarrow> fd_queue \<Rightarrow> bool \<times> fd_queue" where
  "fd_push fd q = (if fd_closed q then (False, q) else (True, q\<lparr>fd_items := fd_items q @ [fd]\<rparr>))"

definition fd_wait_pop :: "fd_queue \<Rightarrow> (int, fd_queue) pop_result" where
  "fd_wait_pop q =
     (if fd_items q = [] \<and> \<not> fd_closed q then Blocked
      else case fd_items q of
             [] \<Rightarrow> Drained
           | fd # fds \<Rightarrow> Popped fd (q\<lparr>fd_items := fds\<rparr>))"

definition fd_close :: "fd_queue \<Rightarrow> fd_queue" where
  "fd_close q = q\<lparr>fd_closed := True\<rparr>"

section \<open>The contract of a pool of requests\<close>

locale request_pool =
  fixes push :: "'r \<Rightarrow> 'q \<Rightarrow> bool \<times> 'q"
    and pop :: "'q \<Rightarrow> ('r, 'q) pop_result"
    and requeue :: "'r \<Rightarrow> 'q \<Rightarrow> 'q"
    and complete :: "'q \<Rightarrow> 'q"
    and close :: "'q \<Rightarrow> 'q"
    and waiting :: "'q \<Rightarrow> 'r multiset"
    and busy :: "'q \<Rightarrow> nat"
    and shut :: "'q \<Rightarrow> bool"
  assumes push_law: "push r q = (b, q') \<Longrightarrow>
      b = (\<not> shut q) \<and> waiting q' = waiting q + (if b then {#r#} else {#}) \<and>
      busy q' = busy q \<and> shut q' = shut q"
    and popped: "pop q = Popped r q' \<Longrightarrow>
      waiting q = waiting q' + {#r#} \<and> busy q' = Suc (busy q) \<and> shut q' = shut q"
    and drained: "pop q = Drained \<longleftrightarrow> waiting q = {#} \<and> shut q \<and> busy q = 0"
    and blocked: "pop q = Blocked \<longleftrightarrow> waiting q = {#} \<and> \<not> (shut q \<and> busy q = 0)"
    and requeue_law: "waiting (requeue r q) = waiting q + {#r#} \<and>
      busy (requeue r q) = busy q - 1 \<and> shut (requeue r q) = shut q"
    and complete_law: "waiting (complete q) = waiting q \<and> busy (complete q) = busy q - 1 \<and>
      shut (complete q) = shut q"
    and close_law: "waiting (close q) = waiting q \<and> busy (close q) = busy q \<and> shut (close q)"
begin

text \<open>A worker gets a request whenever one waits, and leaves only when none can come back.\<close>

lemma pop_serves: "(\<exists>r q'. pop q = Popped r q') \<longleftrightarrow> waiting q \<noteq> {#}"
  using popped [of q] drained [of q] blocked [of q] by (cases "pop q") auto

lemma popped_mem: "pop q = Popped r q' \<Longrightarrow> r \<in># waiting q"
  using popped [of q r q'] by simp

lemma pop_requeue:
  assumes "pop q = Popped r q'"
  shows "waiting (requeue r' q') = waiting q - {#r#} + {#r'#}" "busy (requeue r' q') = busy q"
  using popped [OF assms] requeue_law [of r' q'] by simp_all

lemma pop_complete:
  assumes "pop q = Popped r q'"
  shows "waiting (complete q') = waiting q - {#r#}" "busy (complete q') = busy q"
  using popped [OF assms] complete_law [of q'] by simp_all

text \<open>Once closed, a pool admits nothing more; a drained one stays drained.\<close>

lemma push_closed: "shut q \<Longrightarrow> push r q = (b, q') \<Longrightarrow> \<not> b \<and> waiting q' = waiting q"
  using push_law [of r q b q'] by simp

lemma drained_stable:
  assumes "pop q = Drained"
  shows "pop (complete q) = Drained" "pop (close q) = Drained" "push r q = (b, q') \<Longrightarrow> pop q' = Drained"
  using assms drained complete_law [of q] close_law [of q] push_law [of r q b q'] by auto

end


section \<open>The queue implements the contract\<close>

definition q_waiting :: "request_queue \<Rightarrow> request multiset" where
  "q_waiting q = mset (q_items q)"

lemmas queue_defs =
  push_def pop_ready_def wait_pop_def wait_pop_best_def requeue_def complete_def close_queue_def
  q_waiting_def

lemma best_loop_range: "best < length xs \<Longrightarrow> best_loop compare xs best i < length xs"
proof (induction compare xs best i rule: best_loop.induct)
  case (1 compare xs best i)
  then show ?case by (subst best_loop.simps) auto
qed

lemma mset_erase: "i < length xs \<Longrightarrow> mset xs = mset (take i xs @ drop (Suc i) xs) + {#xs ! i#}"
  by (subst id_take_nth_drop [of i xs]) simp_all

interpretation fifo: request_pool push wait_pop requeue complete close_queue
    q_waiting q_inflight q_closed
  by unfold_locales (auto simp: queue_defs split: if_splits list.splits)

interpretation best: request_pool push "wait_pop_best compare" requeue complete close_queue
    q_waiting q_inflight q_closed for compare
proof (unfold_locales, goal_cases)
  case (2 q r q')
  let ?i = "best_loop compare (q_items q) 0 1"
  from 2 have ne: "q_items q \<noteq> []" "pop_ready q"
    by (auto simp: wait_pop_best_def split: if_splits)
  then have "?i < length (q_items q)" by (simp add: best_loop_range)
  from mset_erase [OF this] ne 2 show ?case
    by (auto simp: wait_pop_best_def q_waiting_def Let_def)
qed (auto simp: queue_defs Let_def split: if_splits)

text \<open>The scan returns the first of the smallest elements.\<close>

lemma best_loop_min:
  fixes key :: "'r \<Rightarrow> 'k :: linorder"
  assumes "best < i" "i \<le> length xs"
    and "\<forall>j < i. key (xs ! best) \<le> key (xs ! j)" "\<forall>j < best. key (xs ! best) < key (xs ! j)"
  defines "m \<equiv> best_loop (\<lambda>a b. key a < key b) xs best i"
  shows "m < length xs \<and> (\<forall>j < length xs. key (xs ! m) \<le> key (xs ! j)) \<and>
     (\<forall>j < m. key (xs ! m) < key (xs ! j))"
  using assms(1-4) unfolding m_def
proof (induction "length xs - i" arbitrary: best i)
  case 0
  then show ?case by (subst (1 2 3 4) best_loop.simps) auto
next
  case (Suc n)
  then have lt: "i < length xs" by simp
  let ?b = "if key (xs ! i) < key (xs ! best) then i else best"
  have "?b < Suc i" "\<forall>j < Suc i. key (xs ! ?b) \<le> key (xs ! j)" "\<forall>j < ?b. key (xs ! ?b) < key (xs ! j)"
    using Suc.prems by (auto simp: less_Suc_eq)
  then have "let m = best_loop (\<lambda>a b. key a < key b) xs ?b (Suc i) in
      m < length xs \<and> (\<forall>j < length xs. key (xs ! m) \<le> key (xs ! j)) \<and>
      (\<forall>j < m. key (xs ! m) < key (xs ! j))"
    using Suc.hyps lt by (simp add: Let_def)
  with lt show ?case by (simp add: best_loop.simps [of _ xs best i] Let_def)
qed

section \<open>First in, first out\<close>

datatype queue_op = Do_push request | Do_pop | Do_requeue request | Do_complete | Do_close

text \<open>Runs operations, recording what entered the queue and what a pop handed out.\<close>

fun queue_step ::
  "queue_op \<Rightarrow> request_queue \<times> request list \<times> request list \<Rightarrow> request_queue \<times> request list \<times> request list"
where
  "queue_step (Do_push r) (q, ins, outs) =
     (case push r q of (b, q') \<Rightarrow> (q', if b then ins @ [r] else ins, outs))"
| "queue_step Do_pop (q, ins, outs) =
     (case wait_pop q of Popped r q' \<Rightarrow> (q', ins, outs @ [r]) | _ \<Rightarrow> (q, ins, outs))"
| "queue_step (Do_requeue r) (q, ins, outs) = (requeue r q, ins @ [r], outs)"
| "queue_step Do_complete (q, ins, outs) = (complete q, ins, outs)"
| "queue_step Do_close (q, ins, outs) = (close_queue q, ins, outs)"

lemma queue_step_fifo:
  "ins = outs @ q_items q \<Longrightarrow> queue_step x (q, ins, outs) = (q', ins', outs') \<Longrightarrow>
   ins' = outs' @ q_items q'"
  by (cases x) (auto simp: queue_defs split: if_splits list.splits)

lemma queue_run_fifo:
  "ins = outs @ q_items q \<Longrightarrow> fold queue_step xs (q, ins, outs) = (q', ins', outs') \<Longrightarrow>
   ins' = outs' @ q_items q'"
proof (induction xs arbitrary: q ins outs)
  case (Cons x xs)
  obtain q1 ins1 outs1 where s: "queue_step x (q, ins, outs) = (q1, ins1, outs1)"
    by (metis prod_cases3)
  with Cons.prems have "ins1 = outs1 @ q_items q1" by (auto intro: queue_step_fifo)
  with Cons.IH Cons.prems(2) s show ?case by simp
qed simp

section \<open>Properties\<close>



end
