(* ===== verification/Protocol.thy ===== *)
theory Protocol
  imports Socket_IO Request_Queue
begin

text \<open>
  \<^verbatim>\<open>protocol.cpp\<close>: the request header and the status lines. A header that
  the source rejects with an exception is \<^const>\<open>Inl\<close> of the exception's
  message.
\<close>

section \<open>Definitions\<close>

function strip_eol :: "string \<Rightarrow> string" where
  "strip_eol line =
     (if line \<noteq> [] \<and> (last line = newline \<or> last line = carriage_return)
      then strip_eol (butlast line) else line)"
  by pat_completeness auto
termination
  by (relation "measure length") auto

declare strip_eol.simps [simp del]

definition parse_request_header :: "string \<Rightarrow> int \<Rightarrow> string + request" where
  "parse_request_header header_line fd =
     (let line = strip_eol header_line in
      if line = [] then Inl ''empty request''
      else case extract_word line of
        None \<Rightarrow> Inl ''missing operation''
      | Some (word, iss) \<Rightarrow>
          (let opname = map toupper word;
               r = new_request\<lparr>client_fd := fd\<rparr>
           in
           if opname = ''HEALTH'' then
             (case extract_word iss of
                Some (extra, _) \<Rightarrow> Inl ''HEALTH takes no arguments''
              | None \<Rightarrow> Inr (r\<lparr>op := HEALTH, filename := [], total_bytes := 0\<rparr>))
           else if opname = ''GET'' then
             (case extract_word iss of
                None \<Rightarrow> Inl ''GET requires filename''
              | Some (name, iss1) \<Rightarrow>
                  (case extract_word iss1 of
                     Some (extra, _) \<Rightarrow> Inl ''GET takes exactly one filename''
                   | None \<Rightarrow> Inr (r\<lparr>op := GET, filename := name, total_bytes := 0\<rparr>)))
           else if opname = ''PUT'' then
             (case extract_word iss of
                None \<Rightarrow> Inl ''PUT requires filename''
              | Some (name, iss1) \<Rightarrow>
                  (case extract_word iss1 of
                     None \<Rightarrow> Inl ''PUT requires byte count''
                   | Some (byte_string, iss2) \<Rightarrow>
                       (case extract_word iss2 of
                          Some (extra, _) \<Rightarrow> Inl ''PUT takes filename and byte count only''
                        | None \<Rightarrow>
                            if byte_string = [] \<or> \<not> list_all isdigit byte_string
                            then Inl ''invalid byte count''
                            else (case stoull byte_string of
                                    Inl _ \<Rightarrow> Inl ''invalid byte count''
                                  | Inr n \<Rightarrow>
                                      Inr (r\<lparr>op := PUT, filename := name, total_bytes := n\<rparr>)))))
           else Inl (''unknown operation: '' @ opname)))"

definition ok_line :: "u64 \<Rightarrow> bytes" where
  "ok_line v = ''OK '' @ to_string v @ [newline]"

definition err_line :: "string \<Rightarrow> bytes" where
  "err_line reason = ''ERR '' @ reason @ [newline]"

text \<open>A failed send is only reported on the server's error stream.\<close>

definition send_response :: "int \<Rightarrow> u64 \<Rightarrow> world \<Rightarrow> world" where
  "send_response fd v w = snd (send_all fd (ok_line v) w)"

definition send_error :: "int \<Rightarrow> string \<Rightarrow> world \<Rightarrow> world" where
  "send_error fd reason w = snd (send_all fd (err_line reason) w)"

section \<open>The words of a header\<close>

lemma extract_word_shorter: "extract_word s = Some (v, r) \<Longrightarrow> length r < length s"
proof -
  assume a: "extract_word s = Some (v, r)"
  let ?t = "dropWhile isspace s"
  have v: "v = takeWhile (\<lambda>c. \<not> isspace c) ?t" "r = dropWhile (\<lambda>c. \<not> isspace c) ?t" "v \<noteq> []"
    using a by (auto simp: extract_word_def Let_def split: if_splits)
  then have "length v + length r = length ?t" by (metis length_append takeWhile_dropWhile_id)
  moreover have "length ?t \<le> length s" by (rule length_dropWhile_le)
  moreover have "0 < length v" using v(3) by simp
  ultimately show "length r < length s" by linarith
qed

function words_of :: "string \<Rightarrow> string list" where
  "words_of s = (case extract_word s of None \<Rightarrow> [] | Some (v, r) \<Rightarrow> v # words_of r)"
  by pat_completeness auto
termination
  by (relation "measure length") (auto dest: extract_word_shorter)

declare words_of.simps [simp del]

text \<open>The grammar of requests, as a function of the words.\<close>

fun request_of_words :: "int \<Rightarrow> string list \<Rightarrow> string + request" where
  "request_of_words fd [] = Inl ''missing operation''"
| "request_of_words fd (opword # args) =
     (let opname = map toupper opword; r = new_request\<lparr>client_fd := fd\<rparr> in
      if opname = ''HEALTH'' then
        (case args of [] \<Rightarrow> Inr (r\<lparr>op := HEALTH\<rparr>) | _ \<Rightarrow> Inl ''HEALTH takes no arguments'')
      else if opname = ''GET'' then
        (case args of [] \<Rightarrow> Inl ''GET requires filename''
         | [name] \<Rightarrow> Inr (r\<lparr>op := GET, filename := name\<rparr>)
         | _ \<Rightarrow> Inl ''GET takes exactly one filename'')
      else if opname = ''PUT'' then
        (case args of [] \<Rightarrow> Inl ''PUT requires filename''
         | [name] \<Rightarrow> Inl ''PUT requires byte count''
         | [name, digits] \<Rightarrow>
             if list_all isdigit digits \<and> digits_val digits < 2 ^ 64
             then Inr (r\<lparr>op := PUT, filename := name, total_bytes := of_nat (digits_val digits)\<rparr>)
             else Inl ''invalid byte count''
         | _ \<Rightarrow> Inl ''PUT takes filename and byte count only'')
      else Inl (''unknown operation: '' @ opname))"

lemma parse_header_words:
  "parse_request_header h fd =
     (if strip_eol h = [] then Inl ''empty request'' else request_of_words fd (words_of (strip_eol h)))"
proof (cases "strip_eol h = []")
  case False
  have "parse_request_header h fd = request_of_words fd (words_of (strip_eol h))"
  proof (cases "extract_word (strip_eol h)")
    case None
    then show ?thesis using False
      by (simp add: parse_request_header_def words_of.simps [of "strip_eol h"])
  next
    case (Some x)
    obtain v r where x: "x = (v, r)" by fastforce
    show ?thesis
      using False Some x extract_word_nonempty
      by (auto simp: parse_request_header_def words_of.simps [of "strip_eol h"] words_of.simps
          Let_def new_request_def stoull_digits split: option.splits)
  qed
  with False show ?thesis by simp
qed (simp add: parse_request_header_def)


lemma words_of_Nil [simp]: "words_of [] = []"
  by (simp add: words_of.simps)

lemma words_of_space [simp]: "isspace c \<Longrightarrow> words_of (c # s) = words_of s"
  by (simp add: words_of.simps [of "c # s"] words_of.simps [of s])

lemma words_of_word:
  assumes "v \<noteq> []" "list_all (\<lambda>c. \<not> isspace c) v" "r = [] \<or> isspace (hd r)"
  shows "words_of (v @ r) = v # words_of r"
  using extract_word_append [OF assms] by (simp add: words_of.simps [of "v @ r"])

lemma strip_eol_newline:
  "s \<noteq> [] \<Longrightarrow> \<not> isspace (last s) \<Longrightarrow> strip_eol (s @ [newline]) = s"
  by (subst strip_eol.simps, subst strip_eol.simps)
     (auto simp: isspace_def newline_def carriage_return_def)

section \<open>Status lines\<close>

lemma ok_line_nonempty [simp]: "ok_line v \<noteq> []" "err_line m \<noteq> []"
  by (simp_all add: ok_line_def err_line_def)

lemma send_response_frame [simp, frame_simps]:
  "files (send_response fd v w) = files w" "now (send_response fd v w) = now w"
  "inbox (socks (send_response fd v w) fd) = inbox (socks w fd)"
  "fd' \<noteq> fd \<Longrightarrow> socks (send_response fd v w) fd' = socks w fd'"
  by (cases "send_all fd (ok_line v) w"; simp add: send_response_def send_all_frame)+

lemma send_error_frame [simp, frame_simps]:
  "files (send_error fd m w) = files w" "now (send_error fd m w) = now w"
  "inbox (socks (send_error fd m w) fd) = inbox (socks w fd)"
  "fd' \<noteq> fd \<Longrightarrow> socks (send_error fd m w) fd' = socks w fd'"
  by (cases "send_all fd (err_line m) w"; simp add: send_error_def send_all_frame)+

text \<open>On a connection that takes every write, the line arrives as one piece.\<close>

lemma send_response_plain:
  "send_plan (socks w fd) = [] \<Longrightarrow>
   send_response fd v w = set_sock fd (\<lambda>s. s\<lparr>sent := sent s @ [ok_line v]\<rparr>) w"
  by (simp add: send_response_def send_all_plain)

lemma send_error_plain:
  "send_plan (socks w fd) = [] \<Longrightarrow>
   send_error fd m w = set_sock fd (\<lambda>s. s\<lparr>sent := sent s @ [err_line m]\<rparr>) w"
  by (simp add: send_error_def send_all_plain)

lemma request_header_parses:
  assumes "name \<noteq> []" and "list_all (\<lambda>c. \<not> isspace c) name"
  shows "parse_request_header (''GET '' @ name @ [newline]) fd =
      Inr (new_request\<lparr>client_fd := fd, op := GET, filename := name\<rparr>) \<and>
    parse_request_header (''PUT '' @ name @ '' '' @ to_string n @ [newline]) fd =
      Inr (new_request\<lparr>client_fd := fd, op := PUT, filename := name, total_bytes := n\<rparr>) \<and>
    parse_request_header (''HEALTH'' @ [newline]) fd = Inr (new_request\<lparr>client_fd := fd, op := HEALTH\<rparr>)"
proof -
  have lastn: "\<not> isspace (last name)"
    using assms by (simp add: list_all_iff)
  have lastd: "\<not> isspace (last (to_string n))"
    using to_string_props(1,3) [of n] by (metis last_in_set list_all_iff)
  have get: "strip_eol (''GET '' @ name @ [newline]) = ''GET '' @ name"
    using strip_eol_newline [of "''GET '' @ name"] assms(1) lastn by simp
  have put: "strip_eol (''PUT '' @ name @ '' '' @ to_string n @ [newline]) =
      ''PUT '' @ name @ '' '' @ to_string n"
    using strip_eol_newline [of "''PUT '' @ name @ '' '' @ to_string n"] lastd by simp
  have health: "strip_eol (''HEALTH'' @ [newline]) = ''HEALTH''"
    by (rule strip_eol_newline) (simp_all add: isspace_def)
  have wget: "words_of (''GET '' @ name) = [''GET'', name]"
    using words_of_word [of "''GET''" "'' '' @ name"] words_of_word [of name "[]"] assms
    by (simp add: isspace_def)
  have wnum: "words_of (to_string n) = [to_string n]"
    using words_of_word [of "to_string n" "[]"] by simp
  have wput: "words_of (''PUT '' @ name @ '' '' @ to_string n) = [''PUT'', name, to_string n]"
    using words_of_word [of "''PUT''" "'' '' @ name @ '' '' @ to_string n"]
      words_of_word [of name "'' '' @ to_string n"] wnum assms
    by (simp add: isspace_def)
  have whealth: "words_of ''HEALTH'' = [''HEALTH'']"
    using words_of_word [of "''HEALTH''" "[]"] by (simp add: isspace_def)
  have val: "digits_val (to_string n) = unat n"
    by (simp add: to_string_def)
  have up: "map toupper ''GET'' = ''GET''" "map toupper ''PUT'' = ''PUT''"
    "map toupper ''HEALTH'' = ''HEALTH''" by (simp_all add: toupper_def)
  have "parse_request_header (''GET '' @ name @ [newline]) fd = request_of_words fd [''GET'', name]"
    "parse_request_header (''PUT '' @ name @ '' '' @ to_string n @ [newline]) fd =
       request_of_words fd [''PUT'', name, to_string n]"
    "parse_request_header (''HEALTH'' @ [newline]) fd = request_of_words fd [''HEALTH'']"
    unfolding parse_header_words get put health wget wput whealth by simp_all
  then show ?thesis
    using up val unat_lt_u64 [of n] by (simp add: new_request_def)
qed

section \<open>Properties\<close>

text \<open>
  C31. \<^verbatim>\<open>parse_request_header\<close> accepts exactly the grammar of the protocol:
  after trailing line ends are removed, the white-space separated words must be
  \<open>HEALTH\<close>, \<open>GET name\<close> or \<open>PUT name digits\<close>, the operation in any
  letter case and the digits a value below \<open>2^64\<close>; every other header is
  rejected with the message that names its fault.
\<close>

theorem parse_request_header_grammar:
  "parse_request_header h fd =
     (if strip_eol h = [] then Inl ''empty request''
      else request_of_words fd (words_of (strip_eol h)))"
  by (rule parse_header_words)

text \<open>
  C32. Headers written the way the client writes them are read back exactly: for
  every non-empty name without white space and every 64-bit size, the three
  request lines give the request with that operation, name and size and all
  other fields at their initial values.
\<close>

theorem request_header_roundtrip:
  assumes "name \<noteq> []" and "list_all (\<lambda>c. \<not> isspace c) name"
  shows "parse_request_header (''GET '' @ name @ [newline]) fd =
      Inr (new_request\<lparr>client_fd := fd, op := GET, filename := name\<rparr>) \<and>
    parse_request_header (''PUT '' @ name @ '' '' @ to_string n @ [newline]) fd =
      Inr (new_request\<lparr>client_fd := fd, op := PUT, filename := name, total_bytes := n\<rparr>) \<and>
    parse_request_header (''HEALTH'' @ [newline]) fd = Inr (new_request\<lparr>client_fd := fd, op := HEALTH\<rparr>)"
  using assms by (rule request_header_parses)

theorem request_header_roundtrip_witness:
  "parse_request_header (''PUT '' @ ''small.txt'' @ '' '' @ to_string 1024 @ [newline]) 7 =
     Inr (new_request\<lparr>client_fd := 7, op := PUT, filename := ''small.txt'', total_bytes := 1024\<rparr>)"
proof -
  have "''small.txt'' \<noteq> []" "list_all (\<lambda>c. \<not> isspace c) ''small.txt''"
    by (simp_all add: isspace_def)
  from request_header_roundtrip [OF this, of 7 1024] show ?thesis by blast
qed

end
