(* ===== verification/Serve.thy ===== *)
theory Serve
  imports File_IO Protocol
begin

text \<open>
  \<^verbatim>\<open>server.cpp\<close>: one scheduling round of a GET and of a PUT. A round takes
  the request, its byte budget and the world and returns whether it succeeded,
  the bytes it processed, the request as it left it and the new world. The
  loops of the source are the functions \<open>select_lines\<close>, \<open>gather_lines\<close>,
  \<open>send_packets\<close>, \<open>put_pending\<close> and \<open>put_receive\<close>; all of them
  terminate for every input.
\<close>

section \<open>GET\<close>

definition join_path :: "path \<Rightarrow> string \<Rightarrow> path" where
  "join_path dir name = dir @ ''/'' @ name"

lemma read_line_shrinks:
  assumes "read_file_line d p lo w = Some (line, lo')"
  shows "(case files w p of None \<Rightarrow> 0 | Some c \<Rightarrow> length c - unat lo') <
     (case files w p of None \<Rightarrow> 0 | Some c \<Rightarrow> length c - unat lo)"
proof -
  obtain c where "open_read d p w = Some c" "unat lo < length c" "unat lo < unat lo'"
    using assms by (rule file_lines.read_progress) auto
  then show ?thesis by (auto simp: open_read_def split: option.splits if_splits)
qed

text \<open>
  The selection of whole lines that fit the allowance; the flag says that one
  line longer than the allowance was taken (A14).
\<close>

function select_lines ::
  "disk \<Rightarrow> path \<Rightarrow> u64 \<Rightarrow> bool \<Rightarrow> world \<Rightarrow> u64 \<Rightarrow> u64 \<Rightarrow> u64 \<times> bool" where
  "select_lines d p budget overrun w line_offset round_bytes =
     (if round_bytes < budget then
        (case read_file_line d p line_offset w of
           None \<Rightarrow> (round_bytes, False)
         | Some (line, line_offset') \<Rightarrow>
             (let line_size = of_nat (length line) in
              if round_bytes = 0 \<and> line_size > budget then
                (if overrun then (line_size, True) else (round_bytes, False))
              else if round_bytes + line_size > budget then (round_bytes, False)
              else select_lines d p budget overrun w line_offset' (round_bytes + line_size)))
      else (round_bytes, False))"
  by pat_completeness auto
termination
  by (relation "measure (\<lambda>(d, p, budget, overrun, w, lo, rb).
        case files w p of None \<Rightarrow> 0 | Some c \<Rightarrow> length c - unat lo)")
     (auto dest: read_line_shrinks)

datatype gather_result = Gathered bytes u64 u64 | Gather_error string

text \<open>Up to \<open>k\<close> lines appended to a packet, within the bytes of the round.\<close>

primrec gather_lines ::
  "nat \<Rightarrow> disk \<Rightarrow> path \<Rightarrow> world \<Rightarrow> bytes \<Rightarrow> u64 \<Rightarrow> u64 \<Rightarrow> gather_result" where
  "gather_lines 0 d p w packet line_offset remaining_round =
     Gathered packet line_offset remaining_round"
| "gather_lines (Suc k) d p w packet line_offset remaining_round =
     (if remaining_round > 0 then
        (case read_file_line d p line_offset w of
           None \<Rightarrow> Gather_error ''file read error''
         | Some (line, line_offset') \<Rightarrow>
             (let line_size = of_nat (length line) in
              if line_size > remaining_round then Gather_error ''packetization error''
              else gather_lines k d p w (packet @ line) line_offset'
                     (remaining_round - line_size)))
      else Gathered packet line_offset remaining_round)"

lemma gather_lines_le:
  "gather_lines k d p w packet lo rem = Gathered packet' lo' rem' \<Longrightarrow> rem' \<le> rem"
proof (induction k arbitrary: packet lo rem)
  case (Suc k)
  show ?case
  proof (cases "0 < rem \<and> read_file_line d p lo w \<noteq> None")
    case True
    with Suc.prems obtain line lo1 where le: "of_nat (length line) \<le> rem" and
      "gather_lines k d p w (packet @ line) lo1 (rem - of_nat (length line)) = Gathered packet' lo' rem'"
      by (auto simp: Let_def not_less split: if_splits)
    with Suc.IH have "rem' \<le> rem - of_nat (length line)" by blast
    also have "\<dots> \<le> rem" using le by (rule word_sub_le)
    finally show ?thesis .
  qed (use Suc.prems in \<open>auto split: if_splits option.splits\<close>)
qed simp

lemma gather_lines_less:
  assumes "gather_lines (Suc k) d p w packet lo rem = Gathered packet' lo' rem'" "0 < rem"
  shows "unat rem' < unat rem"
proof -
  obtain line lo1 where rd: "read_file_line d p lo w = Some (line, lo1)"
    and le: "of_nat (length line) \<le> rem"
    and rec: "gather_lines k d p w (packet @ line) lo1 (rem - of_nat (length line)) =
      Gathered packet' lo' rem'"
    using assms by (auto simp: Let_def not_less split: if_splits option.splits prod.splits)
  have "rem' \<le> rem - of_nat (length line)" using rec by (rule gather_lines_le)
  moreover have "unat (of_nat (length line) :: u64) = length line" "0 < length line"
    using file_lines.line_size_word [OF rd] by auto
  ultimately show ?thesis
    using le unfolding word_le_nat_alt unat_diff_u64 [OF le] by linarith
qed

text \<open>
  The packet loop. The number of lines per packet is \<open>k + 1\<close>: the caller has
  rejected a packetization below one.
\<close>

function send_packets ::
  "nat \<Rightarrow> int \<Rightarrow> disk \<Rightarrow> path \<Rightarrow> u64 \<Rightarrow> u64 \<Rightarrow> u64 \<Rightarrow> world \<Rightarrow> bool \<times> u64 \<times> world" where
  "send_packets k fd d p line_offset remaining_round bytes_processed w =
     (if remaining_round > 0 then
        (case gather_lines (Suc k) d p w [] line_offset remaining_round of
           Gather_error m \<Rightarrow> (False, bytes_processed, send_error fd m w)
         | Gathered packet line_offset' remaining_round' \<Rightarrow>
             (case send_all fd packet w of
                (False, w1) \<Rightarrow> (False, bytes_processed, w1)
              | (True, w1) \<Rightarrow>
                  send_packets k fd d p line_offset' remaining_round'
                    (bytes_processed + of_nat (length packet)) w1))
      else (True, bytes_processed, w))"
  by pat_completeness auto
termination
proof (relation "measure (\<lambda>(k, fd, d, p, lo, rem, n, w). unat rem)", goal_cases)
  case (2 k fd d p lo rem n w packet lo' rem' b w1)
  then have "unat rem' < unat rem" by (intro gather_lines_less) auto
  then show ?case by simp
qed simp

declare select_lines.simps [simp del] send_packets.simps [simp del]

text \<open>How many bytes this round transfers, and whether A14 applied.\<close>

definition choose_round ::
  "disk \<Rightarrow> path \<Rightarrow> u64 \<Rightarrow> bool \<Rightarrow> request \<Rightarrow> world \<Rightarrow> u64 \<times> bool" where
  "choose_round d filepath budget allow_long_line_overrun r w =
     (let remaining = total_bytes r - offset r in
      if budget \<ge> remaining then (remaining, False)
      else select_lines d filepath budget allow_long_line_overrun w (offset r) 0)"

text \<open>The transfer of the chosen bytes.\<close>

definition send_round ::
  "disk \<Rightarrow> path \<Rightarrow> int \<Rightarrow> u64 \<Rightarrow> request \<Rightarrow> world \<Rightarrow> bool \<times> u64 \<times> request \<times> world" where
  "send_round d filepath packetization round_bytes r w =
     (if round_bytes = 0 then (True, 0, r, w)
      else if open_read d filepath w = None then
        (False, 0, r, send_error (client_fd r) ''cannot open file'' w)
      else if 2 ^ 63 \<le> unat (offset r) then
        (False, 0, r, send_error (client_fd r) ''file seek error'' w)
      else
        (case send_packets (nat packetization - 1) (client_fd r) d filepath (offset r)
                round_bytes 0 w of
           (success, bytes_processed, w1) \<Rightarrow> (success, bytes_processed, r, w1)))"

definition serve_get ::
  "disk \<Rightarrow> path \<Rightarrow> u64 \<Rightarrow> bool \<Rightarrow> int \<Rightarrow> request \<Rightarrow> world \<Rightarrow> bool \<times> u64 \<times> request \<times> world" where
  "serve_get d file_dir budget allow_long_line_overrun packetization r w =
     (let fd = client_fd r; filepath = join_path file_dir (filename r) in
      if \<not> is_valid_filename (filename r) then
        (False, 0, r, send_error fd ''invalid filename'' w)
      else if \<not> file_exists filepath w then
        (False, 0, r, send_error fd ''file not found'' w)
      else
        (let file_size = total_bytes r;
             w1 = (if response_sent r then w else send_response fd file_size w);
             r1 = r\<lparr>response_sent := True\<rparr>
         in
         if offset r1 \<ge> file_size \<or> budget = 0 then (True, 0, r1, w1)
         else if packetization \<le> 0 then
           (False, 0, r1, send_error fd ''invalid packetization'' w1)
         else
           (case choose_round d filepath budget allow_long_line_overrun r1 w1 of
              (round_bytes, a14) \<Rightarrow>
                send_round d filepath packetization round_bytes
                  (if a14 then r1\<lparr>a14_events := a14_events r1 + 1\<rparr> else r1) w1)))"

section \<open>PUT\<close>

text \<open>
  The bytes that came with the header are written first. \<open>pos\<close> is the
  position of the output stream.
\<close>

function put_pending ::
  "disk \<Rightarrow> path \<Rightarrow> nat \<Rightarrow> u64 \<Rightarrow> u64 \<Rightarrow> request \<Rightarrow> world \<Rightarrow>
   bool \<times> nat \<times> u64 \<times> u64 \<times> request \<times> world" where
  "put_pending d p pos remaining_round bytes_processed r w =
     (if remaining_round > 0 \<and> pending_offset r < of_nat (length (pending_bytes r)) then
        (let available = of_nat (length (pending_bytes r)) - pending_offset r;
             chunk = min remaining_round available;
             data = take (unat chunk) (drop (unat (pending_offset r)) (pending_bytes r))
         in case stream_write d p pos data w of
              (False, w1) \<Rightarrow> (False, pos, remaining_round, bytes_processed, r, w1)
            | (True, w1) \<Rightarrow>
                put_pending d p (pos + length data) (remaining_round - chunk)
                  (bytes_processed + chunk) (r\<lparr>pending_offset := pending_offset r + chunk\<rparr>) w1)
      else (True, pos, remaining_round, bytes_processed, r, w))"
  by pat_completeness auto
termination
proof (relation "measure (\<lambda>(d, p, pos, rem, n, r, w). unat rem)", goal_cases)
  case (2 d p pos rem n r w av chunk data b w1)
  then have "chunk \<noteq> 0" "chunk \<le> rem"
    by (auto simp: min_def word_gt_0)
  then have "unat (rem - chunk) < unat rem"
    by (metis diff_less unat_diff_u64 unat_gt_0 word_le_nat_alt order_less_le_trans)
  then show ?case by simp
qed simp

function put_receive ::
  "disk \<Rightarrow> path \<Rightarrow> int \<Rightarrow> u64 \<Rightarrow> nat \<Rightarrow> u64 \<Rightarrow> u64 \<Rightarrow> world \<Rightarrow> bool \<times> u64 \<times> world" where
  "put_receive d p fd bufsize pos remaining_round bytes_processed w =
     (if remaining_round > 0 then
        (let chunk = min bufsize remaining_round in
         case recv_data_with_timeout fd (unat chunk) 5000 w of
           (None, w1) \<Rightarrow> (False, bytes_processed, send_error fd ''receive error'' w1)
         | (Some received, w1) \<Rightarrow>
             if received = [] then
               (False, bytes_processed, send_error fd ''incomplete upload'' w1)
             else
               (case stream_write d p pos received w1 of
                  (False, w2) \<Rightarrow> (False, bytes_processed, send_error fd ''file write error'' w2)
                | (True, w2) \<Rightarrow>
                    put_receive d p fd bufsize (pos + length received)
                      (remaining_round - of_nat (length received))
                      (bytes_processed + of_nat (length received)) w2))
      else (True, bytes_processed, w))"
  by pat_completeness auto
termination
proof (relation "measure (\<lambda>(d, p, fd, bufsize, pos, rem, n, w). unat rem)", goal_cases)
  case (2 d p fd bufsize pos rem n w chunk res w1 received b w2)
  then have len: "length received \<le> unat rem" "received \<noteq> []"
    using recv_data_length [of fd "unat chunk" 5000 w received w1]
    by (auto simp: unat_simps)
  then have u: "unat (of_nat (length received) :: u64) = length received"
    using unat_lt_u64 [of rem] by (intro unat_of_nat_u64) simp
  with len have "(of_nat (length received) :: u64) \<le> rem" by (simp add: word_le_nat_alt)
  with u len have "unat (rem - of_nat (length received)) < unat rem"
    by (simp add: unat_diff_u64) (metis diff_less length_greater_0_conv less_le_trans)
  then show ?case by simp
qed simp

declare put_pending.simps [simp del] put_receive.simps [simp del]

definition staging_name :: "request \<Rightarrow> string" where
  "staging_name r = filename r @ ''.upload.'' @ show_int (sint (request_id r))"

text \<open>With the staging file open at the offset: the two loops in sequence.\<close>

definition put_transfer ::
  "disk \<Rightarrow> path \<Rightarrow> u64 \<Rightarrow> request \<Rightarrow> world \<Rightarrow> bool \<times> u64 \<times> request \<times> world" where
  "put_transfer d p to_receive r w =
     (let fd = client_fd r; bufsize = min 8192 to_receive in
      case put_pending d p (unat (offset r)) to_receive 0 r w of
        (False, pos, rem, n, r2, w2) \<Rightarrow> (False, n, r2, send_error fd ''file write error'' w2)
      | (True, pos, rem, n, r2, w2) \<Rightarrow>
          (case put_receive d p fd bufsize pos rem n w2 of
             (success, bytes_processed, w3) \<Rightarrow> (success, bytes_processed, r2, w3)))"

text \<open>The name of the staging file is fixed in the first round.\<close>

definition staged :: "request \<Rightarrow> request" where
  "staged r = (if offset r = 0 then r\<lparr>staging_filename := staging_name r\<rparr> else r)"

definition serve_put ::
  "disk \<Rightarrow> path \<Rightarrow> u64 \<Rightarrow> request \<Rightarrow> world \<Rightarrow> bool \<times> u64 \<times> request \<times> world" where
  "serve_put d file_dir budget r w =
     (let fd = client_fd r in
      if \<not> is_valid_filename (filename r) then
        (False, 0, r, send_error fd ''invalid filename'' w)
      else
        (let r1 = staged r;
             staging_path = join_path file_dir (staging_filename r1)
         in
         if total_bytes r1 = 0 then
           (case open_trunc d staging_path w of (created, w1) \<Rightarrow> (created, 0, r1, w1))
         else
           (case (if offset r1 = 0 then open_trunc d staging_path w else (True, w)) of
              (False, w1) \<Rightarrow> (False, 0, r1, send_error fd ''cannot create file'' w1)
            | (True, w1) \<Rightarrow>
                if \<not> open_update d staging_path w1 then
                  (False, 0, r1, send_error fd ''cannot open file'' w1)
                else if 2 ^ 63 \<le> unat (offset r1) then
                  (False, 0, r1, send_error fd ''file seek error'' w1)
                else
                  put_transfer d staging_path (min budget (total_bytes r1 - offset r1)) r1 w1)))"

end
