(* ===== verification/Scheduling.thy ===== *)
theory Scheduling
  imports Request_Queue "HOL-Library.Product_Lexorder"
begin

text \<open>
  \<^verbatim>\<open>scheduling.cpp\<close>: the four policies, how they pick the next request, the
  byte budget they grant and the accounting after a round. The locale
  \<open>service_discipline\<close> is the contract between a policy and the worker that
  spends its budgets; it is interpreted for the scheduler's own budget and
  accounting functions.
\<close>

section \<open>Definitions\<close>

datatype scheduling_policy = FCFS | SJF | RR | DRR

record scheduler =
  policy :: scheduling_policy
  quantum :: u64

text \<open>The constructor; \<^const>\<open>Inl\<close> is the exception.\<close>

definition make_scheduler :: "scheduling_policy \<Rightarrow> u64 \<Rightarrow> string + scheduler" where
  "make_scheduler p q =
     (if (p = RR \<or> p = DRR) \<and> q = 0 then Inl ''RR/DRR requires a non-zero quantum''
      else Inr \<lparr>policy = p, quantum = q\<rparr>)"

text \<open>The comparison \<^verbatim>\<open>next\<close> passes to \<^verbatim>\<open>wait_pop_best\<close> under SJF.\<close>

definition sjf_before :: "request \<Rightarrow> request \<Rightarrow> bool" where
  "sjf_before a b =
     (if total_bytes a \<noteq> total_bytes b then total_bytes a < total_bytes b
      else arrival_ns a < arrival_ns b)"

definition remaining_bytes :: "request \<Rightarrow> u64" where
  "remaining_bytes r =
     (if total_bytes r > offset r then total_bytes r - offset r else 0)"

definition get_budget :: "scheduler \<Rightarrow> request \<Rightarrow> u64 \<times> request" where
  "get_budget s r =
     (let remaining = remaining_bytes r in
      if remaining = 0 then (0, r)
      else case policy s of
        FCFS \<Rightarrow> (remaining, r)
      | SJF \<Rightarrow> (remaining, r)
      | RR \<Rightarrow> (min remaining (quantum s), r)
      | DRR \<Rightarrow> (let r' = r\<lparr>deficit := deficit r + quantum s\<rparr>
                in (min remaining (deficit r'), r')))"

text \<open>
  \<^verbatim>\<open>next\<close>: a decision is the request with its budget; \<open>Blocked\<close> and
  \<open>Drained\<close> are those of the pop, the latter being \<^verbatim>\<open>valid = false\<close>.
\<close>

definition policy_pop :: "scheduling_policy \<Rightarrow> request_queue \<Rightarrow> (request, request_queue) pop_result" where
  "policy_pop p = (case p of
      FCFS \<Rightarrow> wait_pop
    | SJF \<Rightarrow> wait_pop_best sjf_before
    | RR \<Rightarrow> wait_pop
    | DRR \<Rightarrow> wait_pop)"

definition scheduler_next ::
  "scheduler \<Rightarrow> request_queue \<Rightarrow> (request \<times> u64, request_queue) pop_result" where
  "scheduler_next s q =
     (case policy_pop (policy s) q of
        Blocked \<Rightarrow> Blocked
      | Drained \<Rightarrow> Drained
      | Popped r q' \<Rightarrow> (case get_budget s r of (budget, r') \<Rightarrow> Popped (r', budget) q'))"

definition account :: "scheduler \<Rightarrow> u64 \<Rightarrow> request \<Rightarrow> request" where
  "account s bytes_processed r =
     (let r1 = r\<lparr>rounds := rounds r + 1\<rparr>;
          actual = min bytes_processed (remaining_bytes r1);
          r2 = r1\<lparr>offset := offset r1 + actual\<rparr>
      in if policy s = DRR then
           (if actual \<ge> deficit r2 then r2\<lparr>deficit := 0\<rparr>
            else r2\<lparr>deficit := deficit r2 - actual\<rparr>)
         else r2)"

definition should_requeue :: "request \<Rightarrow> bool" where
  "should_requeue r \<longleftrightarrow> remaining_bytes r > 0"

section \<open>Budgets and accounting in natural numbers\<close>

text \<open>What is left to transfer.\<close>

definition left :: "request \<Rightarrow> nat" where
  "left r = unat (total_bytes r) - unat (offset r)"

lemma unat_remaining: "unat (remaining_bytes r) = left r"
  by (auto simp: remaining_bytes_def left_def unat_sub word_order)

lemma remaining_zero: "remaining_bytes r = 0 \<longleftrightarrow> left r = 0"
  by (simp add: unat_eq_0 flip: unat_remaining)

lemma should_requeue_left: "should_requeue r \<longleftrightarrow> 0 < left r"
  by (simp add: should_requeue_def word_less_nat_alt unat_remaining)

lemma get_budget_frame [simp]:
  "offset (snd (get_budget s r)) = offset r" "total_bytes (snd (get_budget s r)) = total_bytes r"
  "rounds (snd (get_budget s r)) = rounds r" "left (snd (get_budget s r)) = left r"
  by (simp_all add: get_budget_def Let_def left_def split: scheduling_policy.splits)

lemma get_budget_only_deficit:
  "snd (get_budget s r) = r\<lparr>deficit := deficit (snd (get_budget s r))\<rparr>"
  by (simp add: get_budget_def Let_def split: scheduling_policy.splits)

lemma get_budget_le: "unat (fst (get_budget s r)) \<le> left r"
  by (auto simp: get_budget_def Let_def unat_simps unat_remaining split: scheduling_policy.splits)

lemma account_offset: "unat (offset (account s b r)) = unat (offset r) + min (unat b) (left r)"
proof -
  have "unat (offset r) + min (unat b) (left r) \<le> max (unat (offset r)) (unat (total_bytes r))"
    by (auto simp: left_def)
  then have lt: "unat (offset r) + min (unat b) (left r) < 2 ^ 64"
    using unat_lt_u64 [of "offset r"] unat_lt_u64 [of "total_bytes r"] by linarith
  have rem: "remaining_bytes (r\<lparr>rounds := x\<rparr>) = remaining_bytes r" for x
    by (simp add: remaining_bytes_def)
  have "offset (account s b r) = offset r + min b (remaining_bytes r)"
    by (simp add: account_def Let_def rem)
  then show ?thesis
    using lt by (simp add: unat_add_u64 unat_min_u64 unat_remaining)
qed

lemma account_frame [simp]:
  "total_bytes (account s b r) = total_bytes r" "rounds (account s b r) = rounds r + 1"
  "op (account s b r) = op r" "filename (account s b r) = filename r"
  "request_id (account s b r) = request_id r" "client_fd (account s b r) = client_fd r"
  "staging_filename (account s b r) = staging_filename r"
  "pending_bytes (account s b r) = pending_bytes r"
  "pending_offset (account s b r) = pending_offset r"
  "response_sent (account s b r) = response_sent r"
  "arrival_ns (account s b r) = arrival_ns r" "start_ns (account s b r) = start_ns r"
  by (simp_all add: account_def Let_def)

lemma account_left: "left (account s b r) = left r - unat b"
  using account_offset [of s b r] by (simp add: left_def)


text \<open>One round: the budget is granted, \<open>b\<close> bytes are transferred and accounted for.\<close>

definition service_round :: "scheduler \<Rightarrow> u64 \<Rightarrow> request \<Rightarrow> request" where
  "service_round s b r = account s b (snd (get_budget s r))"

text \<open>The grant does not wrap around: the deficit counter stays inside 64 bits.\<close>

definition grant_fits :: "scheduler \<Rightarrow> request \<Rightarrow> bool" where
  "grant_fits s r \<longleftrightarrow> (policy s \<in> {RR, DRR} \<longrightarrow> 0 < quantum s) \<and>
     (policy s = DRR \<longrightarrow> unat (deficit r) + unat (quantum s) < 2 ^ 64)"

lemma get_budget_pos: "grant_fits s r \<Longrightarrow> 0 < left r \<Longrightarrow> 0 < unat (fst (get_budget s r))"
  by (cases "policy s")
     (auto simp: get_budget_def Let_def remaining_zero unat_simps unat_remaining grant_fits_def
        word_less_nat_alt)

lemma service_round_left: "left (service_round s b r) = left r - unat b"
  by (simp add: service_round_def account_left)

lemma drr_round_deficit:
  assumes "policy s = DRR" "grant_fits s r" "0 < left r" "b \<le> fst (get_budget s r)"
  shows "unat (deficit (service_round s b r)) + unat b = unat (deficit r) + unat (quantum s)"
proof -
  let ?r = "r\<lparr>deficit := deficit r + quantum s\<rparr>"
  have d: "unat (deficit ?r) = unat (deficit r) + unat (quantum s)"
    using assms(1,2) by (simp add: grant_fits_def unat_add_u64)
  have g: "get_budget s r = (min (remaining_bytes r) (deficit ?r), ?r)"
    using assms(1,3) by (simp add: get_budget_def remaining_zero)
  have rem: "remaining_bytes (?r\<lparr>rounds := x\<rparr>) = remaining_bytes r" for x
    by (simp add: remaining_bytes_def)
  have b: "b \<le> remaining_bytes r" "b \<le> deficit ?r" using assms(4) g by auto
  then have "deficit (service_round s b r) = deficit ?r - b"
    using assms(1) g rem by (simp add: service_round_def account_def Let_def min_absorb1)
  then have "unat (deficit (service_round s b r)) = unat (deficit ?r) - unat b"
    using b(2) by (simp only: unat_diff_u64)
  with b(2) d show ?thesis by (simp add: word_le_nat_alt)
qed

section \<open>The contract of a service discipline\<close>

locale service_discipline =
  fixes budget :: "'r \<Rightarrow> nat"
    and serve :: "nat \<Rightarrow> 'r \<Rightarrow> 'r"
    and work :: "'r \<Rightarrow> nat"
    and sound :: "'r \<Rightarrow> bool"
  assumes budget_le: "budget r \<le> work r"
    and budget_pos: "sound r \<Longrightarrow> 0 < work r \<Longrightarrow> 0 < budget r"
    and serve_work: "b \<le> budget r \<Longrightarrow> work (serve b r) = work r - b"
    and serve_sound: "sound r \<Longrightarrow> 0 < work r \<Longrightarrow> sound (serve (budget r) r) \<or> work (serve (budget r) r) = 0"
begin

text \<open>Serving every budget in full finishes the work in at most \<open>work r\<close> rounds.\<close>

lemma full_service_finishes:
  "sound r \<Longrightarrow> \<exists>k \<le> work r. work (((\<lambda>r. serve (budget r) r) ^^ k) r) = 0"
proof (induction "work r" arbitrary: r rule: less_induct)
  case less
  show ?case
  proof (cases "work r = 0")
    case False
    let ?r = "serve (budget r) r"
    have w: "work ?r = work r - budget r" "0 < budget r"
      using False less.prems by (auto simp: serve_work budget_pos)
    show ?thesis
    proof (cases "work ?r = 0")
      case True
      then show ?thesis using False by (intro exI [of _ 1]) simp
    next
      case nz: False
      then have "sound ?r" using serve_sound [OF less.prems] False by simp
      moreover have lt: "work ?r < work r" using w False by linarith
      ultimately obtain k where k: "k \<le> work ?r" "work (((\<lambda>r. serve (budget r) r) ^^ k) ?r) = 0"
        using less.hyps by blast
      have "((\<lambda>r. serve (budget r) r) ^^ Suc k) r = ((\<lambda>r. serve (budget r) r) ^^ k) ?r"
        by (simp only: funpow_Suc_right comp_apply)
      then show ?thesis using k lt by (intro exI [of _ "Suc k"]) (simp only: Suc_leI le_less_trans)
    qed
  qed auto
qed

end

lemma grant_fits_full:
  assumes "grant_fits s r" "0 < left r"
  shows "grant_fits s (service_round s (fst (get_budget s r)) r) \<or>
     left (service_round s (fst (get_budget s r)) r) = 0"
proof (cases "policy s = DRR \<and> unat (fst (get_budget s r)) < left r")
  case True
  then have g: "unat (fst (get_budget s r)) = unat (deficit r) + unat (quantum s)"
    using assms by (auto simp: get_budget_def Let_def remaining_zero unat_simps unat_remaining
        grant_fits_def min_def split: if_splits)
  with drr_round_deficit [of s r "fst (get_budget s r)"] True assms
  have "unat (deficit (service_round s (fst (get_budget s r)) r)) = 0" by simp
  with assms(1) show ?thesis using unat_lt_u64 [of "quantum s"] by (simp add: grant_fits_def)
next
  case False
  then show ?thesis
    using assms(1) get_budget_le [of s r] by (auto simp: grant_fits_def service_round_left)
qed

interpretation discipline: service_discipline
  "\<lambda>r. unat (fst (get_budget s r))" "\<lambda>b. service_round s (of_nat b)" left "grant_fits s" for s
proof unfold_locales
  fix r b
  assume "b \<le> unat (fst (get_budget s r))"
  then have "unat (of_nat b :: u64) = b"
    using unat_lt_u64 [of "fst (get_budget s r)"] by (intro unat_of_nat_u64) simp
  then show "left (service_round s (of_nat b) r) = left r - b" by (simp add: service_round_left)
qed (auto simp: get_budget_le get_budget_pos dest: grant_fits_full)

interpretation sched: request_pool push "policy_pop p" requeue complete close_queue
    q_waiting q_inflight q_closed for p
proof (cases p)
qed (simp_all add: policy_pop_def fifo.request_pool_axioms best.request_pool_axioms)


section \<open>Sequences of rounds\<close>

primrec service_rounds :: "scheduler \<Rightarrow> u64 list \<Rightarrow> request \<Rightarrow> request" where
  "service_rounds s [] r = r"
| "service_rounds s (b # bs) r = service_rounds s bs (service_round s b r)"

text \<open>Every round finds work to do and transfers no more than its budget.\<close>

primrec within_budgets :: "scheduler \<Rightarrow> u64 list \<Rightarrow> request \<Rightarrow> bool" where
  "within_budgets s [] r \<longleftrightarrow> True"
| "within_budgets s (b # bs) r \<longleftrightarrow> 0 < left r \<and> grant_fits s r \<and> b \<le> fst (get_budget s r) \<and>
     within_budgets s bs (service_round s b r)"

lemma service_round_offset:
  "b \<le> fst (get_budget s r) \<Longrightarrow> unat (offset (service_round s b r)) = unat (offset r) + unat b"
  using get_budget_le [of s r] by (simp add: service_round_def account_offset word_le_nat_alt min_def)

lemma drr_rounds_ledger:
  "policy s = DRR \<Longrightarrow> within_budgets s bs r \<Longrightarrow>
   unat (offset (service_rounds s bs r)) + unat (deficit (service_rounds s bs r)) =
   unat (offset r) + unat (deficit r) + length bs * unat (quantum s)"
proof (induction bs arbitrary: r)
  case (Cons b bs)
  from Cons.IH [OF Cons.prems(1), of "service_round s b r"] Cons.prems
    drr_round_deficit [of s r b] service_round_offset [of b s r]
  show ?case by simp
qed simp

lemma sjf_before_key:
  "sjf_before = (\<lambda>a b. (total_bytes a, arrival_ns a) < (total_bytes b, arrival_ns b))"
  by (auto simp: sjf_before_def fun_eq_iff)

lemma scheduler_next_serves:
  "q_items q \<noteq> [] \<Longrightarrow> \<exists>r b q'. scheduler_next s q = Popped (r, b) q'"
  using sched.pop_serves [of "policy s" q]
  by (auto simp: scheduler_next_def q_waiting_def split: prod.splits)

section \<open>Properties\<close>

text \<open>
  C17. Under SJF the scheduler hands out a request with the smallest declared
  byte count, among those the one that arrived first, among those the one
  longest in the queue; the other requests keep their order.
\<close>

theorem sjf_picks_shortest:
  assumes "policy s = SJF" and "scheduler_next s q = Popped (r, budget) q'"
  shows "\<exists>i < length (q_items q). r = q_items q ! i \<and>
      q_items q' = take i (q_items q) @ drop (Suc i) (q_items q) \<and>
      (\<forall>j < length (q_items q). (total_bytes r, arrival_ns r) \<le>
         (total_bytes (q_items q ! j), arrival_ns (q_items q ! j))) \<and>
      (\<forall>j < i. (total_bytes r, arrival_ns r) <
         (total_bytes (q_items q ! j), arrival_ns (q_items q ! j)))"
proof -
  let ?key = "\<lambda>r. (total_bytes r, arrival_ns r)" and ?xs = "q_items q"
  let ?i = "best_loop (\<lambda>a b. ?key a < ?key b) ?xs 0 1"
  have ne: "?xs \<noteq> []" and r: "r = snd (get_budget s (?xs ! ?i))"
    and q': "q_items q' = take ?i ?xs @ drop (Suc ?i) ?xs"
    using assms by (auto simp: scheduler_next_def policy_pop_def wait_pop_best_def Let_def
        sjf_before_key split: if_splits prod.splits pop_result.splits)
  then have "r = ?xs ! ?i"
    using assms(1) by (simp add: get_budget_def Let_def)
  moreover have "?i < length ?xs \<and> (\<forall>j < length ?xs. ?key (?xs ! ?i) \<le> ?key (?xs ! j)) \<and>
     (\<forall>j < ?i. ?key (?xs ! ?i) < ?key (?xs ! j))"
    using ne by (intro best_loop_min) (auto simp: Suc_leI)
  ultimately show ?thesis using q' by (intro exI [of _ ?i]) simp
qed

definition demo_request :: "i32 \<Rightarrow> u64 \<Rightarrow> request" where
  "demo_request i n = new_request\<lparr>request_id := i, total_bytes := n, arrival_ns := of_nat (unat i)\<rparr>"

theorem sjf_picks_shortest_witness:
  "\<exists>r b q'. scheduler_next \<lparr>policy = SJF, quantum = 0\<rparr>
       \<lparr>q_items = [demo_request 1 50, demo_request 2 10, demo_request 3 10], q_closed = False,
        q_inflight = 0\<rparr> = Popped (r, b) q' \<and>
     (total_bytes r, arrival_ns r) \<le> (total_bytes (demo_request 3 10), arrival_ns (demo_request 3 10))"
proof -
  let ?s = "\<lparr>policy = SJF, quantum = 0\<rparr>"
  let ?q = "\<lparr>q_items = [demo_request 1 50, demo_request 2 10, demo_request 3 10], q_closed = False,
      q_inflight = 0\<rparr>"
  obtain r b q' where x: "scheduler_next ?s ?q = Popped (r, b) q'"
    using scheduler_next_serves [of ?q ?s] by auto
  have "policy ?s = SJF" by simp
  from sjf_picks_shortest [OF this x] have
    "\<forall>j < length (q_items ?q). (total_bytes r, arrival_ns r) \<le>
       (total_bytes (q_items ?q ! j), arrival_ns (q_items ?q ! j))" by blast
  then have "2 < length (q_items ?q) \<longrightarrow> (total_bytes r, arrival_ns r) \<le>
       (total_bytes (q_items ?q ! 2), arrival_ns (q_items ?q ! 2))" by blast
  with x show ?thesis by auto
qed

text \<open>
  C29. The budget never exceeds what is left of the transfer. FCFS and SJF grant
  all of it; RR grants at most the quantum; and as long as the deficit counter
  does not wrap around, every policy grants a positive budget to a request that
  is not finished, so no request is scheduled in vain.
\<close>

theorem get_budget_bounds:
  "unat (fst (get_budget s r)) \<le> left r \<and>
   (policy s \<in> {FCFS, SJF} \<longrightarrow> unat (fst (get_budget s r)) = left r) \<and>
   (policy s = RR \<longrightarrow> unat (fst (get_budget s r)) \<le> unat (quantum s)) \<and>
   (grant_fits s r \<and> 0 < left r \<longrightarrow> 0 < unat (fst (get_budget s r)))"
proof (intro conjI impI)
  show "unat (fst (get_budget s r)) = left r" if "policy s \<in> {FCFS, SJF}"
    using that unat_remaining [of r] remaining_zero [of r]
    by (auto simp: get_budget_def Let_def)
  show "unat (fst (get_budget s r)) \<le> unat (quantum s)" if "policy s = RR"
    using that by (auto simp: get_budget_def Let_def unat_simps)
qed (simp_all add: get_budget_le get_budget_pos)

theorem get_budget_bounds_witness:
  "unat (fst (get_budget \<lparr>policy = RR, quantum = 4096\<rparr> (demo_request 1 10000))) \<le> 4096 \<and>
   0 < unat (fst (get_budget \<lparr>policy = RR, quantum = 4096\<rparr> (demo_request 1 10000)))"
proof -
  let ?s = "\<lparr>policy = RR, quantum = 4096\<rparr>" and ?r = "demo_request 1 10000"
  have "policy ?s = RR" "grant_fits ?s ?r" "0 < left ?r"
    by (simp_all add: grant_fits_def demo_request_def new_request_def left_def)
  with get_budget_bounds [of ?s ?r] show ?thesis by simp
qed

text \<open>
  Accounting for a round moves the offset forward by the bytes transferred,
  never past the declared total, counts the round, and asks for a requeue
  exactly when something is left.
\<close>

theorem account_advances:
  "unat (offset (account s b r)) = unat (offset r) + min (unat b) (left r) \<and>
   (unat (offset r) \<le> unat (total_bytes r) \<longrightarrow>
      unat (offset (account s b r)) \<le> unat (total_bytes (account s b r))) \<and>
   rounds (account s b r) = rounds r + 1 \<and>
   (should_requeue (account s b r) \<longleftrightarrow> unat b < left r)"
  using account_offset [of s b r] by (auto simp: should_requeue_left account_left left_def)

theorem account_advances_witness:
  "unat (offset (account \<lparr>policy = RR, quantum = 4096\<rparr> 4000 (demo_request 1 10000))) \<le> 10000"
proof -
  have "unat (offset (demo_request 1 10000)) \<le> unat (total_bytes (demo_request 1 10000))"
    by (simp add: demo_request_def new_request_def)
  with account_advances [of "\<lparr>policy = RR, quantum = 4096\<rparr>" 4000 "demo_request 1 10000"]
  show ?thesis by (simp add: demo_request_def)
qed

text \<open>
  C10. The DRR ledger: over any sequence of rounds in which a request still has
  work and each round transfers no more than its budget, the bytes transferred
  plus the deficit carried over grow by exactly one quantum per round. Unused
  allowance is neither lost nor created, so two backlogged requests receive the
  same service up to their current deficits.
\<close>

theorem drr_ledger:
  assumes "policy s = DRR" and "within_budgets s bs r"
  shows "unat (offset (service_rounds s bs r)) + unat (deficit (service_rounds s bs r)) =
    unat (offset r) + unat (deficit r) + length bs * unat (quantum s)"
  using assms by (rule drr_rounds_ledger)

theorem drr_ledger_witness:
  "within_budgets \<lparr>policy = DRR, quantum = 100\<rparr> [0, 150] (demo_request 1 1000) \<and>
   unat (offset (service_rounds \<lparr>policy = DRR, quantum = 100\<rparr> [0, 150] (demo_request 1 1000))) +
   unat (deficit (service_rounds \<lparr>policy = DRR, quantum = 100\<rparr> [0, 150] (demo_request 1 1000))) = 200"
proof -
  let ?s = "\<lparr>policy = DRR, quantum = 100\<rparr>" and ?r = "demo_request 1 1000"
  have w: "within_budgets ?s [0, 150] ?r"
    by (simp add: demo_request_def new_request_def left_def grant_fits_def get_budget_def
        remaining_bytes_def service_round_def account_def Let_def min_def)
  have p: "policy ?s = DRR" by simp
  show ?thesis using drr_ledger [OF p w] w by (simp add: demo_request_def new_request_def)
qed

text \<open>
  When every round transfers its whole budget, as an upload does, each of the
  four policies finishes the request after finitely many rounds, at most one per
  byte left.
\<close>

theorem full_budgets_finish:
  assumes "grant_fits s r"
  shows "\<exists>k \<le> left r. left (((\<lambda>r. service_round s (fst (get_budget s r)) r) ^^ k) r) = 0"
  using discipline.full_service_finishes [OF assms] by simp

theorem full_budgets_finish_witness:
  "\<exists>k \<le> 1000. left (((\<lambda>r. service_round \<lparr>policy = RR, quantum = 100\<rparr>
     (fst (get_budget \<lparr>policy = RR, quantum = 100\<rparr> r)) r) ^^ k) (demo_request 1 1000)) = 0"
proof -
  have "grant_fits \<lparr>policy = RR, quantum = 100\<rparr> (demo_request 1 1000)"
    by (simp add: grant_fits_def)
  moreover have "left (demo_request 1 1000) = 1000"
    by (simp add: left_def demo_request_def new_request_def)
  ultimately show ?thesis
    using full_budgets_finish [of "\<lparr>policy = RR, quantum = 100\<rparr>" "demo_request 1 1000"] by simp
qed

end
