(* ===== verification/Metrics.thy ===== *)
theory Metrics
  imports Complex_Main Request_Queue Os_Model "HOL-Library.Log_Nat"
begin

text \<open>
  \<^verbatim>\<open>metrics.cpp\<close>: the record of completed requests, the CSV file and the
  aggregate summary. Values of type \<^verbatim>\<open>double\<close> are rational numbers, and each
  floating-point operation of the source is the exact operation followed by
  rounding to the nearest number with a 53-bit significand, ties to even.
\<close>

section \<open>Double precision\<close>

definition round_half_even :: "rat \<Rightarrow> int" where
  "round_half_even x =
     (let f = \<lfloor>x\<rfloor>; rest = x - of_int f in
      if rest < 1/2 then f else if 1/2 < rest then f + 1 else if even f then f else f + 1)"

text \<open>The binary exponent: \<open>2 ^ e \<le> x < 2 ^ (e + 1)\<close> for positive \<open>x\<close>.\<close>

definition binary_exponent :: "rat \<Rightarrow> int" where
  "binary_exponent x =
     (let (p, q) = quotient_of x; k = bitlen p - bitlen q
      in if 2 powi k \<le> x then k else k - 1)"

definition double_round :: "rat \<Rightarrow> rat" where
  "double_round x =
     (if x = 0 then 0
      else (let ulp = 2 powi (binary_exponent \<bar>x\<bar> - 52)
            in of_int (round_half_even (x / ulp)) * ulp))"

section \<open>Records\<close>

record request_metrics =
  m_request_id :: i32
  m_op :: operation
  m_filename :: string
  m_total_bytes :: u64
  m_arrival_ns :: u64
  m_start_ns :: u64
  m_finish_ns :: u64
  m_rounds :: u64
  m_forfeited_bytes :: u64
  m_a14_events :: u64

definition metrics_of :: "request \<Rightarrow> request_metrics" where
  "metrics_of r = \<lparr>m_request_id = request_id r, m_op = op r, m_filename = filename r,
     m_total_bytes = total_bytes r, m_arrival_ns = arrival_ns r, m_start_ns = start_ns r,
     m_finish_ns = finish_ns r, m_rounds = rounds r, m_forfeited_bytes = forfeited_bytes r,
     m_a14_events = a14_events r\<rparr>"

definition metrics_record :: "request \<Rightarrow> request_metrics list \<Rightarrow> request_metrics list" where
  "metrics_record r records = records @ [metrics_of r]"

definition completed_requests :: "request_metrics list \<Rightarrow> nat" where
  "completed_requests records = length records"

definition snapshot :: "request_metrics list \<Rightarrow> request_metrics list" where
  "snapshot records = records"

section \<open>The CSV file\<close>

definition csv_header :: string where
  "csv_header = ''request_id,op,filename,bytes,rounds,'' @
     ''forfeited_bytes,arrival_ns,start_ns,finish_ns'' @ [newline]"

definition op_name :: "operation \<Rightarrow> string" where
  "op_name x = (if x = GET then ''GET'' else if x = PUT then ''PUT'' else ''UNKNOWN'')"

definition csv_row :: "request_metrics \<Rightarrow> string" where
  "csv_row row =
     show_int (sint (m_request_id row)) @ '','' @
     op_name (m_op row) @ '','' @
     m_filename row @ '','' @
     to_string (m_total_bytes row) @ '','' @
     to_string (m_rounds row) @ '','' @
     to_string (m_forfeited_bytes row) @ '','' @
     to_string (m_arrival_ns row) @ '','' @
     to_string (m_start_ns row) @ '','' @
     to_string (m_finish_ns row) @ [newline]"

text \<open>
  \<^verbatim>\<open>std::sort\<close> by the request number. The numbers are distinct, so every sort
  gives this list.
\<close>

definition csv_text :: "request_metrics list \<Rightarrow> string" where
  "csv_text records =
     csv_header @ concat (map csv_row (sort_key (\<lambda>row. sint (m_request_id row)) (snapshot records)))"

definition write_csv :: "disk \<Rightarrow> path \<Rightarrow> request_metrics list \<Rightarrow> world \<Rightarrow> bool \<times> world" where
  "write_csv d p records w =
     (case open_trunc d p w of
        (False, w1) \<Rightarrow> (False, w1)
      | (True, w1) \<Rightarrow> stream_write d p 0 (csv_text records) w1)"

section \<open>The summary\<close>

definition nearest_rank :: "u64 list \<Rightarrow> rat \<Rightarrow> u64" where
  "nearest_rank values percentile =
     (if values = [] then 0
      else
        (let sorted_values = sort values;
             n = length sorted_values;
             ratio = double_round (percentile / 100);
             rank = nat \<lceil>double_round (ratio * double_round (of_nat n))\<rceil>;
             index = (if rank = 0 then 2 ^ 64 - 1 else rank - 1)
         in sorted_values ! min index (n - 1)))"

record summary =
  s_completed :: nat
  s_waiting_p50 :: u64
  s_waiting_p99 :: u64
  s_response_p50 :: u64
  s_response_p99 :: u64
  s_throughput :: rat
  s_a14_events :: u64
  s_forfeited_bytes :: u64

definition waiting_ns :: "request_metrics \<Rightarrow> u64" where
  "waiting_ns row =
     (if m_start_ns row \<ge> m_arrival_ns row then m_start_ns row - m_arrival_ns row else 0)"

definition response_ns :: "request_metrics \<Rightarrow> u64" where
  "response_ns row =
     (if m_finish_ns row \<ge> m_arrival_ns row then m_finish_ns row - m_arrival_ns row else 0)"

text \<open>What \<^verbatim>\<open>print_summary\<close> prints; with no completed request only their number.\<close>

definition print_summary :: "request_metrics list \<Rightarrow> nat \<times> summary option" where
  "print_summary records =
     (let rows = snapshot records in
      case rows of
        [] \<Rightarrow> (0, None)
      | first # _ \<Rightarrow>
          (let min_arrival = foldl (\<lambda>m row. min m (m_arrival_ns row)) (m_arrival_ns first) rows;
               max_finish = foldl (\<lambda>m row. max m (m_finish_ns row)) (m_finish_ns first) rows;
               a14 = foldl (\<lambda>s row. s + m_a14_events row) 0 rows;
               forfeited = foldl (\<lambda>s row. s + m_forfeited_bytes row) 0 rows;
               waiting = map waiting_ns rows;
               response = map response_ns rows;
               window_s = double_round (double_round (of_nat (unat (max_finish - min_arrival))) / 1000000000);
               throughput = (if 0 < window_s
                             then double_round (double_round (of_nat (length rows)) / window_s) else 0)
           in (length rows,
               Some \<lparr>s_completed = length rows,
                     s_waiting_p50 = nearest_rank waiting 50, s_waiting_p99 = nearest_rank waiting 99,
                     s_response_p50 = nearest_rank response 50, s_response_p99 = nearest_rank response 99,
                     s_throughput = throughput, s_a14_events = a14, s_forfeited_bytes = forfeited\<rparr>)))"

section \<open>Properties\<close>


definition demo_metrics :: "i32 \<Rightarrow> request_metrics" where
  "demo_metrics i = metrics_of (new_request\<lparr>request_id := i, filename := ''a''\<rparr>)"


end
