(* ===== verification/Worker.thy ===== *)
theory Worker
  imports Serve Scheduling Metrics
begin

text \<open>
  The threads of \<^verbatim>\<open>main.cpp\<close>: what a parser does with one accepted connection
  and what a worker does with one scheduling decision. A worker's iteration has
  two parts, the work on the request (\<open>worker_process\<close>) and the return of
  the request to the queue (\<open>worker_finish\<close>), because other threads run
  between the pop and the return; \<open>worker_iteration\<close> composes them for a
  worker that runs alone.
\<close>

section \<open>The clock\<close>

definition monotonic_ns :: "world \<Rightarrow> u64" where
  "monotonic_ns w =
     (let tv_sec = now w div 1000000000; tv_nsec = now w mod 1000000000
      in of_nat tv_sec * 1000000000 + of_nat tv_nsec)"

lemma monotonic_ns_now: "monotonic_ns w = of_nat (now w)"
proof -
  have "of_nat (now w div 1000000000) * 1000000000 + of_nat (now w mod 1000000000) =
      (of_nat (now w div 1000000000 * 1000000000 + now w mod 1000000000) :: u64)"
    by (simp only: of_nat_add of_nat_mult of_nat_numeral)
  then show ?thesis by (simp add: monotonic_ns_def Let_def)
qed

section \<open>The parser\<close>

datatype parser_verdict = Rejected string | Health_probe | Admitted request

text \<open>The reading of the header and the checks on it.\<close>

definition parse_connection :: "path \<Rightarrow> int \<Rightarrow> world \<Rightarrow> parser_verdict \<times> world" where
  "parse_connection file_dir fd w =
     (case read_header_line fd 1000 w of
        (header, leftover, w1) \<Rightarrow>
          (if header = [] then Rejected ''timeout or invalid request''
           else case parse_request_header header fd of
             Inl e \<Rightarrow> Rejected e
           | Inr r \<Rightarrow>
               (let req = r\<lparr>pending_bytes := leftover\<rparr> in
                if op req = HEALTH then Health_probe
                else if \<not> is_valid_filename (filename req) then Rejected ''invalid filename''
                else if op req = GET then
                  (let file_path = join_path file_dir (filename req) in
                   if \<not> file_exists file_path w1 then Rejected ''file not found''
                   else Admitted (req\<lparr>total_bytes := get_file_size file_path w1\<rparr>))
                else Admitted req),
           w1))"

text \<open>
  What follows the checks: a refused connection is told why and closed, a
  health probe is answered with the length of the queue and closed, and an
  admitted request gets its number and its arrival time.
\<close>

definition refuse :: "int \<Rightarrow> string \<Rightarrow> world \<Rightarrow> world" where
  "refuse fd m w = close_socket fd (send_error fd m w)"

definition answer_health :: "int \<Rightarrow> request_queue \<Rightarrow> world \<Rightarrow> world" where
  "answer_health fd q w = close_socket fd (send_response fd (of_nat (queue_size q)) w)"

definition number_request :: "i32 \<Rightarrow> world \<Rightarrow> request \<Rightarrow> request" where
  "number_request next_request_id w r = r\<lparr>request_id := next_request_id, arrival_ns := monotonic_ns w\<rparr>"

definition admit_request :: "int \<Rightarrow> request \<Rightarrow> request_queue \<times> world \<Rightarrow> bool \<times> request_queue \<times> world" where
  "admit_request fd r st =
     (case st of (q, w) \<Rightarrow>
        (case push r q of
           (True, q1) \<Rightarrow> (True, q1, w)
         | (False, q1) \<Rightarrow> (False, q1, refuse fd ''server shutting down'' w)))"

text \<open>One turn of the loop of \<^verbatim>\<open>parser_thread\<close> with the connection it popped.\<close>

definition parser_handle ::
  "path \<Rightarrow> int \<Rightarrow> request_queue \<times> i32 \<times> world \<Rightarrow> request_queue \<times> i32 \<times> world" where
  "parser_handle file_dir fd st =
     (case st of (q, next_request_id, w) \<Rightarrow>
        (case parse_connection file_dir fd w of
           (Rejected m, w1) \<Rightarrow> (q, next_request_id, refuse fd m w1)
         | (Health_probe, w1) \<Rightarrow> (q, next_request_id, answer_health fd q w1)
         | (Admitted r, w1) \<Rightarrow>
             (case admit_request fd (number_request next_request_id w1 r) (q, w1) of
                (ok, q1, w2) \<Rightarrow> (q1, next_request_id + 1, w2))))"

section \<open>The worker\<close>

record worker_env =
  we_disk :: disk
  we_dir :: path
  we_sched :: scheduler
  we_packetization :: int

datatype worker_outcome = Failed request | Requeued request | Finished request

fun outcome_request :: "worker_outcome \<Rightarrow> request" where
  "outcome_request (Failed r) = r"
| "outcome_request (Requeued r) = r"
| "outcome_request (Finished r) = r"

definition serve_round ::
  "worker_env \<Rightarrow> u64 \<Rightarrow> request \<Rightarrow> world \<Rightarrow> bool \<times> u64 \<times> request \<times> world" where
  "serve_round e budget r w =
     (case op r of
        GET \<Rightarrow> serve_get (we_disk e) (we_dir e) budget (policy (we_sched e) = RR)
                 (we_packetization e) r w
      | PUT \<Rightarrow> serve_put (we_disk e) (we_dir e) budget r
                 (if offset r = 0 then send_response (client_fd r) 0 w else w)
      | HEALTH \<Rightarrow> (False, 0, r, w))"

text \<open>The accounting of a successful round, the forfeited bytes of RR included.\<close>

definition settle_round :: "worker_env \<Rightarrow> u64 \<Rightarrow> u64 \<Rightarrow> request \<Rightarrow> request" where
  "settle_round e budget bytes_processed r =
     (let r1 = account (we_sched e) bytes_processed r in
      if should_requeue r1 \<and> policy (we_sched e) = RR \<and> op r1 = GET \<and> bytes_processed < budget
      then r1\<lparr>forfeited_bytes := forfeited_bytes r1 + (budget - bytes_processed)\<rparr>
      else r1)"

definition stamp_start :: "world \<Rightarrow> request \<Rightarrow> request" where
  "stamp_start w r = (if start_ns r = 0 then r\<lparr>start_ns := monotonic_ns w\<rparr> else r)"

definition stamp_finish :: "world \<Rightarrow> request \<Rightarrow> request" where
  "stamp_finish w r = r\<lparr>finish_ns := monotonic_ns w\<rparr>"

text \<open>The end of a transfer: an upload is renamed to its final name.\<close>

definition commit_request :: "worker_env \<Rightarrow> request \<Rightarrow> world \<Rightarrow> worker_outcome \<times> world" where
  "commit_request e r w =
     (if op r = PUT then
        (case sys_rename (we_disk e) (join_path (we_dir e) (staging_filename r))
                (join_path (we_dir e) (filename r)) w of
           (False, w1) \<Rightarrow> (Failed r, send_error (client_fd r) ''cannot commit file'' w1)
         | (True, w1) \<Rightarrow>
             (let w2 = send_response (client_fd r) 0 w1 in (Finished (stamp_finish w2 r), w2)))
      else (Finished (stamp_finish w r), w))"

definition worker_process ::
  "worker_env \<Rightarrow> request \<times> u64 \<Rightarrow> world \<Rightarrow> worker_outcome \<times> world" where
  "worker_process e decision w =
     (case decision of (r, budget) \<Rightarrow>
        (case serve_round e budget (stamp_start w r) w of
           (False, bytes_processed, r1, w1) \<Rightarrow>
             (Failed r1,
              if staging_filename r1 = [] then w1
              else sys_remove (join_path (we_dir e) (staging_filename r1)) w1)
         | (True, bytes_processed, r1, w1) \<Rightarrow>
             (let r2 = settle_round e budget bytes_processed r1 in
              if should_requeue r2 then (Requeued r2, w1) else commit_request e r2 w1)))"

text \<open>The request goes back to the queue, or its connection is closed.\<close>

definition worker_finish ::
  "worker_outcome \<Rightarrow> request_queue \<times> request_metrics list \<times> world \<Rightarrow>
   request_queue \<times> request_metrics list \<times> world" where
  "worker_finish out st =
     (case st of (q, metrics, w) \<Rightarrow>
        (case out of
           Failed r \<Rightarrow> (Request_Queue.complete q, metrics, close_socket (client_fd r) w)
         | Requeued r \<Rightarrow> (requeue r q, metrics, w)
         | Finished r \<Rightarrow>
             (Request_Queue.complete q, metrics_record r metrics, close_socket (client_fd r) w)))"

text \<open>One turn of the loop of \<^verbatim>\<open>worker_thread\<close>; \<open>Drained\<close> ends the thread.\<close>

definition worker_iteration ::
  "worker_env \<Rightarrow> request_queue \<times> request_metrics list \<times> world \<Rightarrow>
   (worker_outcome, request_queue \<times> request_metrics list \<times> world) pop_result" where
  "worker_iteration e st =
     (case st of (q, metrics, w) \<Rightarrow>
        (case scheduler_next (we_sched e) q of
           Blocked \<Rightarrow> Blocked
         | Drained \<Rightarrow> Drained
         | Popped decision q1 \<Rightarrow>
             (case worker_process e decision w of
                (out, w1) \<Rightarrow> Popped out (worker_finish out (q1, metrics, w1)))))"

end
