(* ===== verification/Get_Service.thy ===== *)
theory Get_Service
  imports Serve
begin

text \<open>
  Correctness of a GET round: which bytes it selects, that exactly these bytes
  go out, and that the grouping into packets does not matter. The reference is
  the greedy choice of whole lines of the rest of the file.
\<close>

section \<open>The reference choice of lines\<close>

fun fit_lines :: "nat \<Rightarrow> bytes list \<Rightarrow> bytes list" where
  "fit_lines b [] = []"
| "fit_lines b (l # ls) = (if length l \<le> b then l # fit_lines (b - length l) ls else [])"

text \<open>A first line longer than the allowance is taken alone when overrun is allowed (A14).\<close>

definition oversized :: "nat \<Rightarrow> bytes list \<Rightarrow> bool" where
  "oversized b ls \<longleftrightarrow> (case ls of [] \<Rightarrow> False | l # _ \<Rightarrow> b < length l)"

definition round_lines :: "nat \<Rightarrow> bool \<Rightarrow> bytes list \<Rightarrow> bytes list" where
  "round_lines b overrun ls =
     (if oversized b ls then (if overrun then [hd ls] else []) else fit_lines b ls)"

text \<open>The bytes of one round, given what is left of the file.\<close>

definition get_round :: "nat \<Rightarrow> bool \<Rightarrow> bytes \<Rightarrow> bytes" where
  "get_round b overrun rest =
     (if length rest \<le> b then rest else concat (round_lines b overrun (lines_of rest)))"

lemma fit_lines_prefix: "\<exists>R. ls = fit_lines b ls @ R"
proof (induction b ls rule: fit_lines.induct)
  case (2 b l ls)
  then show ?case by (cases "length l \<le> b") auto
qed simp

lemma fit_lines_size: "length (concat (fit_lines b ls)) \<le> b"
  by (induction b ls rule: fit_lines.induct) auto

lemma round_lines_prefix: "\<exists>R. ls = round_lines b overrun ls @ R"
  using fit_lines_prefix [of ls b]
  by (cases ls) (auto simp: round_lines_def oversized_def)

lemma get_round_prefix: "\<exists>R. rest = get_round b overrun rest @ R"
proof (cases "length rest \<le> b")
  case False
  obtain R where "lines_of rest = round_lines b overrun (lines_of rest) @ R"
    using round_lines_prefix by blast
  then have "rest = concat (round_lines b overrun (lines_of rest)) @ concat R"
    by (metis concat_append concat_lines_of)
  with False show ?thesis by (auto simp: get_round_def)
qed (simp add: get_round_def)

lemma get_round_le: "length (get_round b overrun rest) \<le> length rest"
  by (metis get_round_prefix le_add1 length_append)

text \<open>Without an oversized line a round stays within its allowance; with one it is that line.\<close>

lemma get_round_budget:
  "\<not> (overrun \<and> b < length rest \<and> oversized b (lines_of rest)) \<Longrightarrow>
   length (get_round b overrun rest) \<le> b"
  using fit_lines_size [of b "lines_of rest"] by (auto simp: get_round_def round_lines_def)

lemma get_round_progress:
  assumes "rest \<noteq> []" "0 < b" "overrun \<or> \<not> oversized b (lines_of rest)"
  shows "get_round b overrun rest \<noteq> []"
proof (cases "length rest \<le> b")
  case False
  have "lines_of rest = first_line rest # lines_of (drop (length (first_line rest)) rest)"
    using assms(1) by (rule lines_of_rec)
  with False assms first_line_nonempty [of rest] show ?thesis
    by (auto simp: get_round_def round_lines_def oversized_def)
qed (simp add: get_round_def assms(1))

section \<open>The selection loop\<close>

lemma select_lines_started:
  assumes "open_read d p w = Some c" "0 < rb" "rb \<le> budget" "unat rb \<le> unat lo" "unat lo \<le> length c"
    and "lines_of (drop (unat lo) c) = ls"
  shows "select_lines d p budget ov w lo rb =
    (rb + of_nat (length (concat (fit_lines (unat budget - unat rb) ls))), False)"
  using assms
proof (induction ls arbitrary: lo rb)
  case Nil
  then have "length c \<le> unat lo" by (metis drop_eq_Nil lines_of_rec list.distinct(1))
  with Nil.prems(1) show ?case
    by (subst select_lines.simps) (simp add: file_lines.read_end)
next
  case (Cons l ls)
  obtain lo' where lo': "read_file_line d p lo w = Some (l, lo')" "unat lo' = unat lo + length l"
      "lines_of (drop (unat lo') c) = ls" "unat lo' \<le> length c"
    using file_lines.read_next_line [OF Cons.prems(1,6)] by metis
  have len: "unat (of_nat (length l) :: u64) = length l" "0 < length l"
    using file_lines.line_size_word [OF lo'(1)] by auto
  have c: "length c < 2 ^ 63" using Cons.prems(1) by (rule file_lines.content_bound)
  then have sum: "unat (rb + of_nat (length l)) = unat rb + length l"
    using Cons.prems(4) lo'(2,4) len by (simp add: unat_add_u64)
  show ?case
  proof (cases "length l \<le> unat budget - unat rb")
    case True
    then have step: "rb < budget" "rb + of_nat (length l) \<le> budget"
      using len(2) Cons.prems(3) unfolding word_order sum by linarith+
    then have "select_lines d p budget ov w lo rb =
        select_lines d p budget ov w lo' (rb + of_nat (length l))"
      using lo'(1) Cons.prems(2) by (subst select_lines.simps) (auto simp: Let_def)
    also have "\<dots> = (rb + of_nat (length l) +
        of_nat (length (concat (fit_lines (unat budget - unat (rb + of_nat (length l))) ls))), False)"
      using Cons.prems(1) step(2) lo' len sum Cons.prems(2,4)
      by (intro Cons.IH) (auto simp: word_order)
    finally show ?thesis using True sum by simp
  next
    case False
    then have "\<not> rb < budget \<or> budget < rb + of_nat (length l)"
      using sum by (auto simp: word_order)
    with False lo'(1) Cons.prems(2) show ?thesis
      by (subst select_lines.simps) (auto simp: Let_def)
  qed
qed

lemma select_lines_spec:
  assumes "open_read d p w = Some c" "0 < budget" "unat lo < length c"
  defines "ls \<equiv> lines_of (drop (unat lo) c)"
  shows "select_lines d p budget ov w lo 0 =
    (of_nat (length (concat (round_lines (unat budget) ov ls))), ov \<and> oversized (unat budget) ls)"
proof -
  have "drop (unat lo) c \<noteq> []" using assms(3) by simp
  then obtain l ls' where ls: "ls = l # ls'" unfolding ls_def by (metis lines_of_rec)
  obtain lo' where lo': "read_file_line d p lo w = Some (l, lo')" "unat lo' = unat lo + length l"
      "lines_of (drop (unat lo') c) = ls'" "unat lo' \<le> length c"
    using file_lines.read_next_line [OF assms(1) ls [unfolded ls_def]] by metis
  have len: "unat (of_nat (length l) :: u64) = length l" "0 < length l"
    "(of_nat (length l) :: u64) \<noteq> 0"
    using file_lines.line_size_word [OF lo'(1)] by auto
  show ?thesis
  proof (cases "unat budget < length l")
    case True
    with lo'(1) len ls assms(2) show ?thesis
      by (subst select_lines.simps)
         (simp add: Let_def word_less_nat_alt round_lines_def oversized_def)
  next
    case False
    then have "select_lines d p budget ov w lo 0 = select_lines d p budget ov w lo' (of_nat (length l))"
      using lo'(1) len assms(2) by (subst select_lines.simps) (auto simp: Let_def word_less_nat_alt)
    also have "\<dots> = (of_nat (length l) +
        of_nat (length (concat (fit_lines (unat budget - unat (of_nat (length l) :: u64)) ls'))), False)"
      using False lo' len assms(1)
      by (intro select_lines_started) (auto simp: word_order)
    finally show ?thesis using False len ls by (simp add: round_lines_def oversized_def)
  qed
qed


section \<open>The packet loop\<close>

lemma gather_lines_spec:
  assumes "open_read d p w = Some c" "unat lo \<le> length c"
    and "lines_of (drop (unat lo) c) = L @ R" "unat rem = length (concat L)"
  shows "gather_lines m d p w pk lo rem =
    Gathered (pk @ concat (take m L)) (of_nat (unat lo + length (concat (take m L))))
      (of_nat (length (concat (drop m L))))"
  using assms
proof (induction m arbitrary: pk lo rem L)
  case 0
  from 0(4) show ?case by (simp add: of_nat_eq_iff flip: 0(4))
next
  case (Suc m)
  show ?case
  proof (cases L)
    case Nil
    with Suc.prems(4) have "rem = 0" by (simp add: unat_eq_0)
    with Nil show ?thesis by simp
  next
    case (Cons l L')
    obtain lo' where lo': "read_file_line d p lo w = Some (l, lo')" "unat lo' = unat lo + length l"
        "lines_of (drop (unat lo') c) = L' @ R" "unat lo' \<le> length c"
      using file_lines.read_next_line [OF Suc.prems(1), of lo l "L' @ R"] Suc.prems(3) Cons by auto
    have len: "unat (of_nat (length l) :: u64) = length l" "0 < length l"
      using file_lines.line_size_word [OF lo'(1)] by auto
    have le: "of_nat (length l) \<le> rem" and pos: "0 < rem"
      using Suc.prems(4) Cons len by (auto simp: word_order)
    have "unat (rem - of_nat (length l)) = length (concat L')"
      using Suc.prems(4) Cons len unat_diff_u64 [OF le] by simp
    then have "gather_lines m d p w (pk @ l) lo' (rem - of_nat (length l)) =
       Gathered ((pk @ l) @ concat (take m L')) (of_nat (unat lo' + length (concat (take m L'))))
         (of_nat (length (concat (drop m L'))))"
      using Suc.prems(1) lo' by (intro Suc.IH) auto
    with lo'(1,2) le pos Cons show ?thesis by (simp add: Let_def not_less)
  qed
qed

text \<open>The packets of a round: its lines in groups of \<open>k + 1\<close>.\<close>

function group_lines :: "nat \<Rightarrow> 'a list \<Rightarrow> 'a list list" where
  "group_lines k [] = []"
| "group_lines k (x # xs) = take (Suc k) (x # xs) # group_lines k (drop (Suc k) (x # xs))"
  by pat_completeness auto
termination
  by (relation "measure (\<lambda>(k, xs). length xs)") auto

lemma concat_group_lines [simp]: "concat (group_lines k xs) = xs"
proof (induction k xs rule: group_lines.induct)
  case (2 k x xs)
  then show ?case by simp
qed simp

lemma group_lines_size: "g \<in> set (group_lines k xs) \<Longrightarrow> 0 < length g \<and> length g \<le> Suc k"
  by (induction k xs rule: group_lines.induct) auto

text \<open>The bytes handed to \<^verbatim>\<open>send\<close> are never changed by the file lookups in between.\<close>

lemma open_read_files: "files w' = files w \<Longrightarrow> open_read d p w' = open_read d p w"
  by (simp add: open_read_def)

lemma send_packets_step:
  assumes "open_read d p w = Some c" "unat lo \<le> length c"
    and "lines_of (drop (unat lo) c) = L @ R" "unat rem = length (concat L)" "L \<noteq> []"
    and "send_all fd (concat (take (Suc k) L)) w = (True, w1)"
  shows "send_packets k fd d p lo rem n w =
    send_packets k fd d p (of_nat (unat lo + length (concat (take (Suc k) L))))
      (of_nat (length (concat (drop (Suc k) L))))
      (n + of_nat (length (concat (take (Suc k) L)))) w1"
proof -
  have "0 < rem"
  proof -
    obtain l where "l \<in> set L" using assms(5) by (meson last_in_set)
    then have "l \<in> set (lines_of (drop (unat lo) c))" using assms(3) by simp
    then have "l \<noteq> []" by (rule lines_of_nonempty)
    with \<open>l \<in> set L\<close> have "concat L \<noteq> []" by auto
    with assms(4) show ?thesis by (simp add: word_less_nat_alt)
  qed
  with gather_lines_spec [OF assms(1-4), of "Suc k" "[]"] assms(6) show ?thesis
    by (subst send_packets.simps) (simp del: gather_lines.simps)
qed

text \<open>Where the loop stands after a packet.\<close>

lemma packet_cut:
  assumes "open_read d p w = Some c" "unat lo \<le> length c"
    and "lines_of (drop (unat lo) c) = (P @ Q) @ R" "unat rem = length (concat (P @ Q))"
  defines "lo' \<equiv> of_nat (unat lo + length (concat P)) :: u64" and "rem' \<equiv> of_nat (length (concat Q)) :: u64"
  shows "unat lo' \<le> length c" "lines_of (drop (unat lo') c) = Q @ R" "unat rem' = length (concat Q)"
    "of_nat (length (concat P)) + rem' = rem"
proof -
  have c: "length c < 2 ^ 63" using assms(1) by (rule file_lines.content_bound)
  have "drop (unat lo) c = concat P @ concat Q @ concat R"
    by (metis append.assoc concat_append concat_lines_of assms(3))
  then have ck: "unat lo + length (concat P) \<le> length c"
    using assms(2) by (metis add_le_cancel_left le_add1 le_add_diff_inverse length_append length_drop)
  have lo: "unat lo' = unat lo + length (concat P)"
    unfolding lo'_def using ck c by (intro unat_of_nat_u64) simp
  then show "unat lo' \<le> length c" using ck by simp
  show "lines_of (drop (unat lo') c) = Q @ R"
    using lo lines_of_after [of "drop (unat lo) c" P "Q @ R"] assms(3) by (simp add: add.commute)
  show "unat rem' = length (concat Q)"
    unfolding rem'_def using assms(4) unat_lt_u64 [of rem] by (intro unat_of_nat_u64) simp
  have "of_nat (length (concat P)) + rem' = of_nat (unat rem)"
    unfolding rem'_def assms(4) by simp
  then show "of_nat (length (concat P)) + rem' = rem" by simp
qed

lemma send_packets_spec:
  assumes "open_read d p w = Some c" "unat lo \<le> length c"
    and "lines_of (drop (unat lo) c) = L @ R" "unat rem = length (concat L)" "reliable w fd"
  shows "\<exists>w'. send_packets k fd d p lo rem n w = (True, n + rem, w') \<and>
    wire w' fd = wire w fd @ concat L \<and> reliable w' fd \<and> files w' = files w \<and> now w' = now w \<and>
    inbox (socks w' fd) = inbox (socks w fd) \<and> (\<forall>fd'. fd' \<noteq> fd \<longrightarrow> socks w' fd' = socks w fd') \<and>
    (send_plan (socks w fd) = [] \<longrightarrow> send_plan (socks w' fd) = [] \<and>
       sent (socks w' fd) = sent (socks w fd) @ map concat (group_lines k L))"
  using assms
proof (induction "length L" arbitrary: L lo rem n w rule: less_induct)
  case less
  show ?case
  proof (cases "L = []")
    case True
    with less.prems(4) have "rem = 0" by (simp add: unat_eq_0)
    with True less.prems(5) show ?thesis by (subst send_packets.simps) simp
  next
    case False
    let ?P = "take (Suc k) L" and ?Q = "drop (Suc k) L"
    let ?lo = "of_nat (unat lo + length (concat ?P)) :: u64" and ?rem = "of_nat (length (concat ?Q)) :: u64"
    obtain w1 where w1: "send_all fd (concat ?P) w = (True, w1)" "reliable w1 fd"
        "wire w1 fd = wire w fd @ concat ?P"
      using less.prems(5) by (rule send_all_reliable)
    note f1 = send_all_frame [OF w1(1)]
    note cut = packet_cut [OF less.prems(1,2), of ?P ?Q R rem]
    have "concat ?P \<noteq> []"
    proof -
      have "hd L \<in> set (lines_of (drop (unat lo) c))" using False less.prems(3) by simp
      then have "hd L \<noteq> []" by (rule lines_of_nonempty)
      with False show ?thesis by (cases L) auto
    qed
    then have pl: "send_plan (socks w fd) = [] \<Longrightarrow> send_plan (socks w1 fd) = [] \<and>
        sent (socks w1 fd) = sent (socks w fd) @ [concat ?P]"
      using w1(1) send_all_plain [of w fd "concat ?P"] by auto
    have grp: "group_lines k L = ?P # group_lines k ?Q" using False by (cases L) auto
    have "\<exists>w'. send_packets k fd d p ?lo ?rem (n + of_nat (length (concat ?P))) w1 =
        (True, n + of_nat (length (concat ?P)) + ?rem, w') \<and>
      wire w' fd = wire w1 fd @ concat ?Q \<and> reliable w' fd \<and> files w' = files w1 \<and> now w' = now w1 \<and>
      inbox (socks w' fd) = inbox (socks w1 fd) \<and> (\<forall>fd'. fd' \<noteq> fd \<longrightarrow> socks w' fd' = socks w1 fd') \<and>
      (send_plan (socks w1 fd) = [] \<longrightarrow> send_plan (socks w' fd) = [] \<and>
        sent (socks w' fd) = sent (socks w1 fd) @ map concat (group_lines k ?Q))"
    proof (rule less.hyps)
      show "open_read d p w1 = Some c" using less.prems(1) open_read_files [OF f1(1)] by simp
    qed (use False cut less.prems w1(2) in auto)
    then obtain w' where w': "send_packets k fd d p ?lo ?rem (n + of_nat (length (concat ?P))) w1 =
        (True, n + of_nat (length (concat ?P)) + ?rem, w')"
      "wire w' fd = wire w1 fd @ concat ?Q" "reliable w' fd" "files w' = files w1" "now w' = now w1"
      "inbox (socks w' fd) = inbox (socks w1 fd)" "\<forall>fd'. fd' \<noteq> fd \<longrightarrow> socks w' fd' = socks w1 fd'"
      "send_plan (socks w1 fd) = [] \<Longrightarrow> send_plan (socks w' fd) = [] \<and>
        sent (socks w' fd) = sent (socks w1 fd) @ map concat (group_lines k ?Q)" by blast
    have "send_packets k fd d p lo rem n w = (True, n + rem, w')"
      using send_packets_step [OF less.prems(1-4) False w1(1), of n] w'(1) cut(4) less.prems(3,4)
      by (simp add: add.assoc)
    moreover have "wire w' fd = wire w fd @ concat L"
      using w'(2) w1(3) by (simp flip: concat_append)
    ultimately show ?thesis using w' f1 pl grp by auto
  qed
qed


section \<open>One round of a download\<close>

text \<open>The file has not changed since the request was admitted, and the connection takes writes.\<close>

definition get_ready :: "disk \<Rightarrow> path \<Rightarrow> request \<Rightarrow> bytes \<Rightarrow> world \<Rightarrow> bool" where
  "get_ready d dir r c w \<longleftrightarrow> is_valid_filename (filename r) \<and>
     open_read d (join_path dir (filename r)) w = Some c \<and> length c = unat (total_bytes r) \<and>
     unat (offset r) \<le> length c \<and> reliable w (client_fd r)"

definition get_header :: "request \<Rightarrow> bytes" where
  "get_header r = (if response_sent r then [] else ok_line (total_bytes r))"

definition get_a14 :: "nat \<Rightarrow> bool \<Rightarrow> bytes \<Rightarrow> bool" where
  "get_a14 b overrun rest \<longleftrightarrow> overrun \<and> b < length rest \<and> oversized b (lines_of rest)"

lemma send_header:
  assumes "reliable w (client_fd r)"
  defines "w1 \<equiv> if response_sent r then w else send_response (client_fd r) (total_bytes r) w"
  shows "wire w1 (client_fd r) = wire w (client_fd r) @ get_header r" "reliable w1 (client_fd r)"
    "files w1 = files w" "now w1 = now w"
    "inbox (socks w1 (client_fd r)) = inbox (socks w (client_fd r))"
    "fd' \<noteq> client_fd r \<Longrightarrow> socks w1 fd' = socks w fd'"
proof -
  obtain w' where "send_all (client_fd r) (ok_line (total_bytes r)) w = (True, w')"
      "reliable w' (client_fd r)" "wire w' (client_fd r) = wire w (client_fd r) @ ok_line (total_bytes r)"
    using assms(1) by (rule send_all_reliable)
  then show "wire w1 (client_fd r) = wire w (client_fd r) @ get_header r" "reliable w1 (client_fd r)"
    using assms(1) by (simp_all add: w1_def get_header_def send_response_def)
qed (simp_all add: w1_def)

lemma choose_round_spec:
  assumes "open_read d p w = Some c" "length c = unat (total_bytes r)" "unat (offset r) < length c"
    "0 < budget"
  defines "rest \<equiv> drop (unat (offset r)) c"
  shows "choose_round d p budget ov r w =
     (of_nat (length (get_round (unat budget) ov rest)), get_a14 (unat budget) ov rest)"
proof -
  let ?rem = "total_bytes r - offset r"
  have "offset r \<le> total_bytes r" using assms(2,3) by (simp add: word_le_nat_alt)
  then have rem: "unat ?rem = length rest"
    using assms(2) by (simp add: unat_diff_u64 rest_def)
  show ?thesis
  proof (cases "length rest \<le> unat budget")
    case True
    then have "?rem \<le> budget" using rem by (simp add: word_le_nat_alt)
    moreover have "?rem = of_nat (length rest)" using of_nat_unat_u64 [of ?rem] rem by simp
    ultimately show ?thesis
      using True by (simp add: choose_round_def get_a14_def get_round_def)
  next
    case False
    then have "\<not> ?rem \<le> budget" using rem by (simp add: word_le_nat_alt)
    with False select_lines_spec [OF assms(1,4,3), of ov] show ?thesis
      by (simp add: choose_round_def get_round_def get_a14_def rest_def)
  qed
qed

lemma get_round_lines:
  obtains L R where "lines_of rest = L @ R" "get_round b overrun rest = concat L"
    "L = (if length rest \<le> b then lines_of rest else round_lines b overrun (lines_of rest))"
  using round_lines_prefix [of "lines_of rest" b overrun]
  by (cases "length rest \<le> b") (auto simp: get_round_def intro: that)

lemma send_round_spec:
  assumes "open_read d p w = Some c" "unat (offset r) \<le> length c" "reliable w (client_fd r)"
  defines "rest \<equiv> drop (unat (offset r)) c" and "fd \<equiv> client_fd r"
  assumes "lines_of rest = L @ R"
  shows "\<exists>w'. send_round d p pk (of_nat (length (concat L))) r w =
      (True, of_nat (length (concat L)), r, w') \<and>
    wire w' fd = wire w fd @ concat L \<and> reliable w' fd \<and> files w' = files w \<and>
    now w' = now w \<and> inbox (socks w' fd) = inbox (socks w fd) \<and>
    (\<forall>fd'. fd' \<noteq> fd \<longrightarrow> socks w' fd' = socks w fd') \<and>
    (concat L \<noteq> [] \<and> send_plan (socks w fd) = [] \<longrightarrow>
       sent (socks w' fd) = sent (socks w fd) @ map concat (group_lines (nat pk - 1) L))"
proof -
  have c: "length c < 2 ^ 63" using assms(1) by (rule file_lines.content_bound)
  have "rest = concat L @ concat R" by (metis assms(6) concat_append concat_lines_of)
  then have "length (concat L) \<le> length rest" by simp
  then have small: "length (concat L) < 2 ^ 64" using c by (simp add: rest_def)
  show ?thesis
  proof (cases "concat L = []")
    case True
    show ?thesis using assms(3) unfolding True send_round_def fd_def by auto
  next
    case False
    then have nz: "of_nat (length (concat L)) \<noteq> (0 :: u64)"
      using small by (intro of_nat_nonzero_u64) auto
    have seek: "\<not> 2 ^ 63 \<le> unat (offset r)" using assms(2) c by simp
    show ?thesis
      using send_packets_spec [OF assms(1,2) assms(6) [unfolded rest_def]
          unat_of_nat_u64 [OF small] assms(3), of "nat pk - 1" 0]
        nz seek assms(1) unfolding send_round_def fd_def by auto
  qed
qed

lemma serve_get_round:
  fixes ov :: bool
  assumes "get_ready d dir r c w" "0 < pk" "unat (offset r) < length c \<longrightarrow> 0 < budget"
  defines "rest \<equiv> drop (unat (offset r)) c" and "fd \<equiv> client_fd r"
  defines "B \<equiv> get_round (unat budget) ov rest"
  shows "\<exists>w'. serve_get d dir budget ov pk r w = (True, of_nat (length B),
      r\<lparr>response_sent := True,
        a14_events := a14_events r + (if get_a14 (unat budget) ov rest then 1 else 0)\<rparr>, w') \<and>
    wire w' fd = wire w fd @ get_header r @ B \<and> reliable w' fd \<and> files w' = files w \<and>
    now w' = now w \<and> inbox (socks w' fd) = inbox (socks w fd) \<and>
    (\<forall>fd'. fd' \<noteq> fd \<longrightarrow> socks w' fd' = socks w fd')"
proof -
  let ?p = "join_path dir (filename r)" and ?r1 = "r\<lparr>response_sent := True\<rparr>"
  let ?r2 = "r\<lparr>response_sent := True,
      a14_events := a14_events r + (if get_a14 (unat budget) ov rest then 1 else 0)\<rparr>"
  define w1 where "w1 = (if response_sent r then w else send_response fd (total_bytes r) w)"
  have ok: "is_valid_filename (filename r)" "open_read d ?p w = Some c" "length c = unat (total_bytes r)"
    and le: "unat (offset r) \<le> length c" and rel: "reliable w (client_fd r)"
    using assms(1) by (auto simp: get_ready_def)
  have ex: "file_exists ?p w" using ok(2) by (auto simp: file_exists_def open_read_def split: option.splits)
  note h = send_header [OF rel, folded fd_def, folded w1_def]
  have op1: "open_read d ?p w1 = Some c" using ok(2) open_read_files [OF h(3)] by simp
  show ?thesis
  proof (cases "unat (offset r) < length c")
    case False
    with le ok(3) have "offset r = total_bytes r" "rest = []"
      by (simp_all add: rest_def word_unat_eq_iff)
    with ok ex h show ?thesis
      by (auto simp: serve_get_def Let_def B_def get_round_def get_a14_def w1_def fd_def)
  next
    case True
    with assms(3) have b: "0 < budget" by simp
    have guard: "\<not> total_bytes r \<le> offset r" "budget \<noteq> 0"
      using True ok(3) b by (auto simp: word_le_nat_alt)
    have "choose_round d ?p budget ov ?r1 w1 = (of_nat (length B), get_a14 (unat budget) ov rest)"
      using choose_round_spec [of d ?p w1 c ?r1 budget ov] op1 ok(3) True b by (simp add: B_def rest_def)
    then have eq: "serve_get d dir budget ov pk r w = send_round d ?p pk (of_nat (length B)) ?r2 w1"
      using ok ex guard assms(2)
      by (simp add: serve_get_def Let_def w1_def [symmetric, unfolded fd_def])
    obtain L R where L: "lines_of rest = L @ R" "B = concat L"
      unfolding B_def by (rule get_round_lines)
    obtain w' where w': "send_round d ?p pk (of_nat (length B)) ?r2 w1 = (True, of_nat (length B), ?r2, w')"
      "wire w' fd = wire w1 fd @ B" "reliable w' fd" "files w' = files w1" "now w' = now w1"
      "inbox (socks w' fd) = inbox (socks w1 fd)" "\<forall>fd'. fd' \<noteq> fd \<longrightarrow> socks w' fd' = socks w1 fd'"
      using send_round_spec [of d ?p w1 c ?r2 L R pk] op1 le h(2) L by (auto simp: fd_def rest_def)
    with eq h show ?thesis by auto
  qed
qed


text \<open>The lines of a round: a maximal run of whole lines within the allowance, or one long line.\<close>

lemma fit_lines_maximal: "ls = fit_lines b ls @ x # R \<Longrightarrow> b < length (concat (fit_lines b ls)) + length x"
proof (induction b ls rule: fit_lines.induct)
  case (2 b l ls)
  then show ?case by (cases "length l \<le> b") auto
qed simp

lemma get_a14_iff: "get_a14 b overrun rest \<longleftrightarrow> b < length (get_round b overrun rest)"
proof
  assume "get_a14 b overrun rest"
  then have a: "overrun" "\<not> length rest \<le> b" "oversized b (lines_of rest)"
    by (simp_all add: get_a14_def)
  then have "get_round b overrun rest = hd (lines_of rest)"
    by (simp add: get_round_def round_lines_def)
  with a(3) show "b < length (get_round b overrun rest)"
    by (simp add: oversized_def split: list.splits)
next
  assume "b < length (get_round b overrun rest)"
  with get_round_budget [of overrun b rest] show "get_a14 b overrun rest"
    unfolding get_a14_def by linarith
qed

lemma round_run:
  obtains L R where "lines_of rest = L @ R" "get_round b overrun rest = concat L"
    "length (concat L) \<le> b \<or> overrun \<and> length L = 1"
    "R \<noteq> [] \<Longrightarrow> b < length (concat L) + length (hd R)"
    "get_a14 b overrun rest \<longleftrightarrow> b < length (concat L)"
proof -
  obtain L R where L: "lines_of rest = L @ R" "get_round b overrun rest = concat L"
    "L = (if length rest \<le> b then lines_of rest else round_lines b overrun (lines_of rest))"
    by (rule get_round_lines)
  have "length (concat L) \<le> b \<or> overrun \<and> length L = 1"
    using L fit_lines_size [of b "lines_of rest"] by (auto simp: round_lines_def split: if_splits)
  moreover have "R \<noteq> [] \<Longrightarrow> b < length (concat L) + length (hd R)"
  proof (cases "length rest \<le> b")
    case False
    assume R: "R \<noteq> []"
    show ?thesis
    proof (cases "oversized b (lines_of rest)")
      case True
      then obtain x xs where x: "lines_of rest = x # xs" "b < length x"
        by (auto simp: oversized_def split: list.splits)
      then have "L = (if overrun then [x] else [])"
        using True False L(3) by (simp add: round_lines_def)
      with x L(1) show ?thesis by (auto split: if_splits)
    next
      case no: False
      then have "L = fit_lines b (lines_of rest)" using False L(3) by (simp add: round_lines_def)
      with R L(1) fit_lines_maximal [of "lines_of rest" b "hd R" "tl R"] show ?thesis by simp
    qed
  qed (use L in auto)
  moreover have "get_a14 b overrun rest \<longleftrightarrow> b < length (concat L)"
    using get_a14_iff [of b overrun rest] L(2) by simp
  ultimately show ?thesis using that L(1,2) by blast
qed

section \<open>Properties\<close>

text \<open>
  C8. A GET round on an unchanged file sends the status line once, then a run of
  whole lines that starts at the request's offset: no line is split, the run is
  as long as the byte budget allows, it exceeds the budget only for a single
  line and only where overrun is allowed (RR), and then A14 is counted. The
  bytes reported as processed are exactly the bytes of these lines, and nothing
  but this connection changes.
\<close>

theorem serve_get_whole_lines:
  assumes "get_ready d dir r c w" and "0 < pk" and "unat (offset r) < length c \<longrightarrow> 0 < budget"
  shows "\<exists>L R w'. lines_of (drop (unat (offset r)) c) = L @ R \<and>
    serve_get d dir budget ov pk r w = (True, of_nat (length (concat L)),
      r\<lparr>response_sent := True,
        a14_events := a14_events r + (if unat budget < length (concat L) then 1 else 0)\<rparr>, w') \<and>
    wire w' (client_fd r) = wire w (client_fd r) @ get_header r @ concat L \<and>
    (length (concat L) \<le> unat budget \<or> ov \<and> length L = 1) \<and>
    (R \<noteq> [] \<longrightarrow> unat budget < length (concat L) + length (hd R)) \<and>
    files w' = files w \<and> (\<forall>fd'. fd' \<noteq> client_fd r \<longrightarrow> socks w' fd' = socks w fd')"
proof -
  obtain L R where L: "lines_of (drop (unat (offset r)) c) = L @ R"
    "get_round (unat budget) ov (drop (unat (offset r)) c) = concat L"
    "length (concat L) \<le> unat budget \<or> ov \<and> length L = 1"
    "R \<noteq> [] \<Longrightarrow> unat budget < length (concat L) + length (hd R)"
    "get_a14 (unat budget) ov (drop (unat (offset r)) c) \<longleftrightarrow> unat budget < length (concat L)"
    by (rule round_run) blast
  from serve_get_round [OF assms, of ov] L show ?thesis
    by (intro exI [of _ L] exI [of _ R]) auto
qed

definition demo_get :: request where
  "demo_get = new_request\<lparr>client_fd := 4, filename := ''f'', total_bytes := 4\<rparr>"

lemma demo_get_ready: "get_ready healthy_disk ''d'' demo_get two_lines (demo_world [''d/f'' \<mapsto> two_lines] [])"
  by (simp add: get_ready_def demo_get_def new_request_def is_valid_filename_def join_path_def
      open_read_def healthy_disk_def two_lines_def reliable_def)

theorem serve_get_whole_lines_witness:
  "get_ready healthy_disk ''d'' demo_get two_lines (demo_world [''d/f'' \<mapsto> two_lines] []) \<and>
   (\<exists>L R w'. lines_of (drop (unat (offset demo_get)) two_lines) = L @ R \<and>
     serve_get healthy_disk ''d'' 3 True 1 demo_get (demo_world [''d/f'' \<mapsto> two_lines] []) =
       (True, of_nat (length (concat L)), demo_get\<lparr>response_sent := True,
         a14_events := a14_events demo_get + (if unat (3 :: u64) < length (concat L) then 1 else 0)\<rparr>, w'))"
  using serve_get_whole_lines [OF demo_get_ready, of 1 3 True] demo_get_ready by auto



end
