(* ===== verification/Put_Service.thy ===== *)
theory Put_Service
  imports Serve
begin

text \<open>
  Correctness of a PUT round: a successful round appends exactly its share of
  the upload to the staging file, first the bytes that came with the header,
  then bytes from the connection; every round, failing ones included, leaves
  all other files alone.
\<close>

section \<open>Writing to one file only\<close>

lemma stream_write_other:
  "stream_write d p pos data w = (b, w') \<Longrightarrow> q \<noteq> p \<Longrightarrow> files w' q = files w q"
  by (auto simp: stream_write_def Let_def split: option.splits if_splits)

lemma stream_write_socks: "stream_write d p pos data w = (b, w') \<Longrightarrow> socks w' = socks w \<and> now w' = now w"
  by (auto simp: stream_write_def Let_def split: option.splits if_splits)

lemma stream_write_append:
  "stream_write d p pos data w = (True, w') \<Longrightarrow> files w p = Some s \<Longrightarrow> length s = pos \<Longrightarrow>
   files w' p = Some (s @ data)"
  by (auto simp: stream_write_def Let_def split: option.splits if_splits)

lemma put_pending_other:
  "put_pending d p pos rem n r w = (b, pos', rem', n', r', w') \<Longrightarrow>
   (\<forall>q. q \<noteq> p \<longrightarrow> files w' q = files w q) \<and> socks w' = socks w \<and> now w' = now w \<and>
   r' = r\<lparr>pending_offset := pending_offset r'\<rparr>"
proof (induction d p pos rem n r w rule: put_pending.induct)
  case (1 d p pos rem n r w)
  show ?case
  proof (cases "rem > 0 \<and> pending_offset r < of_nat (length (pending_bytes r))")
    case True
    let ?chunk = "min rem (of_nat (length (pending_bytes r)) - pending_offset r)"
    let ?data = "take (unat ?chunk) (drop (unat (pending_offset r)) (pending_bytes r))"
    obtain ok w1 where sw: "stream_write d p pos ?data w = (ok, w1)" by fastforce
    note sw' = stream_write_other [OF sw] stream_write_socks [OF sw]
    show ?thesis
    proof (cases ok)
      case ok: True
      then have "put_pending d p (pos + length ?data) (rem - ?chunk) (n + ?chunk)
          (r\<lparr>pending_offset := pending_offset r + ?chunk\<rparr>) w1 = (b, pos', rem', n', r', w')"
        using "1.prems" True sw by (subst (asm) put_pending.simps) (simp add: Let_def)
      with "1.IH" [OF True refl refl refl sw [symmetric]] ok sw' show ?thesis by auto
    next
      case False
      with "1.prems" True sw sw' show ?thesis by (subst (asm) put_pending.simps) (auto simp: Let_def)
    qed
  next
    case False
    with "1.prems" show ?thesis by (subst (asm) put_pending.simps) auto
  qed
qed

lemma put_receive_other:
  "put_receive d p fd bufsize pos rem n w = (b, n', w') \<Longrightarrow>
   (\<forall>q. q \<noteq> p \<longrightarrow> files w' q = files w q) \<and> (\<forall>fd'. fd' \<noteq> fd \<longrightarrow> socks w' fd' = socks w fd') \<and> now w \<le> now w'"
proof (induction d p fd bufsize pos rem n w rule: put_receive.induct)
  case (1 d p fd bufsize pos rem n w)
  show ?case
  proof (cases "rem > 0")
    case True
    obtain res w1 where rc: "recv_data_with_timeout fd (unat (min bufsize rem)) 5000 w = (res, w1)"
      by fastforce
    note rc' = recv_data_frame [OF rc] recv_data_time(1) [OF rc]
    show ?thesis
    proof (cases "res = None \<or> res = Some []")
      case bad: True
      with "1.prems" True rc rc' show ?thesis by (subst (asm) put_receive.simps) (auto simp: Let_def)
    next
      case False
      then obtain bs where bs: "res = Some bs" "bs \<noteq> []" by auto
      obtain ok w2 where sw: "stream_write d p pos bs w1 = (ok, w2)" by fastforce
      note sw' = stream_write_other [OF sw] stream_write_socks [OF sw]
      show ?thesis
      proof (cases ok)
        case ok: True
        then have "put_receive d p fd bufsize (pos + length bs) (rem - of_nat (length bs))
            (n + of_nat (length bs)) w2 = (b, n', w')"
          using "1.prems" True rc bs sw by (subst (asm) put_receive.simps) (simp add: Let_def)
        with "1.IH" [OF True refl rc [symmetric] bs sw [symmetric]] ok sw' rc' show ?thesis by auto
      next
        case False
        with "1.prems" True rc bs sw sw' rc' show ?thesis
          by (subst (asm) put_receive.simps) (auto simp: Let_def)
      qed
    qed
  next
    case False
    with "1.prems" show ?thesis by (subst (asm) put_receive.simps) auto
  qed
qed


section \<open>The bytes of an upload\<close>

text \<open>What is still to come of an upload: leftover header bytes, then the connection.\<close>

definition pending_rest :: "request \<Rightarrow> bytes" where
  "pending_rest r = drop (unat (pending_offset r)) (pending_bytes r)"

definition upload_stream :: "request \<Rightarrow> world \<Rightarrow> bytes" where
  "upload_stream r w = pending_rest r @ stream_of (inbox (socks w (client_fd r)))"

definition pending_wf :: "request \<Rightarrow> bool" where
  "pending_wf r \<longleftrightarrow> length (pending_bytes r) < 2 ^ 64 \<and> unat (pending_offset r) \<le> length (pending_bytes r)"

text \<open>One turn of the pending loop takes all of the leftover bytes that fit.\<close>

lemma pending_chunk:
  fixes rem :: u64
  assumes "pending_wf r"
  defines "chunk \<equiv> min rem (of_nat (length (pending_bytes r)) - pending_offset r)"
  defines "r1 \<equiv> r\<lparr>pending_offset := pending_offset r + chunk\<rparr>"
  shows "unat chunk = min (unat rem) (length (pending_rest r))"
    "pending_rest r1 = drop (unat chunk) (pending_rest r)" "pending_wf r1"
    "unat (rem - chunk) = unat rem - length (pending_rest r)"
proof -
  let ?l = "of_nat (length (pending_bytes r)) :: u64"
  have l: "unat ?l = length (pending_bytes r)"
    using assms(1) by (intro unat_of_nat_u64) (simp add: pending_wf_def)
  have le: "pending_offset r \<le> ?l"
    using assms(1) l by (simp add: word_le_nat_alt pending_wf_def)
  show chunk: "unat chunk = min (unat rem) (length (pending_rest r))"
    using l unat_diff_u64 [OF le] by (simp add: chunk_def unat_min_u64 pending_rest_def)
  have "unat (pending_offset r) + unat chunk \<le> length (pending_bytes r)"
    using chunk assms(1) unfolding pending_rest_def pending_wf_def length_drop by linarith
  then have off: "unat (pending_offset r1) = unat (pending_offset r) + unat chunk"
    "unat (pending_offset r1) \<le> length (pending_bytes r1)"
    using assms(1) by (simp_all add: r1_def unat_add_u64 pending_wf_def)
  then show "pending_rest r1 = drop (unat chunk) (pending_rest r)" "pending_wf r1"
    using assms(1) by (simp_all add: pending_rest_def r1_def add.commute pending_wf_def)
  have "chunk \<le> rem" by (simp add: chunk_def)
  with chunk show "unat (rem - chunk) = unat rem - length (pending_rest r)"
    by (simp add: unat_diff_u64)
qed

lemma pending_more_iff:
  assumes "pending_wf r"
  shows "pending_offset r < of_nat (length (pending_bytes r)) \<longleftrightarrow> pending_rest r \<noteq> []"
proof -
  have "unat (of_nat (length (pending_bytes r)) :: u64) = length (pending_bytes r)"
    using assms by (intro unat_of_nat_u64) (simp add: pending_wf_def)
  then show ?thesis by (simp add: word_less_nat_alt pending_rest_def not_le)
qed

lemma put_pending_done:
  "pending_wf r \<Longrightarrow> rem = 0 \<or> pending_rest r = [] \<Longrightarrow>
   put_pending d p pos rem n r w = (True, pos, rem, n, r, w)"
  by (subst put_pending.simps) (auto simp: pending_more_iff)

text \<open>So the loop is one write of the first bytes of the leftover, if there are any.\<close>

lemma put_pending_spec:
  fixes rem :: u64
  assumes "pending_wf r"
  defines "data \<equiv> take (unat rem) (pending_rest r)"
  defines "r' \<equiv> r\<lparr>pending_offset := pending_offset r + of_nat (length data)\<rparr>"
  shows "put_pending d p pos rem n r w =
    (if data = [] then (True, pos, rem, n, r, w)
     else case stream_write d p pos data w of
       (False, w1) \<Rightarrow> (False, pos, rem, n, r, w1)
     | (True, w1) \<Rightarrow> (True, pos + length data, rem - of_nat (length data), n + of_nat (length data), r', w1))"
    "pending_wf r'" "pending_rest r = data @ pending_rest r'" "data = [] \<Longrightarrow> r' = r"
    "unat (rem - of_nat (length data)) = unat rem - length data"
    "rem - of_nat (length data) = 0 \<or> pending_rest r' = []"
proof -
  let ?chunk = "min rem (of_nat (length (pending_bytes r)) - pending_offset r)"
  note pc = pending_chunk [OF assms(1), of rem]
  have len: "length data = unat ?chunk" using pc(1) by (simp add: data_def)
  then have chunk: "of_nat (length data) = ?chunk" by simp
  then have r': "r' = r\<lparr>pending_offset := pending_offset r + ?chunk\<rparr>" by (simp only: r'_def)
  show wf: "pending_wf r'" using pc(3) by (simp only: r')
  show "pending_rest r = data @ pending_rest r'"
    using pc(1,2) by (simp add: r' data_def min_def)
  show "data = [] \<Longrightarrow> r' = r" by (simp add: r'_def)
  show "unat (rem - of_nat (length data)) = unat rem - length data"
    unfolding chunk using pc(4) by (simp add: data_def min_def)
  show fin: "rem - of_nat (length data) = 0 \<or> pending_rest r' = []"
  proof (cases "unat rem \<le> length (pending_rest r)")
    case True
    then have "unat ?chunk = unat rem" using pc(1) by simp
    then have "?chunk = rem" by (simp only: word_unat_eq_iff)
    then show ?thesis unfolding chunk by simp
  next
    case False
    then show ?thesis using pc(1,2) by (simp add: r')
  qed
  show "put_pending d p pos rem n r w =
    (if data = [] then (True, pos, rem, n, r, w)
     else case stream_write d p pos data w of
       (False, w1) \<Rightarrow> (False, pos, rem, n, r, w1)
     | (True, w1) \<Rightarrow> (True, pos + length data, rem - of_nat (length data), n + of_nat (length data), r', w1))"
  proof (cases "data = []")
    case True
    then have "rem = 0 \<or> pending_rest r = []" by (simp add: data_def unat_eq_0)
    with True assms(1) show ?thesis by (simp add: put_pending_done)
  next
    case False
    then have "0 < rem" "pending_offset r < of_nat (length (pending_bytes r))"
      using assms(1) by (auto simp: data_def pending_more_iff word_gt_0)
    moreover have "take (unat ?chunk) (drop (unat (pending_offset r)) (pending_bytes r)) = data"
      using pc(1) by (simp add: data_def pending_rest_def min_def)
    ultimately have "put_pending d p pos rem n r w = (case stream_write d p pos data w of
        (False, w1) \<Rightarrow> (False, pos, rem, n, r, w1)
      | (True, w1) \<Rightarrow> put_pending d p (pos + length data) (rem - ?chunk) (n + ?chunk) r' w1)"
      by (subst put_pending.simps) (simp add: Let_def r' split: prod.splits bool.splits)
    moreover have "put_pending d p (pos + length data) (rem - ?chunk) (n + ?chunk) r' w1 =
        (True, pos + length data, rem - ?chunk, n + ?chunk, r', w1)" for w1
      using wf fin unfolding chunk by (rule put_pending_done)
    ultimately show ?thesis using False unfolding chunk by (simp split: prod.splits bool.splits)
  qed
qed

lemma put_receive_success:
  "put_receive d p fd bufsize pos rem n w = (True, n', w') \<Longrightarrow> files w p = Some s \<Longrightarrow> length s = pos \<Longrightarrow>
   \<exists>data. files w' p = Some (s @ data) \<and> length data = unat rem \<and> n' = n + rem \<and>
     stream_of (inbox (socks w fd)) = data @ stream_of (inbox (socks w' fd)) \<and>
     sent (socks w' fd) = sent (socks w fd) \<and> send_plan (socks w' fd) = send_plan (socks w fd)"
proof (induction d p fd bufsize pos rem n w arbitrary: s rule: put_receive.induct)
  case (1 d p fd bufsize pos rem n w)
  show ?case
  proof (cases "rem > 0")
    case True
    obtain bs w1 w2 where rc: "recv_data_with_timeout fd (unat (min bufsize rem)) 5000 w = (Some bs, w1)"
      and bs: "bs \<noteq> []" and sw: "stream_write d p pos bs w1 = (True, w2)"
      and rec: "put_receive d p fd bufsize (pos + length bs) (rem - of_nat (length bs))
          (n + of_nat (length bs)) w2 = (True, n', w')"
      using "1.prems"(1) True
      by (subst (asm) put_receive.simps) (auto simp: Let_def split: prod.splits option.splits if_splits bool.splits)
    have len: "length bs \<le> unat rem"
      using recv_data_length [OF rc] by (simp add: unat_min_u64)
    then have u: "unat (of_nat (length bs) :: u64) = length bs"
      using unat_lt_u64 [of rem] by (intro unat_of_nat_u64) simp
    with len have rem: "unat (rem - of_nat (length bs)) = unat rem - length bs"
      by (simp add: unat_diff_u64 word_le_nat_alt)
    have "files w2 p = Some (s @ bs)"
      using stream_write_append [OF sw] recv_data_frame(1) [OF rc] "1.prems"(2,3) by simp
    from "1.IH" [OF True refl rc [symmetric] refl bs sw [symmetric] refl rec this] "1.prems"(3)
    obtain data where data: "files w' p = Some ((s @ bs) @ data)"
      "length data = unat (rem - of_nat (length bs))"
      "n' = n + of_nat (length bs) + (rem - of_nat (length bs))"
      "stream_of (inbox (socks w2 fd)) = data @ stream_of (inbox (socks w' fd))"
      "sent (socks w' fd) = sent (socks w2 fd)" "send_plan (socks w' fd) = send_plan (socks w2 fd)"
      by auto
    then show ?thesis
      using recv_data_stream [OF rc] stream_write_socks [OF sw] recv_data_frame(3,4) [OF rc] rem len
      by (intro exI [of _ "bs @ data"]) auto
  next
    case False
    with "1.prems" show ?thesis by (subst (asm) put_receive.simps) (auto simp: word_gt_0)
  qed
qed


section \<open>One round of an upload\<close>

lemma staged_frame [simp]:
  "client_fd (staged r) = client_fd r" "offset (staged r) = offset r"
  "total_bytes (staged r) = total_bytes r" "filename (staged r) = filename r"
  "pending_rest (staged r) = pending_rest r" "pending_wf (staged r) = pending_wf r"
  "pending_offset (staged r) = pending_offset r" "pending_bytes (staged r) = pending_bytes r"
  by (simp_all add: staged_def pending_rest_def pending_wf_def)

text \<open>The staging file holds what has been uploaded so far, \<open>s\<close>, and more is to come.\<close>

definition put_ready :: "path \<Rightarrow> request \<Rightarrow> bytes \<Rightarrow> world \<Rightarrow> bool" where
  "put_ready dir r s w \<longleftrightarrow> is_valid_filename (filename r) \<and> pending_wf r \<and>
     unat (offset r) = length s \<and> length s < unat (total_bytes r) \<and>
     (offset r \<noteq> 0 \<longrightarrow> files w (join_path dir (staging_filename r)) = Some s)"

lemma serve_put_unfold:
  assumes "put_ready dir r s w"
  defines "p \<equiv> join_path dir (staging_filename (staged r))"
  shows "serve_put d dir budget r w =
    (case (if offset r = 0 then open_trunc d p w else (True, w)) of
       (False, w1) \<Rightarrow> (False, 0, staged r, send_error (client_fd r) ''cannot create file'' w1)
     | (True, w1) \<Rightarrow>
         if \<not> open_update d p w1 then
           (False, 0, staged r, send_error (client_fd r) ''cannot open file'' w1)
         else if 2 ^ 63 \<le> unat (offset r) then
           (False, 0, staged r, send_error (client_fd r) ''file seek error'' w1)
         else put_transfer d p (min budget (total_bytes r - offset r)) (staged r) w1)"
proof -
  have "total_bytes r \<noteq> 0" "is_valid_filename (filename r)"
    using assms(1) by (auto simp: put_ready_def)
  then show ?thesis
    unfolding serve_put_def p_def Let_def staged_frame by simp
qed

lemma put_transfer_success:
  assumes "put_transfer d p N r w = (True, n, r', w')" "pending_wf r"
    and "files w p = Some s" "length s = unat (offset r)"
  shows "\<exists>data. files w' p = Some (s @ data) \<and> length data = unat N \<and> n = N \<and>
     upload_stream r w = data @ upload_stream r' w' \<and> pending_wf r' \<and>
     r' = r\<lparr>pending_offset := pending_offset r'\<rparr> \<and>
     sent (socks w' (client_fd r)) = sent (socks w (client_fd r)) \<and>
     send_plan (socks w' (client_fd r)) = send_plan (socks w (client_fd r))"
proof -
  define D where "D = take (unat N) (pending_rest r)"
  define r2 where "r2 = r\<lparr>pending_offset := pending_offset r + of_nat (length D)\<rparr>"
  note pp = put_pending_spec [OF assms(2), where rem = N, folded D_def, folded r2_def]
  obtain w2 where w2: "put_pending d p (unat (offset r)) N 0 r w =
      (True, unat (offset r) + length D, N - of_nat (length D), of_nat (length D), r2, w2)"
    and f2: "files w2 p = Some (s @ D)" and s2: "socks w2 = socks w" and
    rc: "put_receive d p (client_fd r) (min 8192 N) (unat (offset r) + length D)
       (N - of_nat (length D)) (of_nat (length D)) w2 = (True, n, w')" and r': "r' = r2"
  proof (cases "D = []")
    case True
    then show ?thesis
      using assms(1,3) pp(1,4) by (intro that [of w]) (auto simp: put_transfer_def Let_def split: prod.splits)
  next
    case False
    then obtain w1 where sw: "stream_write d p (unat (offset r)) D w = (True, w1)"
      using assms(1) pp(1) by (auto simp: put_transfer_def Let_def split: prod.splits bool.splits)
    show ?thesis
      using assms(1,3,4) pp(1) False sw stream_write_append [OF sw assms(3,4)] stream_write_socks [OF sw]
      by (intro that [of w1]) (auto simp: put_transfer_def Let_def split: prod.splits)
  qed
  from put_receive_success [OF rc f2] assms(4) obtain E where E: "files w' p = Some ((s @ D) @ E)"
    "length E = unat (N - of_nat (length D))" "n = of_nat (length D) + (N - of_nat (length D))"
    "stream_of (inbox (socks w2 (client_fd r))) = E @ stream_of (inbox (socks w' (client_fd r)))"
    "sent (socks w' (client_fd r)) = sent (socks w2 (client_fd r))"
    "send_plan (socks w' (client_fd r)) = send_plan (socks w2 (client_fd r))"
    by auto
  have fd: "client_fd r2 = client_fd r" by (simp add: r2_def)
  have "length D \<le> unat N" by (simp add: D_def)
  then have "length (D @ E) = unat N" using E(2) pp(5) by simp
  moreover have "upload_stream r w = (D @ E) @ upload_stream r' w'"
  proof (cases "E = []")
    case True
    then show ?thesis using pp(3) E(4) s2 r' by (simp add: upload_stream_def fd)
  next
    case False
    then have "pending_rest r2 = []" using E(2) pp(6) by (auto simp: unat_eq_0)
    then show ?thesis using pp(3) E(4) s2 r' by (simp add: upload_stream_def fd)
  qed
  ultimately show ?thesis
    using E r' s2 pp(2) by (intro exI [of _ "D @ E"]) (simp add: r2_def)
qed


lemma put_share:
  "put_ready dir r s w \<Longrightarrow>
   unat (min budget (total_bytes r - offset r)) = min (unat budget) (unat (total_bytes r) - length s)"
  by (simp add: put_ready_def unat_min_u64 unat_diff_u64 word_le_nat_alt)

lemma serve_put_success:
  assumes "put_ready dir r s w" "serve_put d dir budget r w = (True, n, r', w')"
  defines "p \<equiv> join_path dir (staging_filename (staged r))"
  shows "\<exists>data. files w' p = Some (s @ data) \<and>
     length data = min (unat budget) (unat (total_bytes r) - length s) \<and> unat n = length data \<and>
     upload_stream r w = data @ upload_stream r' w' \<and> pending_wf r' \<and>
     r' = (staged r)\<lparr>pending_offset := pending_offset r'\<rparr> \<and>
     sent (socks w' (client_fd r)) = sent (socks w (client_fd r)) \<and>
     send_plan (socks w' (client_fd r)) = send_plan (socks w (client_fd r))"
proof -
  let ?N = "min budget (total_bytes r - offset r)"
  obtain w1 where w1: "(if offset r = 0 then open_trunc d p w else (True, w)) = (True, w1)"
    and pt: "put_transfer d p ?N (staged r) w1 = (True, n, r', w')"
    using assms(2) serve_put_unfold [OF assms(1), of d budget]
    by (auto simp: p_def split: prod.splits bool.splits if_splits)
  have wf: "pending_wf (staged r)" and len: "length s = unat (offset (staged r))"
    using assms(1) by (auto simp: put_ready_def)
  have f1: "files w1 p = Some s" and k1: "socks w1 = socks w"
    using w1 assms(1)
    by (auto simp: open_trunc_def put_ready_def p_def staged_def split: if_splits)
  have "upload_stream (staged r) w1 = upload_stream r w"
    by (simp add: upload_stream_def k1)
  with put_transfer_success [OF pt wf f1 len] put_share [OF assms(1), of budget] k1 show ?thesis
    by auto
qed

lemma put_transfer_other:
  assumes "put_transfer d p N r w = (b, n, r', w')"
  shows "(\<forall>q. q \<noteq> p \<longrightarrow> files w' q = files w q) \<and>
    (\<forall>fd'. fd' \<noteq> client_fd r \<longrightarrow> socks w' fd' = socks w fd') \<and> staging_filename r' = staging_filename r \<and>
    now w \<le> now w'"
proof -
  obtain b1 pos rem n1 r2 w2 where pp: "put_pending d p (unat (offset r)) N 0 r w = (b1, pos, rem, n1, r2, w2)"
    by (metis prod_cases6)
  have "staging_filename r2 = staging_filename r"
    using put_pending_other [OF pp] by (metis request.select_convs(16) request.surjective request.update_convs(15))
  then show ?thesis
    using assms put_pending_other [OF pp] pp
    by (cases b1) (auto simp: put_transfer_def Let_def split: prod.splits dest!: put_receive_other)
qed

lemma open_trunc_other:
  "open_trunc d p w = (b, w') \<Longrightarrow> (\<forall>q. q \<noteq> p \<longrightarrow> files w' q = files w q) \<and> socks w' = socks w \<and> now w' = now w"
  by (auto simp: open_trunc_def split: if_splits)

lemma serve_put_other:
  assumes "serve_put d dir budget r w = (b, n, r', w')"
  shows "(\<forall>q. q \<noteq> join_path dir (staging_filename r') \<longrightarrow> files w' q = files w q) \<and>
    (\<forall>fd'. fd' \<noteq> client_fd r \<longrightarrow> socks w' fd' = socks w fd') \<and>
    (is_valid_filename (filename r) \<longrightarrow> staging_filename r' = staging_filename (staged r)) \<and>
    now w \<le> now w'"
proof -
  let ?p = "join_path dir (staging_filename (staged r))"
  obtain b1 w1 where w1: "(if offset r = 0 then open_trunc d ?p w else (True, w)) = (b1, w1)" by fastforce
  then have o1: "(\<forall>q. q \<noteq> ?p \<longrightarrow> files w1 q = files w q) \<and> socks w1 = socks w \<and> now w1 = now w"
    using open_trunc_other [of d ?p w] by (auto split: if_splits)
  consider (invalid) "\<not> is_valid_filename (filename r)"
    | (empty) "is_valid_filename (filename r)" "total_bytes r = 0"
    | (opened) "is_valid_filename (filename r)" "total_bytes r \<noteq> 0" by blast
  then show ?thesis
  proof cases
    case invalid
    with assms show ?thesis by (auto simp: serve_put_def)
  next
    case empty
    obtain b2 w2 where ot: "open_trunc d ?p w = (b2, w2)" by fastforce
    with assms empty have "w' = w2" "r' = staged r" by (simp_all add: serve_put_def Let_def)
    with open_trunc_other [OF ot] show ?thesis by simp
  next
    case opened
    let ?N = "min budget (total_bytes r - offset r)"
    have "(\<exists>m. w' = send_error (client_fd r) m w1 \<and> r' = staged r) \<or>
        put_transfer d ?p ?N (staged r) w1 = (b, n, r', w')"
      using assms w1 opened by (cases b1) (auto simp: serve_put_def Let_def split: if_splits)
    then show ?thesis using put_transfer_other [of d ?p ?N "staged r" w1 b n r' w'] o1 by auto
  qed
qed


section \<open>A prompt client\<close>

text \<open>Every segment arrives within the five seconds a receive waits, and carries data.\<close>

fun prompt_event :: "recv_event \<Rightarrow> bool" where
  "prompt_event (Segment delay b) \<longleftrightarrow> delay \<le> 5000000000 \<and> b \<noteq> []"
| "prompt_event _ \<longleftrightarrow> False"

definition prompt :: "int \<Rightarrow> world \<Rightarrow> bool" where
  "prompt fd w \<longleftrightarrow> list_all prompt_event (inbox (socks w fd))"

definition disk_accepts :: "disk \<Rightarrow> path \<Rightarrow> bool" where
  "disk_accepts d p \<longleftrightarrow> can_create d p \<and> can_update d p \<and> (\<forall>n. can_write d p n)"

lemma recv_data_prompt:
  assumes "prompt fd w" "stream_of (inbox (socks w fd)) \<noteq> []" "0 < n"
  shows "\<exists>bs w'. recv_data_with_timeout fd n 5000 w = (Some bs, w') \<and> bs \<noteq> [] \<and> prompt fd w'"
proof -
  obtain delay b q where q: "inbox (socks w fd) = Segment delay b # q" "delay \<le> 5000000000" "b \<noteq> []"
    using assms(1,2)
    by (cases "inbox (socks w fd)"; cases "hd (inbox (socks w fd))") (auto simp: prompt_def)
  with assms(1,3) show ?thesis
    by (auto simp: recv_data_with_timeout_def sys_select_def sys_recv_def prompt_def Let_def)
qed

lemma stream_write_accepted:
  "disk_accepts d p \<Longrightarrow> files w p = Some s \<Longrightarrow>
   \<exists>w' s'. stream_write d p pos data w = (True, w') \<and> files w' p = Some s' \<and> socks w' = socks w"
  by (simp add: stream_write_def Let_def disk_accepts_def)

lemma put_receive_completes:
  "disk_accepts d p \<Longrightarrow> files w p = Some s \<Longrightarrow> prompt fd w \<Longrightarrow> 0 < bufsize \<Longrightarrow>
   unat rem \<le> length (stream_of (inbox (socks w fd))) \<Longrightarrow>
   \<exists>n' w'. put_receive d p fd bufsize pos rem n w = (True, n', w') \<and> prompt fd w'"
proof (induction d p fd bufsize pos rem n w arbitrary: s rule: put_receive.induct)
  case (1 d p fd bufsize pos rem n w)
  show ?case
  proof (cases "rem > 0")
    case True
    then have "stream_of (inbox (socks w fd)) \<noteq> []" "0 < unat (min bufsize rem)"
      using "1.prems"(4,5) by (auto simp: word_less_nat_alt unat_min_u64)
    then obtain bs w1 where rc: "recv_data_with_timeout fd (unat (min bufsize rem)) 5000 w = (Some bs, w1)"
      and bs: "bs \<noteq> []" and pr: "prompt fd w1"
      using recv_data_prompt [OF "1.prems"(3)] by blast
    have "files w1 p = Some s" using recv_data_frame(1) [OF rc] "1.prems"(2) by simp
    then obtain w2 s2 where sw: "stream_write d p pos bs w1 = (True, w2)" "files w2 p = Some s2"
      "socks w2 = socks w1" using stream_write_accepted "1.prems"(1) by metis
    have len: "length bs \<le> unat rem" using recv_data_length [OF rc] by (simp add: unat_min_u64)
    then have u: "unat (of_nat (length bs) :: u64) = length bs"
      using unat_lt_u64 [of rem] by (intro unat_of_nat_u64) simp
    with len have "unat (rem - of_nat (length bs)) = unat rem - length bs"
      by (simp add: unat_diff_u64 word_le_nat_alt)
    then have "unat (rem - of_nat (length bs)) \<le> length (stream_of (inbox (socks w2 fd)))"
      using recv_data_stream [OF rc] "1.prems"(5) sw(3) by simp
    with "1.IH" [OF True refl rc [symmetric] refl bs sw(1) [symmetric] refl "1.prems"(1) sw(2)] pr sw(3)
      "1.prems"(4)
    have "\<exists>n' w'. put_receive d p fd bufsize (pos + length bs) (rem - of_nat (length bs))
        (n + of_nat (length bs)) w2 = (True, n', w') \<and> prompt fd w'" by (simp add: prompt_def)
    then show ?thesis
      using True rc bs sw(1) by (subst put_receive.simps) (simp add: Let_def)
  next
    case False
    with "1.prems"(3) show ?thesis by (subst put_receive.simps) simp
  qed
qed

lemma put_transfer_completes:
  assumes "disk_accepts d p" "files w p = Some s" "pending_wf r" "prompt (client_fd r) w" "0 < N"
    and "unat N \<le> length (upload_stream r w)"
  shows "\<exists>n r' w'. put_transfer d p N r w = (True, n, r', w') \<and> prompt (client_fd r) w'"
proof -
  define D where "D = take (unat N) (pending_rest r)"
  note pp = put_pending_spec [OF assms(3), where rem = N, folded D_def]
  obtain pos n2 r2 w2 s2 where w2: "put_pending d p (unat (offset r)) N 0 r w =
      (True, pos, N - of_nat (length D), n2, r2, w2)" "files w2 p = Some s2" "socks w2 = socks w"
  proof (cases "D = []")
    case True
    then show ?thesis using assms(2) pp(1) by (intro that [of _ _ _ w]) auto
  next
    case False
    obtain w1 s1 where "stream_write d p (unat (offset r)) D w = (True, w1)" "files w1 p = Some s1"
      "socks w1 = socks w" using stream_write_accepted assms(1,2) by metis
    with False show ?thesis using pp(1) by (intro that [of _ _ _ w1]) auto
  qed
  have "unat (N - of_nat (length D)) \<le> length (stream_of (inbox (socks w2 (client_fd r))))"
    using pp(5) assms(6) w2(3) by (simp add: D_def upload_stream_def)
  moreover have "0 < min 8192 N" using assms(5) by (simp add: min_def)
  moreover have "prompt (client_fd r) w2" using assms(4) w2(3) by (simp add: prompt_def)
  ultimately obtain n' w' where "put_receive d p (client_fd r) (min 8192 N) pos
      (N - of_nat (length D)) n2 w2 = (True, n', w')" "prompt (client_fd r) w'"
    using put_receive_completes [OF assms(1) w2(2)] by blast
  with w2(1) show ?thesis by (simp add: put_transfer_def Let_def)
qed

lemma serve_put_completes:
  assumes "put_ready dir r s w" "0 < budget" "length s < 2 ^ 63"
    and "disk_accepts d (join_path dir (staging_filename (staged r)))" "prompt (client_fd r) w"
    and "unat (total_bytes r) \<le> length s + length (upload_stream r w)"
  shows "\<exists>n r' w'. serve_put d dir budget r w = (True, n, r', w') \<and> prompt (client_fd r) w'"
proof -
  let ?p = "join_path dir (staging_filename (staged r))" and ?N = "min budget (total_bytes r - offset r)"
  have off: "unat (offset r) = length s" "length s < unat (total_bytes r)"
    using assms(1) by (auto simp: put_ready_def)
  obtain w1 where w1: "(if offset r = 0 then open_trunc d ?p w else (True, w)) = (True, w1)"
    and f1: "files w1 ?p = Some s" and k1: "socks w1 = socks w"
  proof (cases "offset r = 0")
    case True
    with off(1) assms(4) show ?thesis
      by (intro that [of "w\<lparr>files := (files w)(?p \<mapsto> [])\<rparr>"]) (auto simp: open_trunc_def disk_accepts_def)
  next
    case False
    with assms(1) show ?thesis by (intro that [of w]) (auto simp: put_ready_def staged_def)
  qed
  have up: "open_update d ?p w1" using assms(3,4) f1 by (simp add: open_update_def disk_accepts_def)
  have "0 < unat ?N" "unat ?N \<le> length (upload_stream (staged r) w1)"
    using put_share [OF assms(1), of budget] off assms(2,6) k1
    by (auto simp: word_less_nat_alt upload_stream_def)
  moreover have "pending_wf (staged r)" "prompt (client_fd (staged r)) w1"
    using assms(1,5) k1 by (auto simp: put_ready_def prompt_def)
  ultimately have "\<exists>n r' w'. put_transfer d ?p ?N (staged r) w1 = (True, n, r', w') \<and>
      prompt (client_fd (staged r)) w'"
    using put_transfer_completes [OF assms(4) f1, of "staged r" ?N] by (simp add: word_less_nat_alt)
  then show ?thesis
    using serve_put_unfold [OF assms(1), of d budget] w1 up off(1) assms(3) by simp
qed

section \<open>Properties\<close>


definition demo_put :: request where
  "demo_put = new_request\<lparr>request_id := 7, client_fd := 4, op := PUT, filename := ''f'', total_bytes := 5,
     pending_bytes := ''he''\<rparr>"

lemma demo_put_ready: "put_ready ''d'' demo_put [] (demo_world Map.empty [Segment 9 ''llo''])"
  by (simp add: put_ready_def demo_put_def new_request_def is_valid_filename_def pending_wf_def)

lemma demo_put_succeeds:
  "\<exists>n r' w'. serve_put healthy_disk ''d'' 5 demo_put (demo_world Map.empty [Segment 9 ''llo'']) = (True, n, r', w')"
  using serve_put_completes [OF demo_put_ready, of 5 healthy_disk]
  by (auto simp: disk_accepts_def healthy_disk_def prompt_def demo_put_def new_request_def
      upload_stream_def pending_rest_def)


text \<open>
  If the client sends its bytes without a pause of more than five seconds and
  the disk accepts them, a PUT round succeeds: it neither times out nor waits
  for more bytes than the upload has.
\<close>

theorem serve_put_prompt_succeeds:
  assumes "put_ready dir r s w" and "0 < budget" and "length s < 2 ^ 63"
    and "disk_accepts d (join_path dir (staging_filename (staged r)))" and "prompt (client_fd r) w"
    and "unat (total_bytes r) \<le> length s + length (upload_stream r w)"
  shows "\<exists>n r' w'. serve_put d dir budget r w = (True, n, r', w')"
  using serve_put_completes [OF assms] by blast

theorem serve_put_prompt_succeeds_witness:
  "\<exists>n r' w'. serve_put healthy_disk ''d'' 2 demo_put (demo_world Map.empty [Segment 9 ''llo'']) = (True, n, r', w')"
  by (rule serve_put_prompt_succeeds [OF demo_put_ready])
     (simp_all add: disk_accepts_def healthy_disk_def prompt_def demo_put_def new_request_def
      upload_stream_def pending_rest_def)

text \<open>
  Whatever happens in a PUT round, errors included, no file other than the
  request's own staging file is created, changed or removed, and no other
  connection is touched: a download of the final name cannot see a partly
  written upload.
\<close>

theorem serve_put_touches_staging_only:
  "case serve_put d dir budget r w of (b, n, r', w') \<Rightarrow>
     files w' = (files w)(join_path dir (staging_filename r') := files w' (join_path dir (staging_filename r'))) \<and>
     socks w' = (socks w)(client_fd r := socks w' (client_fd r))"
proof -
  obtain b n r' w' where e: "serve_put d dir budget r w = (b, n, r', w')" by (metis prod_cases4)
  from serve_put_other [OF e] e show ?thesis by (auto simp: fun_eq_iff)
qed

end
