(* ===== verification/Whole_Transfer.thy ===== *)
theory Whole_Transfer
  imports Worker Get_Service Put_Service
begin

text \<open>
  Whole transfers: the rounds of one request, from its first scheduling decision
  to its end, with the other threads at work between the rounds. What they do
  between two rounds is a function on worlds; \<open>calm\<close> says that it leaves
  alone one file and one connection, and nothing else is assumed of it. A list
  of such functions, one per round, bounds the number of rounds.
\<close>

section \<open>The rounds of a request\<close>

definition calm :: "path \<Rightarrow> int \<Rightarrow> (world \<Rightarrow> world) \<Rightarrow> bool" where
  "calm p fd i \<longleftrightarrow> (\<forall>w. files (i w) p = files w p \<and> socks (i w) fd = socks w fd)"

primrec transfer ::
  "worker_env \<Rightarrow> (world \<Rightarrow> world) list \<Rightarrow> request \<Rightarrow> world \<Rightarrow> worker_outcome \<times> world" where
  "transfer e [] r w = (Requeued r, w)"
| "transfer e (i # others) r w =
     (case get_budget (we_sched e) r of
        (budget, r1) \<Rightarrow>
          (case worker_process e (r1, budget) (i w) of
             (Failed r2, w2) \<Rightarrow> (Failed r2, w2)
           | (Requeued r2, w2) \<Rightarrow> transfer e others r2 w2
           | (Finished r2, w2) \<Rightarrow> (Finished r2, w2)))"

lemma stamp_start_frame [simp]:
  "offset (stamp_start w r) = offset r" "total_bytes (stamp_start w r) = total_bytes r"
  "client_fd (stamp_start w r) = client_fd r" "filename (stamp_start w r) = filename r"
  "op (stamp_start w r) = op r" "deficit (stamp_start w r) = deficit r"
  "response_sent (stamp_start w r) = response_sent r" "rounds (stamp_start w r) = rounds r"
  "staging_filename (stamp_start w r) = staging_filename r" "request_id (stamp_start w r) = request_id r"
  "pending_rest (stamp_start w r) = pending_rest r" "pending_wf (stamp_start w r) = pending_wf r"
  "upload_stream (stamp_start w r) w' = upload_stream r w'" "left (stamp_start w r) = left r"
  by (simp_all add: stamp_start_def pending_rest_def pending_wf_def upload_stream_def left_def)

lemma stamp_finish_frame [simp]:
  "total_bytes (stamp_finish w r) = total_bytes r" "rounds (stamp_finish w r) = rounds r"
  "client_fd (stamp_finish w r) = client_fd r" "filename (stamp_finish w r) = filename r"
  "request_id (stamp_finish w r) = request_id r" "op (stamp_finish w r) = op r"
  by (simp_all add: stamp_finish_def)

lemma settle_frame [simp]:
  "total_bytes (settle_round e b n r) = total_bytes r" "client_fd (settle_round e b n r) = client_fd r"
  "filename (settle_round e b n r) = filename r" "op (settle_round e b n r) = op r"
  "response_sent (settle_round e b n r) = response_sent r" "rounds (settle_round e b n r) = rounds r + 1"
  "staging_filename (settle_round e b n r) = staging_filename r"
  "request_id (settle_round e b n r) = request_id r"
  "pending_rest (settle_round e b n r) = pending_rest r" "pending_wf (settle_round e b n r) = pending_wf r"
  "upload_stream (settle_round e b n r) w = upload_stream r w"
  by (simp_all add: settle_round_def Let_def pending_rest_def pending_wf_def upload_stream_def)

lemma settle_offset [simp]:
  "unat (offset (settle_round e b n r)) = unat (offset r) + min (unat n) (left r)"
  "left (settle_round e b n r) = left r - unat n"
  "deficit (settle_round e b n r) = deficit (account (we_sched e) n r)"
  using account_offset [of "we_sched e" n r] account_left [of "we_sched e" n r]
  by (simp_all add: settle_round_def Let_def left_def)

lemma get_budget_keeps:
  assumes "get_budget s r = (b, r1)"
  shows "filename r1 = filename r" "total_bytes r1 = total_bytes r" "offset r1 = offset r"
    "client_fd r1 = client_fd r" "op r1 = op r" "response_sent r1 = response_sent r"
    "rounds r1 = rounds r" "left r1 = left r" "request_id r1 = request_id r"
    "staging_filename r1 = staging_filename r" "pending_wf r1 = pending_wf r"
    "pending_rest r1 = pending_rest r"
proof -
  obtain x where "r1 = r\<lparr>deficit := x\<rparr>"
    using get_budget_only_deficit [of s r] assms by auto
  then show "filename r1 = filename r" "total_bytes r1 = total_bytes r" "offset r1 = offset r"
    "client_fd r1 = client_fd r" "op r1 = op r" "response_sent r1 = response_sent r"
    "rounds r1 = rounds r" "left r1 = left r" "request_id r1 = request_id r"
    "staging_filename r1 = staging_filename r" "pending_wf r1 = pending_wf r"
    "pending_rest r1 = pending_rest r"
    by (simp_all add: left_def pending_wf_def pending_rest_def)
qed

section \<open>Downloads\<close>

text \<open>
  What holds between the rounds of a download of contents \<open>c\<close>. A DRR request
  that has used no whole line of its deficit still has less of it than it has
  bytes left, so the deficit cannot wrap around.
\<close>

definition get_state :: "worker_env \<Rightarrow> bytes \<Rightarrow> request \<Rightarrow> world \<Rightarrow> bool" where
  "get_state e c r w \<longleftrightarrow> get_ready (we_disk e) (we_dir e) r c w \<and> op r = GET \<and>
     0 < we_packetization e \<and> (policy (we_sched e) \<in> {RR, DRR} \<longrightarrow> 0 < quantum (we_sched e)) \<and>
     (policy (we_sched e) = DRR \<longrightarrow> deficit r = 0 \<or>
        unat (deficit r) < left r \<and> unat (quantum (we_sched e)) < 2 ^ 63)"

text \<open>How much nearer to the end a round brings the transfer at least.\<close>

definition credit :: "worker_env \<Rightarrow> request \<Rightarrow> nat" where
  "credit e r = (if policy (we_sched e) = DRR then unat (deficit r) else 0)"

definition pace :: "worker_env \<Rightarrow> nat" where
  "pace e = (case policy (we_sched e) of
     FCFS \<Rightarrow> 2 ^ 64 | SJF \<Rightarrow> 2 ^ 64 | RR \<Rightarrow> 1 | DRR \<Rightarrow> unat (quantum (we_sched e)))"

lemma get_ready_left:
  assumes "get_ready d dir r c w"
  shows "left r = length c - unat (offset r)" "length (drop (unat (offset r)) c) = left r" "left r < 2 ^ 63"
proof -
  have "open_read d (join_path dir (filename r)) w = Some c" "length c = unat (total_bytes r)"
    using assms by (auto simp: get_ready_def)
  moreover from this(1) have "length c < 2 ^ 63" by (rule file_lines.content_bound)
  ultimately show "left r = length c - unat (offset r)" "length (drop (unat (offset r)) c) = left r"
    "left r < 2 ^ 63" by (auto simp: left_def)
qed

lemma get_state_fits: "get_state e c r w \<Longrightarrow> grant_fits (we_sched e) r"
  using get_ready_left(3) [of "we_disk e" "we_dir e" r c w] unat_lt_u64 [of "quantum (we_sched e)"]
  by (auto simp: get_state_def grant_fits_def)

lemma get_ready_cong:
  "filename r' = filename r \<Longrightarrow> total_bytes r' = total_bytes r \<Longrightarrow> offset r' = offset r \<Longrightarrow>
   client_fd r' = client_fd r \<Longrightarrow> get_ready d dir r' c w = get_ready d dir r c w"
  by (simp add: get_ready_def)

text \<open>The lines that a budget of the scheduler takes.\<close>

lemma scheduled_round:
  assumes "get_state e c r w" "0 < left r"
  defines "rest \<equiv> drop (unat (offset r)) c" and "b \<equiv> unat (fst (get_budget (we_sched e) r))"
  defines "n \<equiv> length (get_round b (policy (we_sched e) = RR) rest)"
  assumes "n < left r"
  shows "policy (we_sched e) = DRR \<Longrightarrow> b = unat (deficit r) + unat (quantum (we_sched e)) \<and> n \<le> b \<and>
      b - n < left r - n"
    and "policy (we_sched e) \<noteq> DRR \<Longrightarrow> policy (we_sched e) = RR \<and> 0 < n"
    and "policy (we_sched e) = DRR \<Longrightarrow> unat (quantum (we_sched e)) < 2 ^ 63"
proof -
  have ready: "get_ready (we_disk e) (we_dir e) r c w" using assms(1) by (simp add: get_state_def)
  note lr = get_ready_left [OF ready, folded rest_def]
  obtain L R where L: "lines_of rest = L @ R" "get_round b (policy (we_sched e) = RR) rest = concat L"
    "length (concat L) \<le> b \<or> policy (we_sched e) = RR \<and> length L = 1"
    "R \<noteq> [] \<Longrightarrow> b < length (concat L) + length (hd R)"
    "get_a14 b (policy (we_sched e) = RR) rest \<longleftrightarrow> b < length (concat L)"
    by (rule round_run) blast
  have n: "n = length (concat L)" using L(2) by (simp add: n_def)
  have "R \<noteq> []"
  proof
    assume "R = []"
    then have "concat L = rest" using L(1) concat_lines_of [of rest] by simp
    then show False using assms(6) n lr(2) by simp
  qed
  moreover have "rest = concat L @ concat R" by (metis L(1) concat_append concat_lines_of)
  ultimately have R: "n + length (hd R) \<le> left r" "b < n + length (hd R)"
    using lr(2) L(4) n by (cases R; auto)+
  have short: "b < left r" using R by linarith
  have b: "policy (we_sched e) = DRR \<longrightarrow> b = unat (deficit r) + unat (quantum (we_sched e))"
    "policy (we_sched e) \<notin> {FCFS, SJF}"
    using short get_state_fits [OF assms(1)] assms(2)
    by (auto simp: b_def get_budget_def Let_def remaining_zero unat_simps unat_remaining
        grant_fits_def min_def split: if_splits scheduling_policy.splits)
  show "policy (we_sched e) = DRR \<Longrightarrow> b = unat (deficit r) + unat (quantum (we_sched e)) \<and> n \<le> b \<and>
      b - n < left r - n"
    using b R L(3) n by auto
  show "policy (we_sched e) = DRR \<Longrightarrow> unat (quantum (we_sched e)) < 2 ^ 63"
    using b short lr(3) by auto
  show "policy (we_sched e) = RR \<and> 0 < n" if "policy (we_sched e) \<noteq> DRR"
  proof -
    have rr: "policy (we_sched e) = RR" using that b by (cases "policy (we_sched e)") auto
    moreover have "0 < b"
      using get_budget_pos [OF get_state_fits [OF assms(1)] assms(2)] by (simp add: b_def)
    moreover have "rest \<noteq> []" using lr(2) assms(2) by auto
    ultimately have "get_round b (policy (we_sched e) = RR) rest \<noteq> []"
      by (intro get_round_progress) auto
    then show ?thesis using rr unfolding n_def by blast
  qed
qed

lemma account_deficit_cong:
  "deficit r' = deficit r \<Longrightarrow> total_bytes r' = total_bytes r \<Longrightarrow> offset r' = offset r \<Longrightarrow>
   deficit (account s n r') = deficit (account s n r)"
  by (simp add: account_def Let_def remaining_bytes_def)

lemma serve_get_round_elim:
  assumes "get_ready d dir r c w" "0 < pk" "unat (offset r) < length c \<longrightarrow> 0 < budget"
    and "B = get_round (unat budget) ov (drop (unat (offset r)) c)"
  obtains x w' where "serve_get d dir budget ov pk r w =
      (True, of_nat (length B), r\<lparr>response_sent := True, a14_events := x\<rparr>, w')"
    "wire w' (client_fd r) = wire w (client_fd r) @ get_header r @ B" "reliable w' (client_fd r)"
    "files w' = files w" "\<forall>fd'. fd' \<noteq> client_fd r \<longrightarrow> socks w' fd' = socks w fd'"
  using serve_get_round [OF assms(1-3), of ov] unfolding assms(4) by blast

text \<open>The request after a round in which \<open>n\<close> bytes were sent.\<close>

lemma get_process:
  assumes "get_state e c r w" "get_budget (we_sched e) r = (b, r1)"
  defines "rest \<equiv> drop (unat (offset r)) c" and "fd \<equiv> client_fd r"
  defines "B \<equiv> get_round (unat b) (policy (we_sched e) = RR) rest"
  obtains r2 w' where "worker_process e (r1, b) w =
      (if length B < left r then (Requeued r2, w') else (Finished (stamp_finish w' r2), w'))"
    "wire w' fd = wire w fd @ get_header r @ B" "reliable w' fd" "files w' = files w"
    "\<forall>fd'. fd' \<noteq> fd \<longrightarrow> socks w' fd' = socks w fd'"
    "filename r2 = filename r" "total_bytes r2 = total_bytes r" "client_fd r2 = fd" "op r2 = GET"
    "response_sent r2" "rounds r2 = rounds r + 1"
    "unat (offset r2) = unat (offset r) + length B" "left r2 = left r - length B"
    "deficit r2 = deficit (service_round (we_sched e) (of_nat (length B)) r)"
proof -
  let ?s = "we_sched e" and ?r0 = "stamp_start w r1"
  have s1: "r1 = snd (get_budget ?s r)" and sb: "b = fst (get_budget ?s r)" using assms(2) by simp_all
  note k = get_budget_keeps [OF assms(2)]
  have st: "get_ready (we_disk e) (we_dir e) r c w" "op r = GET" "0 < we_packetization e"
    using assms(1) by (simp_all add: get_state_def)
  note lr = get_ready_left [OF st(1), folded rest_def]
  have ready: "get_ready (we_disk e) (we_dir e) ?r0 c w"
    using st(1) by (subst get_ready_cong [of _ r]) (simp_all add: k)
  have "unat (offset ?r0) < length c \<longrightarrow> 0 < b"
    using get_budget_pos [OF get_state_fits [OF assms(1)]] lr(1) sb by (auto simp: k word_less_nat_alt)
  moreover have "B = get_round (unat b) (policy ?s = RR) (drop (unat (offset ?r0)) c)"
    by (simp add: B_def rest_def k)
  ultimately obtain x w' where
    sg: "serve_get (we_disk e) (we_dir e) b (policy ?s = RR) (we_packetization e) ?r0 w =
      (True, of_nat (length B), ?r0\<lparr>response_sent := True, a14_events := x\<rparr>, w')"
    and v: "wire w' (client_fd ?r0) = wire w (client_fd ?r0) @ get_header ?r0 @ B"
      "reliable w' (client_fd ?r0)" "files w' = files w"
      "\<forall>fd'. fd' \<noteq> client_fd ?r0 \<longrightarrow> socks w' fd' = socks w fd'"
    by (rule serve_get_round_elim [OF ready st(3)])
  have "client_fd ?r0 = fd" "get_header ?r0 = get_header r" by (simp_all add: k fd_def get_header_def)
  note w' = v [unfolded this]
  define r2 where "r2 = settle_round e b (of_nat (length B)) (?r0\<lparr>response_sent := True, a14_events := x\<rparr>)"
  have Bl: "length B \<le> left r" using get_round_le [of "unat b" _ rest] lr(2) by (simp add: B_def)
  then have uB: "unat (of_nat (length B) :: u64) = length B"
    using lr(3) by (intro unat_of_nat_u64) simp
  have lx: "left (?r0\<lparr>response_sent := True, a14_events := x\<rparr>) = left r" using k by (simp add: left_def)
  have left2: "left r2 = left r - length B" by (simp add: r2_def lx uB)
  then have more: "should_requeue r2 \<longleftrightarrow> length B < left r" "op r2 = GET"
    using k(5) st(2) by (simp_all add: should_requeue_left r2_def)
  show ?thesis
  proof (rule that [of r2 w'])
    show "worker_process e (r1, b) w =
      (if length B < left r then (Requeued r2, w') else (Finished (stamp_finish w' r2), w'))"
      using sg k(5) st(2) more
      by (simp add: worker_process_def serve_round_def Let_def commit_request_def r2_def [symmetric])
    show "unat (offset r2) = unat (offset r) + length B"
      using Bl by (simp add: r2_def lx uB k)
    show "deficit r2 = deficit (service_round ?s (of_nat (length B)) r)"
      unfolding service_round_def s1 [symmetric] r2_def settle_offset
      by (rule account_deficit_cong) simp_all
  qed (use w' left2 st(2) in \<open>simp_all add: r2_def k fd_def\<close>)
qed

lemma get_state_next:
  assumes "get_state e c r w"
  defines "b \<equiv> unat (fst (get_budget (we_sched e) r))"
  defines "n \<equiv> length (get_round b (policy (we_sched e) = RR) (drop (unat (offset r)) c))"
  assumes "n < left r" "files w' = files w" "reliable w' (client_fd r)"
    and "filename r2 = filename r" "total_bytes r2 = total_bytes r" "client_fd r2 = client_fd r" "op r2 = GET"
    and off: "unat (offset r2) = unat (offset r) + n" and left2: "left r2 = left r - n"
    and "deficit r2 = deficit (service_round (we_sched e) (of_nat n) r)"
  shows "get_state e c r2 w' \<and> left r2 - credit e r2 + pace e \<le> left r - credit e r"
proof -
  let ?s = "we_sched e"
  have ready: "get_ready (we_disk e) (we_dir e) r c w" using assms(1) by (simp add: get_state_def)
  have pos: "0 < left r" using assms(4) by simp
  note sr = scheduled_round [OF assms(1) pos, folded b_def, folded n_def, OF assms(4)]
  have fits: "grant_fits ?s r" using assms(1) by (rule get_state_fits)
  have "unat (offset r2) \<le> length c" using off assms(4) get_ready_left(1) [OF ready] by simp
  then have ready2: "get_ready (we_disk e) (we_dir e) r2 c w'"
    using ready assms(5-9) open_read_files [OF assms(5)] by (auto simp: get_ready_def)
  show ?thesis
  proof (cases "policy ?s = DRR")
    case True
    have b: "b = unat (deficit r) + unat (quantum ?s)" "n \<le> b" "b - n < left r - n"
      and q: "unat (quantum ?s) < 2 ^ 63" using sr(1,3) True by auto
    have u: "unat (of_nat n :: u64) = n"
      using assms(4) get_ready_left(3) [OF ready] by (intro unat_of_nat_u64) simp
    then have "(of_nat n :: u64) \<le> fst (get_budget ?s r)"
      using b(2) by (simp add: word_le_nat_alt b_def)
    from drr_round_deficit [OF True fits pos this] u
    have d: "unat (deficit r2) + n = b" using assms(13) b(1) by simp
    then have "get_state e c r2 w'"
      using assms(1,10) ready2 b(3) left2 q True by (auto simp: get_state_def)
    moreover have "left r2 - credit e r2 + pace e \<le> left r - credit e r"
      using d b left2 True by (simp add: credit_def pace_def)
    ultimately show ?thesis ..
  next
    case False
    with sr(2) have "policy ?s = RR" "0 < n" by auto
    then show ?thesis
      using assms(1,10) ready2 left2 pos by (simp add: get_state_def credit_def pace_def)
  qed
qed

lemma get_state_calm:
  "get_state e c r w \<Longrightarrow> calm (join_path (we_dir e) (filename r)) (client_fd r) i \<Longrightarrow>
   get_state e c r (i w) \<and> wire (i w) (client_fd r) = wire w (client_fd r)"
  by (simp add: get_state_def get_ready_def calm_def open_read_def reliable_def wire_def)

lemma get_transfer:
  "get_state e c r w \<Longrightarrow>
   list_all (calm (join_path (we_dir e) (filename r)) (client_fd r)) others \<Longrightarrow> others \<noteq> [] \<Longrightarrow>
   left r - credit e r \<le> length others * pace e \<Longrightarrow>
   \<exists>r' w'. transfer e others r w = (Finished r', w') \<and>
     wire w' (client_fd r) = wire w (client_fd r) @ get_header r @ drop (unat (offset r)) c"
proof (induction others arbitrary: r w)
  case (Cons i others)
  let ?s = "we_sched e" and ?rest = "drop (unat (offset r)) c" and ?fd = "client_fd r"
  obtain b r1 where g: "get_budget ?s r = (b, r1)" by fastforce
  define B where "B = get_round (unat b) (policy ?s = RR) ?rest"
  have st: "get_state e c r (i w)" and wi: "wire (i w) ?fd = wire w ?fd"
    using get_state_calm Cons.prems(1,2) by simp_all
  obtain r2 w2 where p: "worker_process e (r1, b) (i w) =
      (if length B < left r then (Requeued r2, w2) else (Finished (stamp_finish w2 r2), w2))"
    and w2: "wire w2 ?fd = wire (i w) ?fd @ get_header r @ B" "reliable w2 ?fd" "files w2 = files (i w)"
    and r2: "filename r2 = filename r" "total_bytes r2 = total_bytes r" "client_fd r2 = ?fd" "op r2 = GET"
      "response_sent r2" "unat (offset r2) = unat (offset r) + length B" "left r2 = left r - length B"
      "deficit r2 = deficit (service_round ?s (of_nat (length B)) r)"
    unfolding B_def by (rule get_process [OF st g])
  obtain S where S: "?rest = B @ S" using get_round_prefix unfolding B_def by blast
  have len: "length ?rest = left r" using st get_ready_left(2) by (auto simp: get_state_def)
  show ?case
  proof (cases "length B < left r")
    case False
    with S len have "B = ?rest" by (cases S) auto
    with p False w2(1) wi g show ?thesis by simp
  next
    case True
    have nx: "get_state e c r2 w2 \<and> left r2 - credit e r2 + pace e \<le> left r - credit e r"
      using get_state_next [OF st _ w2(3,2) r2(1-4), unfolded g fst_conv, folded B_def] True r2(6-8) by blast
    have "others \<noteq> []"
    proof
      assume "others = []"
      with Cons.prems(4) nx have z: "left r2 - credit e r2 = 0" by auto
      have "0 < left r2" "credit e r2 < left r2"
        using nx True r2(7) by (auto simp: get_state_def credit_def)
      with z show False by simp
    qed
    moreover have "left r2 - credit e r2 \<le> length others * pace e" using nx Cons.prems(4) by auto
    ultimately have "\<exists>r' w'. transfer e others r2 w2 = (Finished r', w') \<and>
        wire w' ?fd = wire w2 ?fd @ get_header r2 @ drop (unat (offset r2)) c"
      using Cons.IH [of r2 w2] nx Cons.prems(2) r2(1,3) by auto
    moreover have "?rest = B @ drop (unat (offset r2)) c"
      using S r2(6) by (metis append_eq_conv_conj add.commute drop_drop)
    ultimately show ?thesis using p True g w2(1) wi r2(5) by (auto simp: get_header_def)
  qed
qed simp

section \<open>Uploads\<close>

definition staging_path :: "worker_env \<Rightarrow> request \<Rightarrow> path" where
  "staging_path e r = join_path (we_dir e) (staging_filename (staged r))"

definition final_path :: "worker_env \<Rightarrow> request \<Rightarrow> path" where
  "final_path e r = join_path (we_dir e) (filename r)"

text \<open>
  What holds between the rounds of an upload of which \<open>s\<close> is stored: the client
  sends the rest without long pauses, and the disk accepts it.
\<close>

definition put_state :: "worker_env \<Rightarrow> bytes \<Rightarrow> request \<Rightarrow> world \<Rightarrow> bool" where
  "put_state e s r w \<longleftrightarrow> put_ready (we_dir e) r s w \<and> op r = PUT \<and>
     (policy (we_sched e) \<in> {RR, DRR} \<longrightarrow> 0 < quantum (we_sched e)) \<and> deficit r = 0 \<and>
     unat (total_bytes r) < 2 ^ 63 \<and> disk_accepts (we_disk e) (staging_path e r) \<and>
     can_rename (we_disk e) (staging_path e r) (final_path e r) \<and>
     staging_filename (staged r) = staging_name r \<and>
     prompt (client_fd r) w \<and> reliable w (client_fd r) \<and> left r \<le> length (upload_stream r w)"

definition put_header :: "request \<Rightarrow> bytes" where
  "put_header r = (if offset r = 0 then ok_line 0 else [])"

definition put_pace :: "worker_env \<Rightarrow> nat" where
  "put_pace e = (if policy (we_sched e) \<in> {FCFS, SJF} then 2 ^ 64 else unat (quantum (we_sched e)))"

lemma put_ready_left: "put_ready dir r s w \<Longrightarrow> left r = unat (total_bytes r) - length s \<and> 0 < left r"
  by (simp add: put_ready_def left_def)

lemma put_state_fits: "put_state e s r w \<Longrightarrow> grant_fits (we_sched e) r"
  using unat_lt_u64 [of "quantum (we_sched e)"] by (simp add: put_state_def grant_fits_def)

lemma send_response_reliable:
  assumes "reliable w fd"
  shows "wire (send_response fd v w) fd = wire w fd @ ok_line v" "reliable (send_response fd v w) fd"
    "inbox (socks (send_response fd v w) fd) = inbox (socks w fd)"
proof -
  obtain w' where w': "send_all fd (ok_line v) w = (True, w')" "reliable w' fd" "wire w' fd = wire w fd @ ok_line v"
    using assms by (rule send_all_reliable)
  then show "wire (send_response fd v w) fd = wire w fd @ ok_line v" "reliable (send_response fd v w) fd"
    by (simp_all add: send_response_def)
qed simp

text \<open>The transfer of a round: the budget's worth of bytes goes to the staging file.\<close>

lemma put_round:
  assumes "put_state e s r w" "get_budget (we_sched e) r = (b, r1)"
  defines "fd \<equiv> client_fd r" and "p \<equiv> staging_path e r"
  obtains data r2 w2 where "serve_round e b (stamp_start w r1) w = (True, b, r2, w2)"
    "length data = unat b" "files w2 p = Some (s @ data)" "upload_stream r w = data @ upload_stream r2 w2"
    "wire w2 fd = wire w fd @ put_header r" "reliable w2 fd" "prompt fd w2" "pending_wf r2"
    "\<forall>q. q \<noteq> p \<longrightarrow> files w2 q = files w q" "filename r2 = filename r" "total_bytes r2 = total_bytes r"
    "client_fd r2 = fd" "op r2 = PUT" "offset r2 = offset r" "staging_filename r2 = staging_filename (staged r)"
    "deficit r2 = deficit r1" "request_id r2 = request_id r" "left r2 = left r"
proof -
  let ?r0 = "stamp_start w r1" and ?d = "we_disk e" and ?dir = "we_dir e"
  define w0 where "w0 = (if offset ?r0 = 0 then send_response (client_fd ?r0) 0 w else w)"
  note k = get_budget_keeps [OF assms(2)]
  have st: "put_ready ?dir r s w" "op r = PUT" "unat (total_bytes r) < 2 ^ 63" "disk_accepts ?d p"
    "prompt fd w" "reliable w fd" "left r \<le> length (upload_stream r w)"
    using assms(1) by (simp_all add: put_state_def p_def fd_def)
  have w0: "wire w0 fd = wire w fd @ put_header r" "reliable w0 fd" "inbox (socks w0 fd) = inbox (socks w fd)"
      "files w0 = files w"
    using send_response_reliable [OF st(6), of 0] st(6) by (simp_all add: w0_def k fd_def put_header_def)
  have sg: "staging_filename (staged ?r0) = staging_filename (staged r)"
    by (simp add: staged_def staging_name_def k)
  have ready: "put_ready ?dir ?r0 s w0"
    using st(1) w0(4) by (simp add: put_ready_def k)
  have up: "upload_stream r1 w0 = upload_stream r w"
    using w0(3) by (simp add: upload_stream_def fd_def k)
  have pos: "0 < b"
    using get_budget_pos [OF put_state_fits [OF assms(1)] conjunct2 [OF put_ready_left [OF st(1)]]] assms(2)
    by (simp add: word_less_nat_alt)
  have ps: "length s < 2 ^ 63" "unat (total_bytes r) \<le> length s + length (upload_stream r w)"
    using st(1,3,7) put_ready_left [OF st(1)] by (auto simp: put_ready_def)
  have pr: "prompt (client_fd ?r0) w0" using st(5) w0(3) by (simp add: prompt_def k fd_def)
  obtain n r2 w2 where sp: "serve_put ?d ?dir b ?r0 w0 = (True, n, r2, w2)" and pr2: "prompt (client_fd ?r0) w2"
    using serve_put_completes [OF ready pos ps(1) _ pr, of ?d] st(4) ps(2)
    by (auto simp: sg p_def staging_path_def k up)
  obtain data where d: "files w2 p = Some (s @ data)" "unat n = length data"
      "length data = min (unat b) (unat (total_bytes r) - length s)"
      "upload_stream r w = data @ upload_stream r2 w2" "pending_wf r2"
      "r2 = (staged ?r0)\<lparr>pending_offset := pending_offset r2\<rparr>"
      "sent (socks w2 fd) = sent (socks w0 fd)" "send_plan (socks w2 fd) = send_plan (socks w0 fd)"
    using serve_put_success [OF ready sp] by (auto simp: up sg k fd_def p_def staging_path_def)
  have "unat b \<le> left r" using get_budget_le [of "we_sched e" r] assms(2) by simp
  then have b: "unat b = length data" using d(3) put_ready_left [OF st(1)] by simp
  have sr: "serve_round e b ?r0 w = (True, b, r2, w2)"
    using sp st(2) b d(2) by (simp add: serve_round_def k w0_def word_unat_eq_iff)
  have r2: "filename r2 = filename r" "total_bytes r2 = total_bytes r" "client_fd r2 = fd" "op r2 = PUT"
    "offset r2 = offset r" "staging_filename r2 = staging_filename (staged r)" "deficit r2 = deficit r1"
    "request_id r2 = request_id r"
    using st(2) by (subst d(6); simp add: k fd_def sg; simp add: staged_def k)+
  have fr: "\<forall>q. q \<noteq> p \<longrightarrow> files w2 q = files w q"
    using serve_put_other [OF sp] w0(4) r2(6) by (simp add: p_def staging_path_def)
  show ?thesis
    by (rule that [OF sr b [symmetric] d(1,4) _ _ _ d(5) fr r2])
       (use d(7,8) w0(1,2) pr2 r2(2,5) in \<open>simp_all add: wire_def reliable_def k fd_def left_def\<close>)
qed

lemma full_round_deficit:
  assumes "grant_fits s r" "deficit r = 0" "unat (fst (get_budget s r)) < left r"
  shows "deficit (service_round s (fst (get_budget s r)) r) = 0 \<and> policy s \<in> {RR, DRR} \<and>
    unat (fst (get_budget s r)) = unat (quantum s)"
proof -
  have q: "policy s \<in> {RR, DRR} \<and> unat (fst (get_budget s r)) = unat (quantum s)"
    using assms by (auto simp: get_budget_def Let_def remaining_zero unat_simps unat_remaining
        min_def split: if_splits scheduling_policy.splits)
  have "deficit (service_round s (fst (get_budget s r)) r) = 0"
  proof (cases "policy s = DRR")
    case True
    have "unat (deficit (service_round s (fst (get_budget s r)) r)) = 0"
      using drr_round_deficit [OF True assms(1), of "fst (get_budget s r)"] assms(2,3) q by simp
    then show ?thesis by (simp add: unat_eq_0)
  next
    case False
    then show ?thesis
      using assms(2) by (simp add: service_round_def account_def get_budget_def Let_def
          split: scheduling_policy.splits)
  qed
  with q show ?thesis by blast
qed

lemma put_state_next:
  assumes "put_state e s r w" "get_budget (we_sched e) r = (b, r1)" "unat b < left r"
    and "length data = unat b" "files w2 (staging_path e r) = Some (s @ data)"
    and "upload_stream r w = data @ upload_stream r2 w2" "reliable w2 (client_fd r)"
    and "prompt (client_fd r) w2" "pending_wf r2" "filename r2 = filename r" "total_bytes r2 = total_bytes r"
    and "client_fd r2 = client_fd r" "op r2 = PUT" "offset r2 = offset r"
    and "staging_filename r2 = staging_filename (staged r)" "deficit r2 = deficit r1"
    and "request_id r2 = request_id r" "left r2 = left r"
  defines "r3 \<equiv> settle_round e b b r2"
  shows "put_state e (s @ data) r3 w2 \<and> offset r3 \<noteq> 0 \<and> staging_path e r3 = staging_path e r \<and>
    left r3 + put_pace e \<le> left r"
proof -
  let ?s = "we_sched e"
  have g: "r1 = snd (get_budget ?s r)" "b = fst (get_budget ?s r)" using assms(2) by simp_all
  note k = get_budget_keeps [OF assms(2)]
  have fits: "grant_fits ?s r" using assms(1) by (rule put_state_fits)
  have ready: "put_ready (we_dir e) r s w" using assms(1) by (simp add: put_state_def)
  have full: "deficit (service_round ?s b r) = 0" "policy ?s \<in> {RR, DRR}" "unat b = unat (quantum ?s)"
    using full_round_deficit [OF fits] assms(1,3) g(2) by (auto simp: put_state_def)
  have "deficit (account ?s b r2) = deficit (account ?s b r1)"
    using assms(11,14,16) k by (intro account_deficit_cong) simp_all
  then have d3: "deficit r3 = 0" using full(1) g(1) by (simp add: r3_def service_round_def)
  have b0: "0 < unat b" using full(2,3) assms(1) by (auto simp: put_state_def word_less_nat_alt)
  have off: "unat (offset r3) = length s + unat b" "left r3 = left r - unat b"
    using assms(3,14,18) ready by (simp_all add: r3_def put_ready_def)
  then have nz: "offset r3 \<noteq> 0" using b0 by auto
  then have stg: "staging_filename (staged r3) = staging_filename (staged r)"
    "staging_filename r3 = staging_filename (staged r)"
    using assms(15) by (simp_all add: staged_def r3_def)
  then have path: "staging_path e r3 = staging_path e r" "final_path e r3 = final_path e r"
    using assms(10) by (simp_all add: staging_path_def final_path_def r3_def)
  have pr: "put_ready (we_dir e) r3 (s @ data) w2"
    using ready assms(3,4,5,9,10,11) off(1) put_ready_left [OF ready] stg(2)
    by (simp add: put_ready_def r3_def staging_path_def)
  have "left r3 \<le> length (upload_stream r3 w2)"
    using assms(1,4,6) off(2) by (auto simp: put_state_def r3_def)
  moreover have "staging_filename (staged r3) = staging_name r3"
    using assms(1,10,17) stg(1) by (simp add: put_state_def staging_name_def r3_def)
  ultimately have "put_state e (s @ data) r3 w2"
    using assms(1,7,8,11,12,13) pr d3 path by (simp add: put_state_def r3_def)
  then show ?thesis using nz path(1) off(2) full(2,3) assms(3) by (auto simp: put_pace_def)
qed

lemma staging_is_not_final: "staging_name r \<noteq> filename r"
  by (simp add: staging_name_def)

text \<open>The end of an upload: the rename and the final status line.\<close>

lemma put_commit:
  assumes "op r = PUT" "files w (join_path (we_dir e) (staging_filename r)) = Some c"
    and "can_rename (we_disk e) (join_path (we_dir e) (staging_filename r)) (final_path e r)"
    and "reliable w (client_fd r)" "staging_filename r \<noteq> filename r"
  obtains r' w' where "commit_request e r w = (Finished r', w')"
    "wire w' (client_fd r) = wire w (client_fd r) @ ok_line 0" "files w' (final_path e r) = Some c"
    "files w' (join_path (we_dir e) (staging_filename r)) = None"
proof -
  let ?a = "join_path (we_dir e) (staging_filename r)" and ?b = "join_path (we_dir e) (filename r)"
  let ?w1 = "w\<lparr>files := (files w)(?a := None, ?b \<mapsto> c)\<rparr>"
  have "?a \<noteq> ?b" using assms(5) by (simp add: join_path_def)
  moreover have "commit_request e r w = (Finished (stamp_finish (send_response (client_fd r) 0 ?w1) r),
      send_response (client_fd r) 0 ?w1)"
    using assms(1-3) by (simp add: commit_request_def sys_rename_def final_path_def Let_def)
  moreover have "wire (send_response (client_fd r) 0 ?w1) (client_fd r) = wire w (client_fd r) @ ok_line 0"
    using send_response_reliable(1) [of ?w1 "client_fd r" 0] assms(4) by (simp add: reliable_def wire_def)
  ultimately show ?thesis by (intro that) (auto simp: final_path_def)
qed

lemma put_state_calm:
  "put_state e s r w \<Longrightarrow> calm (staging_path e r) (client_fd r) i \<Longrightarrow>
   put_state e s r (i w) \<and> wire (i w) (client_fd r) = wire w (client_fd r) \<and>
   upload_stream r (i w) = upload_stream r w"
  by (auto simp: put_state_def put_ready_def calm_def prompt_def reliable_def wire_def upload_stream_def
      staging_path_def staged_def)

lemma put_process:
  assumes st: "put_state e s r w" and g: "get_budget (we_sched e) r = (b, r1)"
  obtains
    (finished) r' w' where "worker_process e (r1, b) w = (Finished r', w')"
      "wire w' (client_fd r) = wire w (client_fd r) @ put_header r @ ok_line 0"
      "files w' (final_path e r) = Some (s @ take (left r) (upload_stream r w))"
      "files w' (staging_path e r) = None"
  | (requeued) data r' w' where "worker_process e (r1, b) w = (Requeued r', w')"
      "put_state e (s @ data) r' w'" "client_fd r' = client_fd r" "filename r' = filename r"
      "staging_path e r' = staging_path e r" "offset r' \<noteq> 0" "0 < left r'" "left r' + put_pace e \<le> left r"
      "wire w' (client_fd r) = wire w (client_fd r) @ put_header r"
      "take (left r) (upload_stream r w) = data @ take (left r') (upload_stream r' w')"
proof -
  let ?fd = "client_fd r" and ?p = "staging_path e r"
  obtain data r2 w2 where sr: "serve_round e b (stamp_start w r1) w = (True, b, r2, w2)"
    and d: "length data = unat b" "files w2 ?p = Some (s @ data)" "upload_stream r w = data @ upload_stream r2 w2"
    and wire2: "wire w2 ?fd = wire w ?fd @ put_header r"
    and w2: "reliable w2 ?fd" "prompt ?fd w2" "pending_wf r2"
    and r2: "filename r2 = filename r" "total_bytes r2 = total_bytes r" "client_fd r2 = ?fd" "op r2 = PUT"
      "offset r2 = offset r" "staging_filename r2 = staging_filename (staged r)" "deficit r2 = deficit r1"
      "request_id r2 = request_id r" "left r2 = left r"
    by (rule put_round [OF st g]) blast
  define r3 where "r3 = settle_round e b b r2"
  have le: "unat b \<le> left r" using get_budget_le [of "we_sched e" r] g by simp
  have wp: "worker_process e (r1, b) w = (if unat b < left r then (Requeued r3, w2) else commit_request e r3 w2)"
    using sr r2(9) by (simp add: worker_process_def Let_def should_requeue_left r3_def)
  show thesis
  proof (cases "unat b < left r")
    case False
    have c: "op r3 = PUT" "files w2 (join_path (we_dir e) (staging_filename r3)) = Some (s @ data)"
      "can_rename (we_disk e) (join_path (we_dir e) (staging_filename r3)) (final_path e r3)"
      "reliable w2 (client_fd r3)" "staging_filename r3 \<noteq> filename r3"
      using st r2 d(2) w2(1) staging_is_not_final [of r]
      by (auto simp: r3_def put_state_def staging_path_def final_path_def)
    show thesis
      by (rule put_commit [OF c], rule finished)
        (use wp False le d(1,3) wire2 r2(1,3,6) in \<open>simp_all add: r3_def final_path_def staging_path_def\<close>)
  next
    case True
    then show thesis
      using put_state_next [OF st g True d(1,2,3) w2 r2] wp wire2 r2(1,3,9) d(1,3)
      by (intro requeued [of r3 w2 data]) (simp_all add: r3_def)
  qed
qed

lemma put_transfer:
  "put_state e s r w \<Longrightarrow> list_all (calm (staging_path e r) (client_fd r)) others \<Longrightarrow> others \<noteq> [] \<Longrightarrow>
   left r \<le> length others * put_pace e \<Longrightarrow>
   \<exists>r' w'. transfer e others r w = (Finished r', w') \<and>
     wire w' (client_fd r) = wire w (client_fd r) @ put_header r @ ok_line 0 \<and>
     files w' (final_path e r) = Some (s @ take (left r) (upload_stream r w)) \<and>
     files w' (staging_path e r) = None"
proof (induction others arbitrary: s r w)
  case (Cons i others)
  obtain b r1 where g: "get_budget (we_sched e) r = (b, r1)" by fastforce
  have st: "put_state e s r (i w)"
    and wi: "wire (i w) (client_fd r) = wire w (client_fd r)" "upload_stream r (i w) = upload_stream r w"
    using put_state_calm Cons.prems(1,2) by simp_all
  show ?case
  proof (cases rule: put_process [OF st g])
    case (1 r' w')
    then show ?thesis using g wi by simp
  next
    case (2 data r3 w2)
    have "others \<noteq> []" "left r3 \<le> length others * put_pace e" using Cons.prems(4) 2(7,8) by auto
    moreover have "list_all (calm (staging_path e r3) (client_fd r3)) others"
      using Cons.prems(2) 2(3,5) by simp
    ultimately obtain r' w' where "transfer e others r3 w2 = (Finished r', w')"
        "wire w' (client_fd r3) = wire w2 (client_fd r3) @ put_header r3 @ ok_line 0"
        "files w' (final_path e r3) = Some ((s @ data) @ take (left r3) (upload_stream r3 w2))"
        "files w' (staging_path e r3) = None"
      using Cons.IH [OF 2(2)] by blast
    then show ?thesis
      using 2(1,3-6,9,10) g wi by (simp add: final_path_def put_header_def)
  qed
qed simp

section \<open>Uploads are atomic\<close>

lemma send_error_files [simp]: "files (send_error fd m w) = files w"
  by simp

lemma commit_request_files:
  assumes "commit_request e r w = (out, w')" "op r = PUT"
  defines "p \<equiv> join_path (we_dir e) (staging_filename r)"
  shows "(\<exists>r'. out = Finished r' \<and> left r' = left r \<and> files w p = files w' (final_path e r) \<and>
      files w' = (files w)(p := None, final_path e r := files w p)) \<or>
    out = Failed r \<and> files w' = files w \<and>
      (files w p = None \<or> \<not> can_rename (we_disk e) p (final_path e r))"
  using assms(1,2)
  by (auto simp: commit_request_def sys_rename_def p_def final_path_def Let_def stamp_finish_def left_def
      split: option.splits if_splits)

lemma put_pending_request:
  "put_pending d p pos rem n r w = (b, pos', rem', n', r', w') \<Longrightarrow> r' = r\<lparr>pending_offset := pending_offset r'\<rparr>"
proof (induction d p pos rem n r w rule: put_pending.induct)
  case (1 d p pos rem n r w)
  show ?case
  proof (cases "rem > 0 \<and> pending_offset r < of_nat (length (pending_bytes r))")
    case True
    obtain x w1 where sw: "stream_write d p pos (take (unat (min rem (of_nat (length (pending_bytes r)) -
        pending_offset r))) (drop (unat (pending_offset r)) (pending_bytes r))) w = (x, w1)" by fastforce
    show ?thesis
    proof (cases x)
      case x: True
      show ?thesis
        using "1.IH" [OF True refl refl refl sw [symmetric] x [THEN eqTrueI]] "1.prems" True sw x
        by (subst (asm) put_pending.simps) (auto simp: Let_def)
    next
      case x: False
      then show ?thesis
        using "1.prems" True sw by (subst (asm) put_pending.simps) (auto simp: Let_def)
    qed
  next
    case False
    with "1.prems" show ?thesis by (subst (asm) put_pending.simps) auto
  qed
qed

lemma serve_put_request:
  assumes "serve_put d dir b r w = (ok, n, r', w')"
  shows "filename r' = filename r \<and> op r' = op r \<and> client_fd r' = client_fd r \<and> request_id r' = request_id r \<and>
    offset r' = offset r \<and> total_bytes r' = total_bytes r \<and> rounds r' = rounds r \<and>
    arrival_ns r' = arrival_ns r \<and> start_ns r' = start_ns r"
proof -
  let ?same = "\<lambda>r'. filename r' = filename r \<and> op r' = op r \<and> client_fd r' = client_fd r \<and>
    request_id r' = request_id r \<and> offset r' = offset r \<and> total_bytes r' = total_bytes r \<and> rounds r' = rounds r \<and>
    arrival_ns r' = arrival_ns r \<and> start_ns r' = start_ns r"
  have "put_transfer d p N (staged r) w1 = (ok, n, r', w') \<Longrightarrow> ?same r'" for p N w1
  proof -
    assume t: "put_transfer d p N (staged r) w1 = (ok, n, r', w')"
    obtain b pos rem k r2 w2 where pp: "put_pending d p (unat (offset (staged r))) N 0 (staged r) w1 =
        (b, pos, rem, k, r2, w2)" by (metis prod_cases6)
    then have "r' = r2"
      using t by (auto simp: put_transfer_def Let_def split: prod.splits bool.splits)
    moreover have "?same r2"
      by (subst (1 2 3 4 5 6 7 8 9) put_pending_request [OF pp]) (simp add: staged_def)
    ultimately show ?thesis by simp
  qed
  with assms show ?thesis
    by (auto simp: serve_put_def Let_def staged_def split: if_splits prod.splits bool.splits)
qed

lemma worker_process_put:
  assumes "op r = PUT" "is_valid_filename (filename r)" "worker_process e (r, b) w = (out, w')"
  obtains n r1 w1 where "serve_round e b (stamp_start w r) w = (False, n, r1, w1)" "out = Failed r1"
      "w' = (if staging_filename r1 = [] then w1 else sys_remove (staging_path e r) w1)"
      "staging_filename r1 = staging_filename (staged r)"
      "\<forall>q. q \<noteq> staging_path e r \<longrightarrow> files w1 q = files w q"
    | n r1 w1 where "serve_round e b (stamp_start w r) w = (True, n, r1, w1)"
      "(if should_requeue (settle_round e b n r1) then (Requeued (settle_round e b n r1), w1)
        else commit_request e (settle_round e b n r1) w1) = (out, w')"
      "staging_filename r1 = staging_filename (staged r)" "filename r1 = filename r" "op r1 = PUT"
      "\<forall>q. q \<noteq> staging_path e r \<longrightarrow> files w1 q = files w q"
proof -
  obtain ok n r1 w1 where sr: "serve_round e b (stamp_start w r) w = (ok, n, r1, w1)" by (metis prod_cases4)
  let ?w0 = "if offset r = 0 then send_response (client_fd r) 0 w else w"
  have sp: "serve_put (we_disk e) (we_dir e) b (stamp_start w r) ?w0 = (ok, n, r1, w1)"
    using sr assms(1) by (auto simp: serve_round_def)
  have "staging_filename (staged (stamp_start w r)) = staging_filename (staged r)"
    by (simp add: staged_def staging_name_def)
  with serve_put_other [OF sp] assms(2) have o: "staging_filename r1 = staging_filename (staged r)"
    "\<forall>q. q \<noteq> staging_path e r \<longrightarrow> files w1 q = files w q"
    by (auto simp: staging_path_def)
  show ?thesis
  proof (cases ok)
    case True
    with assms sr o serve_put_request [OF sp] show ?thesis
      by (intro that(2) [of n r1 w1]) (simp_all add: worker_process_def Let_def)
  next
    case False
    with assms(3) sr o show ?thesis
      by (intro that(1) [of n r1 w1]) (auto simp: worker_process_def staging_path_def)
  qed
qed

section \<open>Properties\<close>

text \<open>
  C6. Every policy delivers a download completely: if no other thread changes the
  served file or writes to this connection between the rounds, the client
  receives the status line with the file's size and then exactly the file's
  bytes, in order, once. FCFS and SJF need one round, DRR at most one round per
  quantum of the file, RR at most one round per byte; the transfer never gets
  stuck, even on lines longer than the quantum.
\<close>

theorem get_delivers_file:
  assumes "get_state e c r w" and "offset r = 0" and "\<not> response_sent r" and "deficit r = 0"
    and "list_all (calm (final_path e r) (client_fd r)) others" and "others \<noteq> []"
    and "length c \<le> length others * pace e"
  shows "\<exists>r' w'. transfer e others r w = (Finished r', w') \<and>
    wire w' (client_fd r) = wire w (client_fd r) @ ok_line (of_nat (length c)) @ c"
proof -
  have "total_bytes r = of_nat (length c)" "left r = length c"
    using assms(1,2) of_nat_unat_u64 [of "total_bytes r"]
    by (auto simp: get_state_def get_ready_def left_def)
  with get_transfer [OF assms(1), of others] assms(2-7) show ?thesis
    by (simp add: get_header_def final_path_def credit_def)
qed

definition demo_env :: "scheduling_policy \<Rightarrow> u64 \<Rightarrow> worker_env" where
  "demo_env p q = \<lparr>we_disk = healthy_disk, we_dir = ''d'', we_sched = \<lparr>policy = p, quantum = q\<rparr>,
     we_packetization = 1\<rparr>"

theorem get_delivers_file_witness:
  "\<exists>r' w'. transfer (demo_env DRR 2) [id, id] demo_get (demo_world [''d/f'' \<mapsto> two_lines] []) = (Finished r', w') \<and>
     wire w' 4 = ok_line 4 @ two_lines"
proof -
  let ?e = "demo_env DRR 2" and ?w = "demo_world [''d/f'' \<mapsto> two_lines] []"
  have "get_state ?e two_lines demo_get ?w" "list_all (calm (final_path ?e demo_get) (client_fd demo_get)) [id, id]"
    "offset demo_get = 0" "\<not> response_sent demo_get" "deficit demo_get = 0"
    using demo_get_ready by (simp_all add: get_state_def demo_env_def calm_def demo_get_def new_request_def)
  moreover have "length two_lines \<le> length [id, id] * pace ?e" "client_fd demo_get = 4" "length two_lines = 4"
    "wire ?w 4 = []"
    by (simp_all add: two_lines_def pace_def demo_env_def demo_get_def new_request_def wire_def)
  ultimately show ?thesis using get_delivers_file [of ?e two_lines demo_get ?w "[id, id]"] by auto
qed

text \<open>
  C7. Every policy completes an upload: if the client sends its bytes without
  long pauses, the disk accepts them and no other thread touches the staging
  file or the connection, the final file holds exactly the declared number of
  bytes the client sent, the staging file is gone and the client has received
  two status lines, one before and one after the upload. FCFS and SJF need one
  round, RR and DRR one per quantum.
\<close>

theorem put_stores_upload:
  assumes "put_state e [] r w" and "list_all (calm (staging_path e r) (client_fd r)) others"
    and "others \<noteq> []" and "unat (total_bytes r) \<le> length others * put_pace e"
  shows "\<exists>r' w'. transfer e others r w = (Finished r', w') \<and>
    files w' (final_path e r) = Some (take (unat (total_bytes r)) (upload_stream r w)) \<and>
    files w' (staging_path e r) = None \<and>
    wire w' (client_fd r) = wire w (client_fd r) @ ok_line 0 @ ok_line 0"
proof -
  have "offset r = 0" "left r = unat (total_bytes r)"
    using assms(1) by (auto simp: put_state_def put_ready_def left_def unat_eq_0)
  with put_transfer [OF assms(1-3)] assms(4) show ?thesis by (auto simp: put_header_def)
qed

theorem put_stores_upload_witness:
  "\<exists>r' w'. transfer (demo_env RR 2) [id, id, id] demo_put (demo_world Map.empty [Segment 9 ''llo'']) = (Finished r', w') \<and>
     files w' ''d/f'' = Some ''hello''"
proof -
  let ?e = "demo_env RR 2" and ?w = "demo_world Map.empty [Segment 9 ''llo'']"
  have "put_state ?e [] demo_put ?w"
    using demo_put_ready by (simp add: put_state_def demo_env_def demo_put_def new_request_def disk_accepts_def
        healthy_disk_def prompt_def reliable_def left_def upload_stream_def pending_rest_def staged_def
        staging_name_def)
  moreover have "list_all (calm (staging_path ?e demo_put) (client_fd demo_put)) [id, id, id]"
    by (simp add: calm_def)
  moreover have "unat (total_bytes demo_put) \<le> length [id, id, id] * put_pace ?e"
    "final_path ?e demo_put = ''d/f''" "take (unat (total_bytes demo_put)) (upload_stream demo_put ?w) = ''hello''"
    by (simp_all add: demo_put_def new_request_def put_pace_def demo_env_def final_path_def join_path_def
        upload_stream_def pending_rest_def)
  ultimately show ?thesis using put_stores_upload [of ?e demo_put ?w "[id, id, id]"] by auto
qed



end
