(* ===== verification/Server_System.thy ===== *)
theory Server_System
  imports Whole_Transfer
begin

text \<open>
  The running server of \<^verbatim>\<open>main.cpp\<close>: the acceptor thread, the parser threads,
  the worker threads and the main thread that starts and joins them, over the
  two shared queues, the request counter and the metrics. A step of the system
  is one step of one thread. Each critical section of a queue is a step of its
  own, so that the threads interleave between them; the reading of a header, a
  transfer round and the end of a request are one step each.

  A step reports what happens to connections and requests; \<open>server_run\<close>
  collects these reports.
\<close>

section \<open>Threads and state\<close>

datatype acceptor_phase = Loop_check | In_select | Acceptor_done

datatype parser_phase =
    P_waiting
  | P_reading int
  | P_checked int parser_verdict
  | P_numbered int request
  | P_done

datatype worker_phase =
    W_waiting
  | W_serving "request \<times> u64"
  | W_returning worker_outcome
  | W_done

datatype main_phase = Await_acceptor | Await_parsers | Await_workers | Main_done

record server_state =
  sv_acceptor :: acceptor_phase
  sv_parsers :: "parser_phase list"
  sv_workers :: "worker_phase list"
  sv_main :: main_phase
  sv_shutdown :: bool
  sv_fds :: fd_queue
  sv_queue :: request_queue
  sv_next_id :: i32
  sv_metrics :: "request_metrics list"
  sv_world :: world

datatype event = E_accept int | E_close int | E_admit request | E_end request

text \<open>The state in which \<^verbatim>\<open>main\<close> has started its threads.\<close>

definition parser_count :: "int \<Rightarrow> nat" where
  "parser_count client_threads = nat (max 8 client_threads)"

definition server_start :: "int \<Rightarrow> int \<Rightarrow> world \<Rightarrow> server_state" where
  "server_start server_threads client_threads w =
     \<lparr>sv_acceptor = Loop_check,
      sv_parsers = replicate (parser_count client_threads) P_waiting,
      sv_workers = replicate (nat server_threads) W_waiting,
      sv_main = Await_acceptor, sv_shutdown = False,
      sv_fds = \<lparr>fd_items = [], fd_closed = False\<rparr>, sv_queue = empty_queue,
      sv_next_id = 1, sv_metrics = [], sv_world = w\<rparr>"

section \<open>Steps\<close>

text \<open>\<^verbatim>\<open>handle_signal\<close> for the two signals it reacts to.\<close>

definition handle_signal :: "server_state \<Rightarrow> server_state" where
  "handle_signal s = s\<lparr>sv_shutdown := True\<rparr>"

text \<open>What \<^verbatim>\<open>select\<close> and \<^verbatim>\<open>accept\<close> report to the acceptor.\<close>

datatype accept_event = Select_timeout | Select_failed | Accept_returned int socket

definition acceptor_exit :: "server_state \<Rightarrow> server_state" where
  "acceptor_exit s = s\<lparr>sv_acceptor := Acceptor_done, sv_fds := fd_close (sv_fds s)\<rparr>"

definition acceptor_check :: "server_state \<Rightarrow> server_state" where
  "acceptor_check s = (if sv_shutdown s then acceptor_exit s else s\<lparr>sv_acceptor := In_select\<rparr>)"

definition acceptor_retry :: "server_state \<Rightarrow> server_state" where
  "acceptor_retry s = (if sv_shutdown s then acceptor_exit s else s\<lparr>sv_acceptor := Loop_check\<rparr>)"

definition acceptor_select :: "accept_event \<Rightarrow> server_state \<Rightarrow> server_state \<times> event list" where
  "acceptor_select ev s =
     (case ev of
        Select_timeout \<Rightarrow> (s\<lparr>sv_acceptor := Loop_check\<rparr>, [])
      | Select_failed \<Rightarrow> (acceptor_retry s, [])
      | Accept_returned res sock \<Rightarrow>
          (let client_socket = accept_connection res in
           if client_socket < 0 then (acceptor_retry s, [])
           else
             (let w1 = set_sock client_socket (\<lambda>_. sock) (sv_world s);
                  s1 = s\<lparr>sv_acceptor := Loop_check, sv_world := w1\<rparr>
              in case fd_push client_socket (sv_fds s) of
                   (True, q) \<Rightarrow> (s1\<lparr>sv_fds := q\<rparr>, [E_accept client_socket])
                 | (False, q) \<Rightarrow>
                     (s1\<lparr>sv_fds := q, sv_world := close_socket client_socket w1\<rparr>,
                      [E_accept client_socket, E_close client_socket]))))"

definition parser_step :: "worker_env \<Rightarrow> parser_phase \<Rightarrow> server_state \<Rightarrow>
    (parser_phase \<times> server_state \<times> event list) option" where
  "parser_step e ph s =
     (case ph of
        P_waiting \<Rightarrow>
          (case fd_wait_pop (sv_fds s) of
             Blocked \<Rightarrow> None
           | Drained \<Rightarrow> Some (P_done, s, [])
           | Popped fd q \<Rightarrow> Some (P_reading fd, s\<lparr>sv_fds := q\<rparr>, []))
      | P_reading fd \<Rightarrow>
          (case parse_connection (we_dir e) fd (sv_world s) of
             (v, w1) \<Rightarrow> Some (P_checked fd v, s\<lparr>sv_world := w1\<rparr>, []))
      | P_checked fd v \<Rightarrow>
          (case v of
             Rejected m \<Rightarrow> Some (P_waiting, s\<lparr>sv_world := refuse fd m (sv_world s)\<rparr>, [E_close fd])
           | Health_probe \<Rightarrow>
               Some (P_waiting, s\<lparr>sv_world := answer_health fd (sv_queue s) (sv_world s)\<rparr>, [E_close fd])
           | Admitted r \<Rightarrow>
               Some (P_numbered fd (number_request (sv_next_id s) (sv_world s) r),
                     s\<lparr>sv_next_id := sv_next_id s + 1\<rparr>, []))
      | P_numbered fd r \<Rightarrow>
          (case admit_request fd r (sv_queue s, sv_world s) of
             (ok, q, w1) \<Rightarrow>
               Some (P_waiting, s\<lparr>sv_queue := q, sv_world := w1\<rparr>, [if ok then E_admit r else E_close fd]))
      | P_done \<Rightarrow> None)"

definition worker_step :: "worker_env \<Rightarrow> worker_phase \<Rightarrow> server_state \<Rightarrow>
    (worker_phase \<times> server_state \<times> event list) option" where
  "worker_step e ph s =
     (case ph of
        W_waiting \<Rightarrow>
          (case scheduler_next (we_sched e) (sv_queue s) of
             Blocked \<Rightarrow> None
           | Drained \<Rightarrow> Some (W_done, s, [])
           | Popped decision q \<Rightarrow> Some (W_serving decision, s\<lparr>sv_queue := q\<rparr>, []))
      | W_serving decision \<Rightarrow>
          (case worker_process e decision (sv_world s) of
             (out, w1) \<Rightarrow> Some (W_returning out, s\<lparr>sv_world := w1\<rparr>, []))
      | W_returning out \<Rightarrow>
          (case worker_finish out (sv_queue s, sv_metrics s, sv_world s) of
             (q, metrics, w1) \<Rightarrow>
               Some (W_waiting, s\<lparr>sv_queue := q, sv_metrics := metrics, sv_world := w1\<rparr>,
                     case out of
                       Requeued r \<Rightarrow> []
                     | Failed r \<Rightarrow> [E_end r, E_close (client_fd r)]
                     | Finished r \<Rightarrow> [E_end r, E_close (client_fd r)]))
      | W_done \<Rightarrow> None)"

text \<open>The joins of \<^verbatim>\<open>main\<close>; the last one is followed by the report.\<close>

definition main_step :: "disk \<Rightarrow> path \<Rightarrow> server_state \<Rightarrow> server_state option" where
  "main_step d metrics_out s =
     (case sv_main s of
        Await_acceptor \<Rightarrow>
          if sv_acceptor s = Acceptor_done then Some (s\<lparr>sv_main := Await_parsers\<rparr>) else None
      | Await_parsers \<Rightarrow>
          if list_all (\<lambda>ph. ph = P_done) (sv_parsers s)
          then Some (s\<lparr>sv_main := Await_workers, sv_queue := close_queue (sv_queue s)\<rparr>) else None
      | Await_workers \<Rightarrow>
          if list_all (\<lambda>ph. ph = W_done) (sv_workers s)
          then Some (s\<lparr>sv_main := Main_done,
                       sv_world := snd (write_csv d metrics_out (sv_metrics s) (sv_world s))\<rparr>)
          else None
      | Main_done \<Rightarrow> None)"

inductive server_step ::
  "worker_env \<Rightarrow> path \<Rightarrow> server_state \<Rightarrow> event list \<Rightarrow> server_state \<Rightarrow> bool" for e metrics_out where
  step_signal: "server_step e metrics_out s [] (handle_signal s)"
| step_check: "sv_acceptor s = Loop_check \<Longrightarrow> server_step e metrics_out s [] (acceptor_check s)"
| step_select: "sv_acceptor s = In_select \<Longrightarrow> acceptor_select ev s = (s', evs) \<Longrightarrow>
    server_step e metrics_out s evs s'"
| step_parser: "i < length (sv_parsers s) \<Longrightarrow>
    parser_step e (sv_parsers s ! i) s = Some (ph, s', evs) \<Longrightarrow>
    server_step e metrics_out s evs (s'\<lparr>sv_parsers := (sv_parsers s')[i := ph]\<rparr>)"
| step_worker: "i < length (sv_workers s) \<Longrightarrow>
    worker_step e (sv_workers s ! i) s = Some (ph, s', evs) \<Longrightarrow>
    server_step e metrics_out s evs (s'\<lparr>sv_workers := (sv_workers s')[i := ph]\<rparr>)"
| step_main: "main_step (we_disk e) metrics_out s = Some s' \<Longrightarrow> server_step e metrics_out s [] s'"

inductive_cases server_stepE: "server_step e metrics_out s evs s'"

inductive server_run ::
  "worker_env \<Rightarrow> path \<Rightarrow> server_state \<Rightarrow> event list \<Rightarrow> server_state \<Rightarrow> bool" for e metrics_out s0 where
  run_start: "server_run e metrics_out s0 [] s0"
| run_step: "server_run e metrics_out s0 tr s \<Longrightarrow> server_step e metrics_out s evs s' \<Longrightarrow>
    server_run e metrics_out s0 (tr @ evs) s'"

end
