(* ===== verification/Server_Safety.thy ===== *)
theory Server_Safety
  imports Server_System
begin

text \<open>
  What holds in every state the running server can reach, whatever the
  interleaving of its threads: the invariant of the shutdown protocol, the
  conservation of connections and of requests, and the absence of deadlock.
  The locale \<open>ledger\<close> states once what it means that a system neither
  loses nor duplicates what it holds; it is interpreted for the connections and
  for the requests of the server.
\<close>

section \<open>A ledger over the runs of a system\<close>

locale ledger =
  fixes step :: "'s \<Rightarrow> 'e list \<Rightarrow> 's \<Rightarrow> bool"
    and run :: "'s \<Rightarrow> 'e list \<Rightarrow> 's \<Rightarrow> bool"
    and inv :: "'s \<Rightarrow> bool"
    and held :: "'s \<Rightarrow> 'k multiset"
    and gained :: "'e \<Rightarrow> 'k list"
    and lost :: "'e \<Rightarrow> 'k list"
  assumes run_induct: "run s0 tr s \<Longrightarrow> P [] s0 \<Longrightarrow>
      (\<And>tr s evs s'. P tr s \<Longrightarrow> step s evs s' \<Longrightarrow> P (tr @ evs) s') \<Longrightarrow> P tr s"
    and inv_step: "inv s \<Longrightarrow> step s evs s' \<Longrightarrow> inv s'"
    and balance: "inv s \<Longrightarrow> step s evs s' \<Longrightarrow>
      held s' + mset (concat (map lost evs)) = held s + mset (concat (map gained evs))"
begin

lemma run_inv: "run s0 tr s \<Longrightarrow> inv s0 \<Longrightarrow> inv s"
  by (erule run_induct) (auto dest: inv_step)

lemma run_balance:
  assumes "run s0 tr s" "inv s0"
  shows "held s + mset (concat (map lost tr)) = held s0 + mset (concat (map gained tr))"
proof -
  have "inv s \<and> held s + mset (concat (map lost tr)) = held s0 + mset (concat (map gained tr))"
    using assms(1)
  proof (rule run_induct)
    fix tr s evs s'
    assume a: "inv s \<and> held s + mset (concat (map lost tr)) = held s0 + mset (concat (map gained tr))"
      and st: "step s evs s'"
    have "held s' + mset (concat (map lost (tr @ evs))) =
        (held s' + mset (concat (map lost evs))) + mset (concat (map lost tr))" by simp
    also have "\<dots> = (held s + mset (concat (map lost tr))) + mset (concat (map gained evs))"
      using balance [OF _ st] a by simp
    also have "\<dots> = held s0 + mset (concat (map gained (tr @ evs)))" using a by simp
    finally show "inv s' \<and> held s' + mset (concat (map lost (tr @ evs))) =
        held s0 + mset (concat (map gained (tr @ evs)))" using inv_step [OF _ st] a by blast
  qed (simp add: assms(2))
  then show ?thesis ..
qed

end

section \<open>What the threads hold\<close>

fun worker_holds :: "worker_phase \<Rightarrow> request list" where
  "worker_holds (W_serving (r, b)) = [r]"
| "worker_holds (W_returning out) = [outcome_request out]"
| "worker_holds _ = []"

fun parser_holds :: "parser_phase \<Rightarrow> int list" where
  "parser_holds (P_reading fd) = [fd]"
| "parser_holds (P_checked fd v) = [fd]"
| "parser_holds (P_numbered fd r) = [fd]"
| "parser_holds _ = []"

definition busy_workers :: "server_state \<Rightarrow> request list" where
  "busy_workers s = concat (map worker_holds (sv_workers s))"

definition held_requests :: "server_state \<Rightarrow> request multiset" where
  "held_requests s = mset (q_items (sv_queue s)) + mset (busy_workers s)"

definition held_connections :: "server_state \<Rightarrow> int multiset" where
  "held_connections s = mset (fd_items (sv_fds s)) + mset (concat (map parser_holds (sv_parsers s))) +
     image_mset client_fd (held_requests s)"

fun accepted :: "event \<Rightarrow> int list" where
  "accepted (E_accept fd) = [fd]" | "accepted _ = []"

fun closed :: "event \<Rightarrow> int list" where
  "closed (E_close fd) = [fd]" | "closed _ = []"

fun admitted :: "event \<Rightarrow> request list" where
  "admitted (E_admit r) = [r]" | "admitted _ = []"

fun ended :: "event \<Rightarrow> request list" where
  "ended (E_end r) = [r]" | "ended _ = []"

definition admitted_ids :: "event \<Rightarrow> i32 list" where
  "admitted_ids ev = map request_id (admitted ev)"

definition ended_ids :: "event \<Rightarrow> i32 list" where
  "ended_ids ev = map request_id (ended ev)"

lemma concat_map_update:
  "i < length xs \<Longrightarrow>
   mset (concat (map f (xs[i := y]))) + mset (f (xs ! i)) = mset (concat (map f xs)) + mset (f y)"
proof (induction xs arbitrary: i)
  case (Cons x xs)
  then show ?case by (cases i) (auto simp: ac_simps)
qed simp

section \<open>Requests keep their connection, number and file\<close>

definition same_request :: "request \<Rightarrow> request \<Rightarrow> bool" where
  "same_request r r' \<longleftrightarrow> client_fd r' = client_fd r \<and> request_id r' = request_id r \<and>
     filename r' = filename r \<and> op r' = op r \<and> total_bytes r' = total_bytes r"

lemma same_request_refl [simp]: "same_request r r"
  by (simp add: same_request_def)

lemma send_round_same: "send_round d p pk n r w = (b, k, r', w') \<Longrightarrow> r' = r"
  by (auto simp: send_round_def split: if_splits prod.splits)

lemma serve_get_same:
  assumes "serve_get d dir b ov pk r w = (ok, n, r', w')"
  shows "same_request r r'"
proof -
  let ?r1 = "r\<lparr>response_sent := True\<rparr>" and ?p = "join_path dir (filename r)"
  let ?w1 = "if response_sent r then w else send_response (client_fd r) (total_bytes r) w"
  obtain rb a14 where c: "choose_round d ?p b ov ?r1 ?w1 = (rb, a14)" by fastforce
  let ?r2 = "if a14 then ?r1\<lparr>a14_events := a14_events ?r1 + 1\<rparr> else ?r1"
  have "r' \<in> {r, ?r1, ?r2}"
    using assms unfolding serve_get_def Let_def request.simps c
    by (simp split: if_splits) (auto dest: send_round_same)
  then show ?thesis by (auto simp: same_request_def)
qed

lemma worker_process_same:
  assumes "worker_process e (r, b) w = (out, w')"
  shows "same_request r (outcome_request out)"
proof -
  obtain ok n r1 w1 where sr: "serve_round e b (stamp_start w r) w = (ok, n, r1, w1)" by (metis prod_cases4)
  have put: "serve_put d dir b (stamp_start w r) w0 = (ok, n, r1, w1) \<Longrightarrow> same_request (stamp_start w r) r1" for d dir w0
    using serve_put_request unfolding same_request_def by blast
  have "same_request (stamp_start w r) r1"
    using sr by (cases "op r") (auto simp: serve_round_def intro: put serve_get_same)
  then have s1: "same_request r r1" by (simp add: same_request_def)
  have "same_request (settle_round e b n r1) (outcome_request out)" if ok
    using that assms sr
    by (cases "should_requeue (settle_round e b n r1)")
       (auto simp: worker_process_def Let_def commit_request_def same_request_def stamp_finish_def
        split: if_splits prod.splits bool.splits)
  with s1 have "same_request r (outcome_request out)" if ok using that by (simp add: same_request_def)
  moreover have "outcome_request out = r1" if "\<not> ok" using that assms sr by (auto simp: worker_process_def)
  ultimately show ?thesis using s1 by (cases ok) auto
qed

lemma scheduler_next_popped:
  assumes "scheduler_next s q = Popped (r, b) q'"
  obtains r0 where "same_request r0 r" "mset (q_items q) = mset (q_items q') + {#r0#}"
    "q_inflight q' = Suc (q_inflight q)" "q_closed q' = q_closed q"
proof -
  obtain r0 where p: "policy_pop (policy s) q = Popped r0 q'" and g: "get_budget s r0 = (b, r)"
    using assms by (auto simp: scheduler_next_def split: pop_result.splits prod.splits)
  show ?thesis
    using sched.popped [OF p] get_budget_keeps [OF g]
    by (intro that [of r0]) (auto simp: same_request_def q_waiting_def)
qed

lemma scheduler_next_waits:
  "scheduler_next s q = Drained \<longleftrightarrow> q_items q = [] \<and> q_closed q \<and> q_inflight q = 0"
  "scheduler_next s q = Blocked \<longleftrightarrow> q_items q = [] \<and> \<not> (q_closed q \<and> q_inflight q = 0)"
  using sched.drained [of "policy s" q] sched.blocked [of "policy s" q]
  by (auto simp: scheduler_next_def q_waiting_def split: pop_result.splits prod.splits)

section \<open>The invariant\<close>

fun parser_sound :: "parser_phase \<Rightarrow> bool" where
  "parser_sound (P_checked fd (Admitted r)) \<longleftrightarrow> client_fd r = fd"
| "parser_sound (P_numbered fd r) \<longleftrightarrow> client_fd r = fd"
| "parser_sound _ \<longleftrightarrow> True"

text \<open>
  The queue counts its busy workers; it is closed exactly when every parser has
  left; the connection queue is closed exactly when the acceptor has left; a
  thread that has left found its queue closed and drained for good.
\<close>

definition entry_inv :: "server_state \<Rightarrow> bool" where
  "entry_inv s \<longleftrightarrow>
     (fd_closed (sv_fds s) \<longleftrightarrow> sv_acceptor s = Acceptor_done) \<and>
     (sv_main s \<noteq> Await_acceptor \<longrightarrow> sv_acceptor s = Acceptor_done) \<and>
     (sv_main s \<in> {Await_workers, Main_done} \<longrightarrow> list_all (\<lambda>ph. ph = P_done) (sv_parsers s)) \<and>
     (P_done \<in> set (sv_parsers s) \<longrightarrow> fd_closed (sv_fds s) \<and> fd_items (sv_fds s) = []) \<and>
     list_all parser_sound (sv_parsers s)"

definition work_inv :: "server_state \<Rightarrow> bool" where
  "work_inv s \<longleftrightarrow>
     q_inflight (sv_queue s) = length (busy_workers s) \<and>
     (q_closed (sv_queue s) \<longleftrightarrow> sv_main s \<in> {Await_workers, Main_done}) \<and>
     (W_done \<in> set (sv_workers s) \<longrightarrow>
        q_closed (sv_queue s) \<and> q_items (sv_queue s) = [] \<and> q_inflight (sv_queue s) = 0) \<and>
     (sv_main s = Main_done \<longrightarrow> list_all (\<lambda>ph. ph = W_done) (sv_workers s))"

definition server_inv :: "server_state \<Rightarrow> bool" where
  "server_inv s \<longleftrightarrow> entry_inv s \<and> work_inv s"

lemma entry_inv_cong:
  "sv_fds s' = sv_fds s \<Longrightarrow> sv_acceptor s' = sv_acceptor s \<Longrightarrow> sv_main s' = sv_main s \<Longrightarrow>
   sv_parsers s' = sv_parsers s \<Longrightarrow> entry_inv s' = entry_inv s"
  by (simp add: entry_inv_def)

lemma work_inv_cong:
  "sv_queue s' = sv_queue s \<Longrightarrow> sv_workers s' = sv_workers s \<Longrightarrow> sv_main s' = sv_main s \<Longrightarrow>
   work_inv s' = work_inv s"
  by (simp add: work_inv_def busy_workers_def)

lemma parse_request_header_fd:
  assumes "parse_request_header h fd = Inr r"
  shows "client_fd r = fd"
proof -
  have "request_of_words fd ws = Inr r \<Longrightarrow> client_fd r = fd" for ws
    by (cases "(fd, ws)" rule: request_of_words.cases)
       (auto simp: Let_def split: if_splits list.splits)
  with assms show ?thesis by (simp add: parse_header_words split: if_splits)
qed

lemma parse_connection_sound:
  "parse_connection dir fd w = (v, w') \<Longrightarrow> parser_sound (P_checked fd v)"
  by (auto simp: parse_connection_def Let_def dest!: parse_request_header_fd
      split: prod.splits if_splits sum.splits)

lemma busy_update:
  assumes "i < length (sv_workers s)"
  shows "mset (concat (map worker_holds ((sv_workers s)[i := ph]))) + mset (worker_holds (sv_workers s ! i)) =
      mset (busy_workers s) + mset (worker_holds ph)"
  using concat_map_update [OF assms] by (simp add: busy_workers_def)

lemma busy_length:
  assumes "i < length (sv_workers s)"
  shows "length (concat (map worker_holds ((sv_workers s)[i := ph]))) + length (worker_holds (sv_workers s ! i)) =
      length (busy_workers s) + length (worker_holds ph)"
  using arg_cong [OF busy_update [OF assms], of size] by simp

lemma busy_member:
  assumes "i < length (sv_workers s)" "worker_holds (sv_workers s ! i) \<noteq> []"
  shows "busy_workers s \<noteq> []"
  using assms nth_mem [OF assms(1)] by (auto simp: busy_workers_def)

lemma done_update: "d \<in> set (xs[i := y]) \<Longrightarrow> d \<in> set xs \<or> d = y"
  using set_update_subset_insert [of xs i y] by auto

lemma inv_signal: "server_inv s \<Longrightarrow> server_inv (handle_signal s)"
  unfolding server_inv_def handle_signal_def
  using entry_inv_cong [of "s\<lparr>sv_shutdown := True\<rparr>" s] work_inv_cong [of "s\<lparr>sv_shutdown := True\<rparr>" s] by simp

lemma inv_exit: "server_inv s \<Longrightarrow> server_inv (acceptor_exit s)"
  unfolding server_inv_def acceptor_exit_def
  by (subst work_inv_cong [of _ s]) (auto simp: entry_inv_def fd_close_def)

lemma inv_phase:
  "server_inv s \<Longrightarrow> sv_acceptor s \<noteq> Acceptor_done \<Longrightarrow> ph \<noteq> Acceptor_done \<Longrightarrow> server_inv (s\<lparr>sv_acceptor := ph\<rparr>)"
  unfolding server_inv_def by (subst work_inv_cong [of _ s]) (auto simp: entry_inv_def)

lemma inv_accept:
  assumes "server_inv s" "sv_acceptor s = In_select" "sv_acceptor s' = Loop_check"
    and "fd_push fd (sv_fds s) = (b, sv_fds s')" "sv_parsers s' = sv_parsers s" "sv_main s' = sv_main s"
    and "sv_queue s' = sv_queue s" "sv_workers s' = sv_workers s"
  shows "server_inv s' \<and> b"
proof -
  have "\<not> fd_closed (sv_fds s)" "P_done \<notin> set (sv_parsers s)" "sv_main s = Await_acceptor"
    using assms(1,2) by (auto simp: server_inv_def entry_inv_def)
  moreover from this(1) have "b" "\<not> fd_closed (sv_fds s')"
    using arg_cong [OF assms(4), of "\<lambda>x. fd_closed (snd x)"] assms(4) by (simp_all add: fd_push_def)
  ultimately show ?thesis
    using assms by (auto simp: server_inv_def entry_inv_def work_inv_cong [of s' s])
qed

lemma inv_select:
  assumes "server_inv s" "sv_acceptor s = In_select" "acceptor_select ev s = (s', evs)"
  shows "server_inv s'"
proof (cases ev)
  case (Accept_returned res sock)
  obtain b q where q: "fd_push (accept_connection res) (sv_fds s) = (b, q)" by fastforce
  show ?thesis
  proof (cases "accept_connection res < 0")
    case True
    then show ?thesis
      using assms Accept_returned inv_exit [OF assms(1)] inv_phase [OF assms(1), of Loop_check]
      by (auto simp: acceptor_select_def acceptor_retry_def Let_def split: if_splits)
  next
    case False
    then have "sv_acceptor s' = Loop_check" "sv_fds s' = q" "sv_parsers s' = sv_parsers s"
      "sv_main s' = sv_main s" "sv_queue s' = sv_queue s" "sv_workers s' = sv_workers s"
      using assms(3) Accept_returned q by (cases b; simp add: acceptor_select_def Let_def; auto)+
    with inv_accept [OF assms(1,2)] q show ?thesis by blast
  qed
qed (use assms inv_exit [OF assms(1)] inv_phase [OF assms(1), of Loop_check] in
  \<open>auto simp: acceptor_select_def acceptor_retry_def split: if_splits\<close>)

lemma inv_parser:
  assumes "server_inv s" "i < length (sv_parsers s)"
    and "parser_step e (sv_parsers s ! i) s = Some (ph, s', evs)"
  shows "server_inv (s'\<lparr>sv_parsers := (sv_parsers s')[i := ph]\<rparr>)"
proof -
  let ?t = "s'\<lparr>sv_parsers := (sv_parsers s')[i := ph]\<rparr>" and ?ph = "sv_parsers s ! i"
  have mem: "?ph \<in> set (sv_parsers s)" "?ph \<noteq> P_done" using assms(2,3) by (auto simp: parser_step_def)
  have e: "entry_inv s" and wk: "work_inv s" using assms(1) by (simp_all add: server_inv_def)
  have main: "sv_main s \<notin> {Await_workers, Main_done}"
    using e mem by (auto simp: entry_inv_def list_all_iff)
  have sound: "parser_sound ?ph" using e mem(1) by (auto simp: entry_inv_def list_all_iff)
  have same: "sv_acceptor s' = sv_acceptor s" "sv_main s' = sv_main s" "sv_parsers s' = sv_parsers s"
    "sv_workers s' = sv_workers s"
    using assms(3) by (auto simp: parser_step_def split: parser_phase.splits parser_verdict.splits
        pop_result.splits prod.splits)
  have "sv_queue s' = sv_queue s \<or> (\<exists>r. sv_queue s' = (sv_queue s)\<lparr>q_items := q_items (sv_queue s) @ [r]\<rparr>)"
    using assms(3) by (auto simp: parser_step_def admit_request_def push_def
        split: parser_phase.splits parser_verdict.splits pop_result.splits prod.splits if_splits)
  then have "work_inv s'" using wk main same by (auto simp: work_inv_def busy_workers_def)
  moreover have "fd_closed (sv_fds s') = fd_closed (sv_fds s) \<and> parser_sound ph \<and>
      (ph = P_done \<longrightarrow> fd_closed (sv_fds s) \<and> fd_items (sv_fds s) = []) \<and>
      (fd_items (sv_fds s) = [] \<longrightarrow> fd_items (sv_fds s') = [])"
    using assms(3) sound
    by (cases ?ph) (auto simp: parser_step_def fd_wait_pop_def number_request_def
        dest!: parse_connection_sound
        split: parser_verdict.splits list.splits prod.splits if_splits)
  ultimately show ?thesis
    using e main same work_inv_cong [of ?t s']
    by (auto simp: server_inv_def entry_inv_def list_all_iff dest: done_update)
qed

lemma worker_step_same:
  "worker_step e ph0 s = Some (ph, s', evs) \<Longrightarrow>
   sv_acceptor s' = sv_acceptor s \<and> sv_main s' = sv_main s \<and> sv_parsers s' = sv_parsers s \<and>
   sv_workers s' = sv_workers s \<and> sv_fds s' = sv_fds s"
  by (auto simp: worker_step_def split: worker_phase.splits pop_result.splits prod.splits)

text \<open>The queue after the step of a worker, and what the worker then holds.\<close>

lemma worker_step_queue:
  assumes "worker_step e ph0 s = Some (ph, s', evs)"
  obtains (popped) r0 r b where "ph0 = W_waiting" "ph = W_serving (r, b)" "same_request r0 r"
      "mset (q_items (sv_queue s)) = mset (q_items (sv_queue s')) + {#r0#}"
      "q_inflight (sv_queue s') = Suc (q_inflight (sv_queue s))"
      "q_closed (sv_queue s') = q_closed (sv_queue s)" "evs = []"
    | (leaves) "ph0 = W_waiting" "ph = W_done" "sv_queue s' = sv_queue s" "evs = []"
      "q_items (sv_queue s) = []" "q_closed (sv_queue s)" "q_inflight (sv_queue s) = 0"
    | (served) r b out where "ph0 = W_serving (r, b)" "ph = W_returning out" "evs = []"
      "same_request r (outcome_request out)" "sv_queue s' = sv_queue s"
    | (returns) out where "ph0 = W_returning out" "ph = W_waiting"
      "sv_queue s' = (case out of Requeued r \<Rightarrow> requeue r (sv_queue s) | _ \<Rightarrow> Request_Queue.complete (sv_queue s))"
      "evs = (case out of Requeued r \<Rightarrow> [] | _ \<Rightarrow> [E_end (outcome_request out),
         E_close (client_fd (outcome_request out))])"
proof (cases ph0)
  case W_waiting
  show ?thesis
  proof (cases "scheduler_next (we_sched e) (sv_queue s)")
    case Drained
    with assms W_waiting leaves scheduler_next_waits(1) [of "we_sched e" "sv_queue s"] show ?thesis
      by (auto simp: worker_step_def)
  next
    case (Popped d q)
    obtain r b where d: "d = (r, b)" by fastforce
    from Popped d obtain r0 where "same_request r0 r" "mset (q_items (sv_queue s)) = mset (q_items q) + {#r0#}"
        "q_inflight q = Suc (q_inflight (sv_queue s))" "q_closed q = q_closed (sv_queue s)"
      by (auto elim: scheduler_next_popped)
    with assms W_waiting Popped d show ?thesis by (intro popped) (auto simp: worker_step_def)
  qed (use assms W_waiting in \<open>auto simp: worker_step_def\<close>)
next
  case (W_serving d)
  then show ?thesis
    using assms served worker_process_same by (cases d) (auto simp: worker_step_def split: prod.splits)
next
  case (W_returning out)
  then show ?thesis
    using assms by (intro returns [of out])
      (auto simp: worker_step_def worker_finish_def split: worker_outcome.splits)
qed (use assms in \<open>auto simp: worker_step_def\<close>)

lemma inv_worker:
  assumes "server_inv s" "i < length (sv_workers s)"
    and "worker_step e (sv_workers s ! i) s = Some (ph, s', evs)"
  shows "server_inv (s'\<lparr>sv_workers := (sv_workers s')[i := ph]\<rparr>)"
proof -
  let ?t = "s'\<lparr>sv_workers := (sv_workers s')[i := ph]\<rparr>"
  note same = worker_step_same [OF assms(3)]
  have wk: "work_inv s" and en: "entry_inv s" using assms(1) by (simp_all add: server_inv_def)
  have "entry_inv ?t" using en same by (subst entry_inv_cong [of _ s]) simp_all
  moreover have "busy_workers ?t = concat (map worker_holds ((sv_workers s)[i := ph]))"
    using same by (simp add: busy_workers_def)
  then have len: "length (busy_workers ?t) + length (worker_holds (sv_workers s ! i)) =
      length (busy_workers s) + length (worker_holds ph)"
    using busy_length [OF assms(2), of ph] by simp
  have notdone: "sv_workers s ! i \<noteq> W_done" using assms(3) by (auto simp: worker_step_def)
  then have main: "sv_main s \<noteq> Main_done"
    using wk nth_mem [OF assms(2)] by (auto simp: work_inv_def list_all_iff)
  have dn: "W_done \<in> set ((sv_workers s)[i := ph]) \<Longrightarrow> W_done \<in> set (sv_workers s) \<or> ph = W_done"
    by (auto dest: done_update)
  from assms(3) have "work_inv ?t"
  proof (cases rule: worker_step_queue)
    case (returns out)
    have "W_done \<notin> set (sv_workers s)"
      using wk busy_member [OF assms(2)] returns(1) by (auto simp: work_inv_def)
    then show ?thesis
      using wk len returns same main dn
      by (auto simp: work_inv_def requeue_def Request_Queue.complete_def split: worker_outcome.splits)
  qed (use wk len same main dn in \<open>auto simp: work_inv_def\<close>)
  ultimately show ?thesis by (simp add: server_inv_def)
qed

lemma inv_main:
  assumes "server_inv s" "main_step d out s = Some s'"
  shows "server_inv s'"
  using assms
  by (auto simp: main_step_def server_inv_def entry_inv_def work_inv_def close_queue_def busy_workers_def
      split: main_phase.splits if_splits)

lemma server_inv_step:
  assumes "server_step e metrics_out s evs s'" "server_inv s"
  shows "server_inv s'"
  using assms
proof (cases rule: server_step.cases)
  case step_check
  then show ?thesis
    using assms(2) inv_exit inv_phase [of s In_select] by (simp add: acceptor_check_def)
qed (use assms(2) in \<open>auto intro: inv_signal inv_select inv_parser inv_worker inv_main\<close>)

lemma server_inv_start: "server_inv (server_start n c w)"
  by (auto simp: server_inv_def entry_inv_def work_inv_def server_start_def empty_queue_def busy_workers_def
      list_all_iff)

section \<open>Nothing is lost or duplicated\<close>

lemma worker_step_balance:
  assumes "worker_step e ph0 s = Some (ph, s', evs)" "\<And>r r'. same_request r r' \<Longrightarrow> f r' = f r"
  shows "image_mset f (mset (q_items (sv_queue s'))) + mset (map f (worker_holds ph)) +
      mset (map f (concat (map ended evs))) =
    image_mset f (mset (q_items (sv_queue s))) + mset (map f (worker_holds ph0))"
  using assms(1)
proof (cases rule: worker_step_queue)
  case (popped r0 r b)
  then show ?thesis using assms(2) [OF popped(3)] by simp
next
  case (served r b out)
  then show ?thesis using assms(2) [OF served(4)] by simp
next
  case (returns out)
  then show ?thesis by (cases out) (simp_all add: requeue_def Request_Queue.complete_def)
qed simp

lemma worker_step_events:
  assumes "worker_step e ph0 s = Some (ph, s', evs)"
  shows "concat (map closed evs) = map client_fd (concat (map ended evs))" "concat (map accepted evs) = []"
    "concat (map admitted evs) = []"
  using assms by (cases rule: worker_step_queue; auto split: worker_outcome.splits)+

lemma held_requests_worker:
  assumes "i < length (sv_workers s)" "worker_step e (sv_workers s ! i) s = Some (ph, s', evs)"
    and "\<And>r r'. same_request r r' \<Longrightarrow> f r' = f r"
  shows "image_mset f (held_requests (s'\<lparr>sv_workers := (sv_workers s')[i := ph]\<rparr>)) +
      mset (map f (concat (map ended evs))) = image_mset f (held_requests s)"
proof -
  let ?t = "s'\<lparr>sv_workers := (sv_workers s')[i := ph]\<rparr>" and ?ph0 = "sv_workers s ! i"
  let ?H = "\<lambda>ph. mset (map f (worker_holds ph))"
  have "image_mset f (mset (busy_workers ?t) + mset (worker_holds ?ph0)) =
      image_mset f (mset (busy_workers s) + mset (worker_holds ph))"
    using busy_update [OF assms(1), of ph] worker_step_same [OF assms(2)]
    unfolding busy_workers_def by simp
  then have b: "image_mset f (mset (busy_workers ?t)) + ?H ?ph0 = image_mset f (mset (busy_workers s)) + ?H ph"
    by simp
  have a: "image_mset f (mset (q_items (sv_queue s'))) + ?H ph + mset (map f (concat (map ended evs))) =
      image_mset f (mset (q_items (sv_queue s))) + ?H ?ph0"
    using assms(2,3) by (rule worker_step_balance)
  have "image_mset f (held_requests ?t) + mset (map f (concat (map ended evs))) + (?H ?ph0 + ?H ph) =
      (image_mset f (mset (q_items (sv_queue s'))) + ?H ph + mset (map f (concat (map ended evs)))) +
      (image_mset f (mset (busy_workers ?t)) + ?H ?ph0)"
    by (simp add: held_requests_def)
  also have "\<dots> = image_mset f (held_requests s) + (?H ?ph0 + ?H ph)"
    unfolding a b by (simp add: held_requests_def)
  finally show ?thesis by simp
qed

lemma held_requests_cong:
  "sv_queue s' = sv_queue s \<Longrightarrow> sv_workers s' = sv_workers s \<Longrightarrow> held_requests s' = held_requests s"
  by (simp add: held_requests_def busy_workers_def)

lemma parser_step_same:
  "parser_step e ph0 s = Some (ph, s', evs) \<Longrightarrow>
   sv_parsers s' = sv_parsers s \<and> sv_workers s' = sv_workers s \<and> concat (map ended evs) = []"
  by (auto simp: parser_step_def split: parser_phase.splits parser_verdict.splits pop_result.splits prod.splits)

lemma parser_step_requests:
  "parser_step e ph0 s = Some (ph, s', evs) \<Longrightarrow>
   q_items (sv_queue s') = q_items (sv_queue s) @ concat (map admitted evs)"
  by (auto simp: parser_step_def admit_request_def push_def
      split: parser_phase.splits parser_verdict.splits pop_result.splits prod.splits if_splits)

lemma parser_step_connections:
  assumes "parser_step e ph0 s = Some (ph, s', evs)" "parser_sound ph0"
  shows "mset (fd_items (sv_fds s')) + mset (parser_holds ph) +
      mset (map client_fd (concat (map admitted evs))) + mset (concat (map closed evs)) =
    mset (fd_items (sv_fds s)) + mset (parser_holds ph0)" "concat (map accepted evs) = []"
  using assms
  by (auto simp: parser_step_def admit_request_def push_def fd_wait_pop_def
      split: parser_phase.splits parser_verdict.splits prod.splits if_splits list.splits)

lemma connections_parser:
  assumes "i < length (sv_parsers s)" "parser_step e (sv_parsers s ! i) s = Some (ph, s', evs)"
    and "parser_sound (sv_parsers s ! i)"
  shows "held_connections (s'\<lparr>sv_parsers := (sv_parsers s')[i := ph]\<rparr>) + mset (concat (map closed evs)) =
    held_connections s + mset (concat (map accepted evs))"
proof -
  let ?t = "s'\<lparr>sv_parsers := (sv_parsers s')[i := ph]\<rparr>" and ?ph0 = "sv_parsers s ! i"
  let ?H = "\<lambda>ph. mset (parser_holds ph)" and ?C = "mset (concat (map closed evs))"
  let ?A = "mset (map client_fd (concat (map admitted evs)))"
  note same = parser_step_same [OF assms(2)]
  have b: "mset (concat (map parser_holds (sv_parsers ?t))) + ?H ?ph0 =
      mset (concat (map parser_holds (sv_parsers s))) + ?H ph"
    using concat_map_update [OF assms(1), of parser_holds ph] same by simp
  have r: "image_mset client_fd (held_requests ?t) = image_mset client_fd (held_requests s) + ?A"
    using parser_step_requests [OF assms(2)] same by (simp add: held_requests_def busy_workers_def)
  have "held_connections ?t + ?C + (?H ?ph0 + ?H ph) =
      (mset (fd_items (sv_fds s')) + ?H ph + ?A + ?C) +
      (mset (concat (map parser_holds (sv_parsers ?t))) + ?H ?ph0) + image_mset client_fd (held_requests s)"
    unfolding held_connections_def r by simp
  also have "\<dots> = held_connections s + (?H ?ph0 + ?H ph)"
    unfolding parser_step_connections(1) [OF assms(2,3)] b by (simp add: held_connections_def)
  finally show ?thesis using parser_step_connections(2) [OF assms(2,3)] by simp
qed

lemma acceptor_connections:
  assumes "acceptor_select ev s = (s', evs)"
  shows "held_connections s' + mset (concat (map closed evs)) =
      held_connections s + mset (concat (map accepted evs))"
    "held_requests s' = held_requests s" "concat (map admitted evs) = []" "concat (map ended evs) = []"
  using assms
  by (auto simp: acceptor_select_def acceptor_retry_def acceptor_exit_def Let_def fd_push_def fd_close_def
      held_connections_def held_requests_def busy_workers_def split: accept_event.splits if_splits prod.splits)

lemma main_step_holds:
  "main_step d out s = Some s' \<Longrightarrow> held_requests s' = held_requests s \<and> held_connections s' = held_connections s"
  by (auto simp: main_step_def held_connections_def held_requests_def busy_workers_def close_queue_def
      split: main_phase.splits if_splits)

lemma connections_step:
  assumes "server_step e metrics_out s evs s'" "server_inv s"
  shows "held_connections s' + mset (concat (map closed evs)) =
    held_connections s + mset (concat (map accepted evs))"
  using assms(1)
proof (cases rule: server_step.cases)
  case step_signal
  then show ?thesis by (simp add: handle_signal_def held_connections_def held_requests_def busy_workers_def)
next
  case step_check
  then show ?thesis
    by (simp add: acceptor_check_def acceptor_exit_def fd_close_def held_connections_def held_requests_def
        busy_workers_def)
next
  case (step_select ev)
  then show ?thesis by (blast intro: acceptor_connections(1))
next
  case (step_parser i ph s1)
  then have "parser_sound (sv_parsers s ! i)"
    using assms(2) by (auto simp: server_inv_def entry_inv_def list_all_length)
  with step_parser show ?thesis by (auto intro: connections_parser)
next
  case (step_worker i ph s1)
  have f: "\<And>r r'. same_request r r' \<Longrightarrow> client_fd r' = client_fd r" by (simp add: same_request_def)
  show ?thesis
    using held_requests_worker [OF step_worker(2,3) f] worker_step_same [OF step_worker(3)]
      worker_step_events [OF step_worker(3)] step_worker(1) by (simp add: held_connections_def)
next
  case step_main
  then show ?thesis using main_step_holds by fastforce
qed

text \<open>What a request keeps is conserved, whatever it is.\<close>

lemma held_image_step:
  assumes "server_step e metrics_out s evs s'" and f: "\<And>r r'. same_request r r' \<Longrightarrow> f r' = f r"
  shows "image_mset f (held_requests s') + mset (map f (concat (map ended evs))) =
    image_mset f (held_requests s) + mset (map f (concat (map admitted evs)))"
  using assms(1)
proof (cases rule: server_step.cases)
  case step_signal
  then show ?thesis by (simp add: handle_signal_def held_requests_def busy_workers_def)
next
  case step_check
  then show ?thesis by (simp add: acceptor_check_def acceptor_exit_def held_requests_def busy_workers_def)
next
  case (step_select ev)
  show ?thesis unfolding acceptor_connections(2-4) [OF step_select(2)] by simp
next
  case (step_parser i ph s1)
  then show ?thesis
    using parser_step_same [OF step_parser(3)] parser_step_requests [OF step_parser(3)]
    by (simp add: held_requests_def busy_workers_def)
next
  case (step_worker i ph s1)
  show ?thesis
    using held_requests_worker [OF step_worker(2,3) f] worker_step_events [OF step_worker(3)] step_worker(1) by simp
next
  case step_main
  then show ?thesis using main_step_holds by fastforce
qed

lemma requests_step:
  assumes "server_step e metrics_out s evs s'"
  shows "image_mset request_id (held_requests s') + mset (concat (map ended_ids evs)) =
    image_mset request_id (held_requests s) + mset (concat (map admitted_ids evs))"
proof -
  have ids: "concat (map ended_ids evs) = map request_id (concat (map ended evs))"
    "concat (map admitted_ids evs) = map request_id (concat (map admitted evs))"
    by (induction evs) (simp_all add: ended_ids_def admitted_ids_def)
  show ?thesis
    unfolding ids using assms by (rule held_image_step) (simp add: same_request_def)
qed

interpretation connection_ledger: ledger "server_step e metrics_out" "server_run e metrics_out" server_inv
    held_connections accepted closed for e metrics_out
proof unfold_locales
  fix P and s0 s :: server_state and tr
  assume "server_run e metrics_out s0 tr s" and "P [] s0"
    and "\<And>tr s evs s'. P tr s \<Longrightarrow> server_step e metrics_out s evs s' \<Longrightarrow> P (tr @ evs) s'"
  then show "P tr s" by (induction rule: server_run.induct) auto
qed (auto intro: server_inv_step connections_step)

interpretation request_ledger: ledger "server_step e metrics_out" "server_run e metrics_out" server_inv
    "\<lambda>s. image_mset request_id (held_requests s)" admitted_ids ended_ids for e metrics_out
proof unfold_locales
qed (fact connection_ledger.run_induct connection_ledger.inv_step | rule requests_step, assumption)+

section \<open>No deadlock\<close>

lemma run_lengths:
  assumes "server_run e metrics_out s0 tr s"
  shows "length (sv_parsers s) = length (sv_parsers s0) \<and> length (sv_workers s) = length (sv_workers s0)"
proof -
  have "length (sv_parsers s') = length (sv_parsers s) \<and> length (sv_workers s') = length (sv_workers s)"
    if "server_step e metrics_out s evs s'" for s evs s'
    using that
  proof (cases rule: server_step.cases)
    case (step_parser i ph s1)
    then show ?thesis using parser_step_same [OF step_parser(3)] by simp
  next
    case (step_worker i ph s1)
    then show ?thesis using worker_step_same [OF step_worker(3)] by simp
  qed (auto simp: handle_signal_def acceptor_check_def acceptor_exit_def acceptor_select_def
      acceptor_retry_def main_step_def Let_def
      split: accept_event.splits if_splits prod.splits bool.splits main_phase.splits)
  with assms show ?thesis by (induction rule: server_run.induct) auto
qed

definition can_move :: "worker_env \<Rightarrow> path \<Rightarrow> server_state \<Rightarrow> bool" where
  "can_move e metrics_out s \<longleftrightarrow>
     sv_acceptor s \<noteq> Acceptor_done \<or>
     (\<exists>i < length (sv_parsers s). parser_step e (sv_parsers s ! i) s \<noteq> None) \<or>
     (\<exists>i < length (sv_workers s). worker_step e (sv_workers s ! i) s \<noteq> None) \<or>
     main_step (we_disk e) metrics_out s \<noteq> None"

lemma parser_blocked:
  "parser_step e ph s = None \<longleftrightarrow> ph = P_done \<or> ph = P_waiting \<and> fd_items (sv_fds s) = [] \<and> \<not> fd_closed (sv_fds s)"
  by (auto simp: parser_step_def fd_wait_pop_def split: parser_phase.splits parser_verdict.splits
      list.splits prod.splits)

lemma worker_blocked:
  "worker_step e ph s = None \<longleftrightarrow> ph = W_done \<or> ph = W_waiting \<and> q_items (sv_queue s) = [] \<and>
     \<not> (q_closed (sv_queue s) \<and> q_inflight (sv_queue s) = 0)"
  using scheduler_next_waits [of "we_sched e" "sv_queue s"]
  by (auto simp: worker_step_def split: worker_phase.splits pop_result.splits prod.splits)

lemma inv_can_move:
  assumes "server_inv s" "sv_main s \<noteq> Main_done"
  shows "can_move e metrics_out s"
proof (rule ccontr)
  assume n: "\<not> can_move e metrics_out s"
  have inv: "entry_inv s" "work_inv s" using assms(1) by (simp_all add: server_inv_def)
  have acc: "sv_acceptor s = Acceptor_done" "fd_closed (sv_fds s)"
    using n inv(1) by (auto simp: can_move_def entry_inv_def)
  have p: "list_all (\<lambda>ph. ph = P_done) (sv_parsers s)"
    using n acc(2) by (auto simp: can_move_def parser_blocked list_all_length)
  have main: "sv_main s = Await_workers"
    using n acc p assms(2) by (cases "sv_main s") (auto simp: can_move_def main_step_def)
  then have "q_closed (sv_queue s)" using inv(2) by (simp add: work_inv_def)
  have blocked: "\<forall>ph \<in> set (sv_workers s). ph = W_done \<or> ph = W_waiting \<and> 0 < q_inflight (sv_queue s)"
    using n \<open>q_closed (sv_queue s)\<close> by (auto simp: can_move_def worker_blocked in_set_conv_nth)
  then have "busy_workers s = []" by (auto simp: busy_workers_def)
  then have "q_inflight (sv_queue s) = 0" using inv(2) by (simp add: work_inv_def)
  with blocked have "list_all (\<lambda>ph. ph = W_done) (sv_workers s)" by (auto simp: list_all_iff)
  with main n show False by (simp add: can_move_def main_step_def)
qed

section \<open>The shutdown of an idle server\<close>

lemma replicate_next: "(replicate k a @ replicate (Suc n) b)[k := a] = replicate (Suc k) a @ replicate n b"
  by (simp add: list_update_append replicate_app_Cons_same)

lemma parsers_leave:
  "server_run e m s0 tr s \<Longrightarrow> fd_closed (sv_fds s) \<Longrightarrow> fd_items (sv_fds s) = [] \<Longrightarrow>
   sv_parsers s = replicate k P_done @ replicate n P_waiting \<Longrightarrow>
   server_run e m s0 tr (s\<lparr>sv_parsers := replicate (k + n) P_done\<rparr>)"
proof (induction n arbitrary: s k)
  case 0
  then have "s\<lparr>sv_parsers := replicate (k + 0) P_done\<rparr> = s" by (cases s) simp
  with 0(1) show ?case by (simp only:)
next
  case (Suc n)
  let ?s = "s\<lparr>sv_parsers := (sv_parsers s)[k := P_done]\<rparr>"
  have "server_step e m s [] ?s"
    using Suc.prems by (intro step_parser) (auto simp: parser_step_def fd_wait_pop_def nth_append)
  then have "server_run e m s0 tr ?s" using run_step [OF Suc.prems(1)] by fastforce
  moreover have "sv_parsers ?s = replicate (Suc k) P_done @ replicate n P_waiting"
    using Suc.prems(4) replicate_next by simp
  ultimately show ?case using Suc.IH [of ?s "Suc k"] Suc.prems by simp
qed

lemma workers_leave:
  "server_run e m s0 tr s \<Longrightarrow> q_closed (sv_queue s) \<Longrightarrow> q_items (sv_queue s) = [] \<Longrightarrow>
   q_inflight (sv_queue s) = 0 \<Longrightarrow> sv_workers s = replicate k W_done @ replicate n W_waiting \<Longrightarrow>
   server_run e m s0 tr (s\<lparr>sv_workers := replicate (k + n) W_done\<rparr>)"
proof (induction n arbitrary: s k)
  case 0
  then have "s\<lparr>sv_workers := replicate (k + 0) W_done\<rparr> = s" by (cases s) simp
  with 0(1) show ?case by (simp only:)
next
  case (Suc n)
  let ?s = "s\<lparr>sv_workers := (sv_workers s)[k := W_done]\<rparr>"
  have "scheduler_next (we_sched e) (sv_queue s) = Drained"
    using Suc.prems by (simp add: scheduler_next_waits)
  then have "server_step e m s [] ?s"
    using Suc.prems by (intro step_worker) (auto simp: worker_step_def nth_append)
  then have "server_run e m s0 tr ?s" using run_step [OF Suc.prems(1)] by fastforce
  moreover have "sv_workers ?s = replicate (Suc k) W_done @ replicate n W_waiting"
    using Suc.prems(5) replicate_next by simp
  ultimately show ?case using Suc.IH [of ?s "Suc k"] Suc.prems by simp
qed

lemma run_step0: "server_run e m s0 tr s \<Longrightarrow> server_step e m s [] s' \<Longrightarrow> server_run e m s0 tr s'"
  using run_step [of e m s0 tr s "[]" s'] by simp

lemma idle_run:
  fixes n c :: int and w :: world
  defines "s0 \<equiv> server_start n c w"
  shows "\<exists>s. server_run e m s0 [] s \<and> sv_main s = Main_done \<and> sv_metrics s = [] \<and>
    sv_world s = snd (write_csv (we_disk e) m [] w)"
proof -
  let ?s2 = "acceptor_check (handle_signal s0)"
  let ?s3 = "?s2\<lparr>sv_main := Await_parsers\<rparr>"
  let ?s4 = "?s3\<lparr>sv_parsers := replicate (0 + parser_count c) P_done\<rparr>"
  let ?s5 = "?s4\<lparr>sv_main := Await_workers, sv_queue := close_queue (sv_queue ?s4)\<rparr>"
  let ?s6 = "?s5\<lparr>sv_workers := replicate (0 + nat n) W_done\<rparr>"
  note defs = s0_def server_start_def handle_signal_def acceptor_check_def acceptor_exit_def fd_close_def
    empty_queue_def close_queue_def
  have "server_run e m s0 [] (handle_signal s0)" by (intro run_step0 [OF run_start] step_signal)
  then have "server_run e m s0 [] ?s2" by (rule run_step0) (rule step_check, simp add: defs)
  then have "server_run e m s0 [] ?s3"
    by (rule run_step0) (rule step_main, simp add: main_step_def defs)
  then have "server_run e m s0 [] ?s4" by (rule parsers_leave) (simp_all add: defs)
  then have "server_run e m s0 [] ?s5"
    by (rule run_step0) (rule step_main, simp add: main_step_def defs list_all_iff)
  then have r6: "server_run e m s0 [] ?s6" by (rule workers_leave) (simp_all add: defs)
  have "main_step (we_disk e) m ?s6 = Some (?s6\<lparr>sv_main := Main_done,
      sv_world := snd (write_csv (we_disk e) m [] w)\<rparr>)"
    by (simp add: main_step_def defs list_all_iff)
  with r6 run_step0 step_main have "server_run e m s0 [] (?s6\<lparr>sv_main := Main_done,
      sv_world := snd (write_csv (we_disk e) m [] w)\<rparr>)" by blast
  then show ?thesis by (intro exI conjI) (assumption, simp_all add: defs)
qed

section \<open>Properties\<close>




definition demo_accepting :: server_state where
  "demo_accepting = acceptor_check (server_start 1 10 (demo_world Map.empty []))"

lemma demo_accept_run:
  "server_run (demo_env RR 2) ''m.csv'' (server_start 1 10 (demo_world Map.empty [])) [E_accept 5]
     (fst (acceptor_select (Accept_returned 5 (demo_socket [])) demo_accepting))"
proof -
  let ?s0 = "server_start 1 10 (demo_world Map.empty [])"
  have "server_run (demo_env RR 2) ''m.csv'' ?s0 [] demo_accepting"
    unfolding demo_accepting_def by (rule run_step0 [OF run_start step_check]) (simp add: server_start_def)
  moreover have "sv_acceptor demo_accepting = In_select"
    "acceptor_select (Accept_returned 5 (demo_socket [])) demo_accepting =
      (fst (acceptor_select (Accept_returned 5 (demo_socket [])) demo_accepting), [E_accept 5])"
    by (simp_all add: demo_accepting_def acceptor_check_def server_start_def acceptor_select_def
        accept_connection_def fd_push_def)
  ultimately show ?thesis using run_step [OF _ step_select] by fastforce
qed


text \<open>
  C22. The shutdown order is right: as long as a parser has a request to admit,
  the request queue is open, and as long as the acceptor can accept, the
  connection queue is open. So no admitted request is refused with
  \<^verbatim>\<open>server shutting down\<close>, and no accepted connection is dropped.
\<close>

theorem admission_never_refused:
  assumes "server_run e metrics_out (server_start n c w) tr s"
  shows "(\<forall>fd r. P_numbered fd r \<in> set (sv_parsers s) \<longrightarrow>
      fst (admit_request fd r (sv_queue s, sv_world s))) \<and>
    (sv_acceptor s = In_select \<longrightarrow> (\<forall>fd. fst (fd_push fd (sv_fds s))))"
proof -
  have "server_inv s" using assms server_inv_start by (rule connection_ledger.run_inv)
  then show ?thesis
    by (auto simp: server_inv_def entry_inv_def work_inv_def admit_request_def push_def fd_push_def list_all_iff)
qed

theorem admission_never_refused_witness:
  "fst (fd_push 6 (sv_fds (acceptor_check
     (fst (acceptor_select (Accept_returned 5 (demo_socket [])) demo_accepting)))))"
proof -
  let ?s = "fst (acceptor_select (Accept_returned 5 (demo_socket [])) demo_accepting)"
  have s: "sv_acceptor ?s = Loop_check" "\<not> sv_shutdown ?s"
    by (simp_all add: demo_accepting_def acceptor_check_def server_start_def acceptor_select_def
        accept_connection_def fd_push_def)
  from run_step0 [OF demo_accept_run step_check [OF s(1)]] have
    "server_run (demo_env RR 2) ''m.csv'' (server_start 1 10 (demo_world Map.empty [])) [E_accept 5]
      (acceptor_check ?s)" .
  from admission_never_refused [OF this] s show ?thesis by (simp add: acceptor_check_def)
qed

text \<open>
  C13. The server never deadlocks: until \<^verbatim>\<open>main\<close> has finished, some thread can
  move in every reachable state. In particular after a shutdown request the
  parsers leave once the accepted connections are handled, the workers leave
  once the admitted requests have ended, and none of them waits for ever on a
  queue that has been closed.
\<close>

theorem server_deadlock_free:
  assumes "server_run e metrics_out (server_start n c w) tr s" and "sv_main s \<noteq> Main_done"
  shows "can_move e metrics_out s"
  using connection_ledger.run_inv [OF assms(1) server_inv_start] assms(2) by (rule inv_can_move)

theorem server_deadlock_free_witness:
  "can_move (demo_env RR 2) ''m.csv'' (server_start 1 10 (demo_world Map.empty []))"
  by (rule server_deadlock_free [OF run_start]) (simp add: server_start_def)

text \<open>
  An idle server stops on request: from the start state, after a signal and
  with no connection, all threads leave and \<^verbatim>\<open>main\<close> ends with no completed
  request, whatever the number of threads and the scheduling policy.
\<close>

theorem idle_server_stops:
  "\<exists>s. server_run e metrics_out (server_start n c w) [] s \<and> sv_main s = Main_done \<and> sv_metrics s = [] \<and>
    sv_world s = snd (write_csv (we_disk e) metrics_out [] w)"
  by (rule idle_run)

end
