(* ===== verification/Config_Loading.thy ===== *)
theory Config_Loading
  imports Json_Config
begin

text \<open>
  The JSON parser always returns, and a configuration that is loaded is one the
  server can run with.
\<close>

section \<open>The parser consumes its input\<close>

lemma skip_ws_length: "length (skip_ws s) \<le> length s"
  by (simp add: skip_ws_def length_dropWhile_le)

lemma consume_length:
  "consume c s = (b, r) \<Longrightarrow> (if b then length r < length s else length r \<le> length s)"
proof (cases "skip_ws s")
  case (Cons x t)
  then have "Suc (length t) \<le> length s" using skip_ws_length [of s] by simp
  moreover assume "consume c s = (b, r)"
  ultimately show ?thesis using Cons
    by (auto simp: consume_def Let_def skip_ws_length split: if_splits)
qed (auto simp: consume_def Let_def)

lemma consume_shorter: "consume c s = (True, r) \<Longrightarrow> length r < length s"
  using consume_length [of c s True r] by simp

lemma consume_not_longer: "consume c s = (False, r) \<Longrightarrow> length r \<le> length s"
  using consume_length [of c s False r] by simp

lemma scan_string_shorter: "scan_string acc s = Parsed v r \<Longrightarrow> length r < length s"
proof (induction acc s rule: scan_string.induct)
  case (2 acc c s)
  show ?case
  proof (cases "c \<noteq> quote \<and> c = backslash")
    case False
    with 2 show ?thesis by (auto split: if_splits)
  next
    case True
    then obtain e t where t: "s = e # t" using "2.prems" by (cases s) auto
    then consider "e = CHR ''u''" "\<not> length t < 4" "scan_string (acc @ ''?'') (drop 4 t) = Parsed v r"
      | x where "e \<noteq> CHR ''u''" "escaped e = Some x" "scan_string (acc @ [x]) t = Parsed v r"
      using "2.prems" True by (auto split: if_splits option.splits)
    then show ?thesis
    proof cases
      case 1
      with "2.IH"(1) True t have "length r < length (drop 4 t)" by blast
      with t show ?thesis by simp
    next
      case (2 x)
      with "2.IH"(2) True t have "length r < length t" by blast
      with t show ?thesis by simp
    qed
  qed
qed simp

lemma scan_string_fuel: "scan_string acc s \<noteq> Out_of_fuel"
  by (induction acc s rule: scan_string.induct) (auto split: list.splits option.splits)

lemma parse_string_shorter: "parse_string s = Parsed v r \<Longrightarrow> length r < length s"
  using skip_ws_length [of s] by (fastforce simp: parse_string_def dest: scan_string_shorter split: list.splits if_splits)

lemma parse_string_fuel: "parse_string s \<noteq> Out_of_fuel"
  by (simp add: parse_string_def scan_string_fuel split: list.splits)

lemma optional_char_length: "optional_char cs s = (a, r) \<Longrightarrow> length r \<le> length s"
  by (auto simp: optional_char_def split: list.splits if_splits)

lemma digits_shorter: "digits s = Some (a, r) \<Longrightarrow> length r < length s"
  by (cases s) (auto simp: digits_def less_Suc_eq_le length_dropWhile_le split: if_splits)

lemma int_part_shorter: "int_part s = Some (a, r) \<Longrightarrow> length r < length s"
  by (auto simp: int_part_def dest!: digits_shorter split: list.splits if_splits)

lemma fraction_part_length: "fraction_part s = Some (b, a, r) \<Longrightarrow> length r \<le> length s"
  by (auto simp: fraction_part_def dest: digits_shorter split: list.splits if_splits option.splits)

lemma exponent_part_length: "exponent_part s = Some (b, a, r) \<Longrightarrow> length r \<le> length s"
  by (auto simp: exponent_part_def dest!: digits_shorter optional_char_length
      split: list.splits if_splits option.splits prod.splits)

lemma parse_number_shorter:
  assumes "parse_number sd s = Parsed v r"
  shows "length r < length s"
proof -
  obtain sign s1 ds s2 hf frac s3 he ex where "optional_char {CHR ''-''} (skip_ws s) = (sign, s1)"
      "int_part s1 = Some (ds, s2)" "fraction_part s2 = Some (hf, frac, s3)"
      "exponent_part s3 = Some (he, ex, r)"
    using assms by (auto simp: parse_number_def Let_def split: prod.splits option.splits if_splits sum.splits)
  then have "length s1 \<le> length (skip_ws s)" "length s2 < length s1" "length s3 \<le> length s2"
    "length r \<le> length s3"
    by (auto dest: optional_char_length int_part_shorter fraction_part_length exponent_part_length)
  with skip_ws_length [of s] show ?thesis by linarith
qed

lemma parse_number_fuel: "parse_number sd s \<noteq> Out_of_fuel"
  by (auto simp: parse_number_def Let_def split: prod.splits option.splits sum.splits)

lemma parse_bool_shorter: "parse_bool s = Parsed v r \<Longrightarrow> length r < length s"
  by (cases s) (auto simp: parse_bool_def split: if_splits)

lemma parse_null_shorter: "parse_null s = Parsed v r \<Longrightarrow> length r < length s"
  by (cases s) (auto simp: parse_null_def split: if_splits)

lemmas token_fuel = parse_string_fuel parse_number_fuel
lemmas shorter = consume_shorter consume_not_longer parse_string_shorter parse_number_shorter
  parse_bool_shorter parse_null_shorter

lemma and_then_parsed: "and_then p f = Parsed v r \<longleftrightarrow> (\<exists>a t. p = Parsed a t \<and> f a t = Parsed v r)"
  by (cases p) auto

lemma and_then_fuel:
  "and_then p f = Out_of_fuel \<longleftrightarrow> p = Out_of_fuel \<or> (\<exists>a t. p = Parsed a t \<and> f a t = Out_of_fuel)"
  by (cases p) auto

text \<open>The two ways in which a turn of each loop succeeds.\<close>

lemma parse_members_cases:
  assumes "parse_members (Suc n) sd m s = Parsed v r"
  obtains key r1 r2 x r3 where "parse_string s = Parsed key r1" "consume (CHR '':'') r1 = (True, r2)"
      "parse_value n sd r2 = Parsed x r3" "consume (CHR ''}'') r3 = (True, r)"
    | key r1 r2 x r3 r4 r5 where "parse_string s = Parsed key r1" "consume (CHR '':'') r1 = (True, r2)"
      "parse_value n sd r2 = Parsed x r3" "consume (CHR ''}'') r3 = (False, r4)"
      "consume (CHR '','') r4 = (True, r5)" "parse_members n sd (emplace key x m) r5 = Parsed v r"
proof -
  obtain key r1 where 1: "parse_string s = Parsed key r1" using assms by (auto simp: and_then_parsed)
  obtain b2 r2 where 2: "consume (CHR '':'') r1 = (b2, r2)" by fastforce
  with assms 1 have b2: "b2" by (cases b2) auto
  with assms 1 2 obtain x r3 where 3: "parse_value n sd r2 = Parsed x r3"
    by (auto simp: and_then_parsed)
  obtain b4 r4 where 4: "consume (CHR ''}'') r3 = (b4, r4)" by fastforce
  obtain b5 r5 where 5: "consume (CHR '','') r4 = (b5, r5)" by fastforce
  show ?thesis
    using that 1 2 3 4 5 assms b2 by (cases b4; cases b5) auto
qed

lemma parse_elements_cases:
  assumes "parse_elements (Suc n) sd vs s = Parsed v r"
  obtains x r1 where "parse_value n sd s = Parsed x r1" "consume (CHR '']'') r1 = (True, r)"
    | x r1 r2 r3 where "parse_value n sd s = Parsed x r1" "consume (CHR '']'') r1 = (False, r2)"
      "consume (CHR '','') r2 = (True, r3)" "parse_elements n sd (vs @ [x]) r3 = Parsed v r"
proof -
  obtain x r1 where 1: "parse_value n sd s = Parsed x r1" using assms by (auto simp: and_then_parsed)
  obtain b2 r2 where 2: "consume (CHR '']'') r1 = (b2, r2)" by fastforce
  obtain b3 r3 where 3: "consume (CHR '','') r2 = (b3, r3)" by fastforce
  show ?thesis using that 1 2 3 assms by (cases b2; cases b3) auto
qed

lemma parse_value_cases:
  assumes "skip_ws s = c # t"
  obtains (members) t1 where "consume (CHR ''}'') t = (False, t1)"
      "parse_value (Suc n) sd s = parse_members n sd [] t1"
    | (elements) t1 where "consume (CHR '']'') t = (False, t1)"
      "parse_value (Suc n) sd s = parse_elements n sd [] t1"
    | (token) "parse_value (Suc n) sd s \<noteq> Out_of_fuel"
      "\<And>v r. parse_value (Suc n) sd s = Parsed v r \<Longrightarrow> length r < Suc (length t)"
proof (cases "c = CHR ''{'' \<or> c = CHR ''[''")
  case True
  obtain b1 t1 b2 t2 where 1: "consume (CHR ''}'') t = (b1, t1)" and 2: "consume (CHR '']'') t = (b2, t2)"
    by (meson surj_pair)
  then have sh: "b1 \<Longrightarrow> length t1 < length t" "b2 \<Longrightarrow> length t2 < length t"
    by (simp_all add: consume_shorter)
  show ?thesis
  proof (cases "c = CHR ''{''")
    case True
    with assms 1 sh(1) show ?thesis using members [of t1] token by (cases b1) auto
  next
    case False
    with True assms 2 sh(2) show ?thesis using elements [of t2] token by (cases b2) auto
  qed
next
  case False
  then have "parse_value (Suc n) sd s \<in> {and_then (parse_string (c # t)) (\<lambda>v. Parsed (Json_string v)),
      parse_bool (c # t), parse_null (c # t), parse_number sd (c # t), Malformed}" (is "?p \<in> _")
    using assms by simp
  then consider "?p = and_then (parse_string (c # t)) (\<lambda>v. Parsed (Json_string v))"
    | "?p = parse_bool (c # t)" | "?p = parse_null (c # t)" | "?p = parse_number sd (c # t)" | "?p = Malformed"
    by blast
  then have "?p \<noteq> Out_of_fuel \<and> (\<forall>v r. ?p = Parsed v r \<longrightarrow> length r < length (c # t))"
  proof cases
    case 1
    show ?thesis
      unfolding 1 using parse_string_fuel [of "c # t"] parse_string_shorter [of "c # t"]
      by (cases "parse_string (c # t)") auto
  next
    case 2
    show ?thesis unfolding 2 using parse_bool_shorter [of "c # t"] by (auto simp: parse_bool_def)
  next
    case 3
    show ?thesis unfolding 3 using parse_null_shorter [of "c # t"] by (auto simp: parse_null_def)
  next
    case 4
    show ?thesis unfolding 4 using parse_number_shorter [of sd "c # t"] parse_number_fuel by blast
  qed simp
  then show ?thesis by (intro token) auto
qed

lemma value_shorter_all:
  "(\<forall>s v r. parse_value n sd s = Parsed v r \<longrightarrow> length r < length s) \<and>
   (\<forall>m s v r. parse_members n sd m s = Parsed v r \<longrightarrow> length r < length s) \<and>
   (\<forall>vs s v r. parse_elements n sd vs s = Parsed v r \<longrightarrow> length r < length s)"
proof (induction n)
  case (Suc n)
  then have V: "\<And>s v r. parse_value n sd s = Parsed v r \<Longrightarrow> length r < length s"
    and M: "\<And>m s v r. parse_members n sd m s = Parsed v r \<Longrightarrow> length r < length s"
    and E: "\<And>vs s v r. parse_elements n sd vs s = Parsed v r \<Longrightarrow> length r < length s" by blast+
  have "length r < length s" if a: "parse_value (Suc n) sd s = Parsed v r" for s v r
  proof -
    obtain c t where c: "skip_ws s = c # t" using a by (cases "skip_ws s") auto
    then have "Suc (length t) \<le> length s" using skip_ws_length [of s] by simp
    moreover from c have "length r < Suc (length t)"
      by (cases rule: parse_value_cases [where n = n and sd = sd])
         (use a in \<open>fastforce dest: M E consume_not_longer\<close>)+
    ultimately show ?thesis by linarith
  qed
  moreover have "length r < length s" if a: "parse_members (Suc n) sd m s = Parsed v r" for m s v r
    using a
  proof (cases rule: parse_members_cases)
    case 1
    then show ?thesis by (fastforce dest: V shorter)
  next
    case 2
    then show ?thesis by (fastforce dest: V M shorter)
  qed
  moreover have "length r < length s" if a: "parse_elements (Suc n) sd vs s = Parsed v r" for vs s v r
    using a
  proof (cases rule: parse_elements_cases)
    case 1
    then show ?thesis by (fastforce dest: V shorter)
  next
    case 2
    then show ?thesis by (fastforce dest: V E shorter)
  qed
  ultimately show ?case by blast
qed simp

lemmas value_shorter = value_shorter_all [THEN conjunct1, rule_format]

section \<open>The fuel suffices\<close>

lemma parse_members_out:
  assumes "parse_members (Suc n) sd m s = Out_of_fuel"
  obtains r2 where "length r2 < length s" "parse_value n sd r2 = Out_of_fuel"
    | m' r5 where "length r5 < length s" "parse_members n sd m' r5 = Out_of_fuel"
proof -
  obtain key r1 where 1: "parse_string s = Parsed key r1"
    using assms parse_string_fuel by (auto simp: and_then_fuel)
  obtain b2 r2 where 2: "consume (CHR '':'') r1 = (b2, r2)" by fastforce
  with assms 1 have b2: "b2" by (cases b2) auto
  have l2: "length r2 < length s" using 1 2 b2 by (fastforce dest: shorter)
  show ?thesis
  proof (cases "parse_value n sd r2")
    case (Parsed x r3)
    obtain b4 r4 where 4: "consume (CHR ''}'') r3 = (b4, r4)" by fastforce
    obtain b5 r5 where 5: "consume (CHR '','') r4 = (b5, r5)" by fastforce
    have b: "\<not> b4" "b5" "parse_members n sd (emplace key x m) r5 = Out_of_fuel"
      using assms 1 2 b2 Parsed 4 5 by (cases b4; cases b5; simp)+
    have "length r5 < length s"
      using value_shorter [OF Parsed] 4 5 b(1,2) l2 by (fastforce dest: shorter)
    with that(2) b(3) show ?thesis by blast
  next
    case Malformed
    with assms 1 2 b2 show ?thesis by simp
  next
    case Out_of_fuel
    with that(1) l2 show ?thesis by blast
  qed
qed

lemma parse_elements_out:
  assumes "parse_elements (Suc n) sd vs s = Out_of_fuel"
  obtains "parse_value n sd s = Out_of_fuel"
    | vs' r3 where "length r3 + 1 < length s" "parse_elements n sd vs' r3 = Out_of_fuel"
proof (cases "parse_value n sd s")
  case (Parsed x r1)
  obtain b2 r2 where 2: "consume (CHR '']'') r1 = (b2, r2)" by fastforce
  obtain b3 r3 where 3: "consume (CHR '','') r2 = (b3, r3)" by fastforce
  have b: "\<not> b2" "b3" "parse_elements n sd (vs @ [x]) r3 = Out_of_fuel"
    using assms Parsed 2 3 by (cases b2; cases b3; simp)+
  have "length r3 + 1 < length s"
    using value_shorter [OF Parsed] 2 3 b(1,2) by (fastforce dest: shorter)
  with that(2) b(3) show ?thesis by blast
qed (use assms that(1) in auto)

lemma fuel_enough_all:
  "(\<forall>s. 2 * length s < n \<longrightarrow> parse_value n sd s \<noteq> Out_of_fuel) \<and>
   (\<forall>m s. 2 * length s < n \<longrightarrow> parse_members n sd m s \<noteq> Out_of_fuel) \<and>
   (\<forall>vs s. 2 * length s + 1 < n \<longrightarrow> parse_elements n sd vs s \<noteq> Out_of_fuel)"
proof (induction n)
  case (Suc n)
  then have V: "\<And>s. parse_value n sd s = Out_of_fuel \<Longrightarrow> n \<le> 2 * length s"
    and M: "\<And>m s. parse_members n sd m s = Out_of_fuel \<Longrightarrow> n \<le> 2 * length s"
    and E: "\<And>vs s. parse_elements n sd vs s = Out_of_fuel \<Longrightarrow> n \<le> 2 * length s + 1"
    by (meson not_le)+
  have "Suc n \<le> 2 * length s" if a: "parse_value (Suc n) sd s = Out_of_fuel" for s
  proof -
    obtain c t where c: "skip_ws s = c # t" using a by (cases "skip_ws s") auto
    then have "Suc (length t) \<le> length s" using skip_ws_length [of s] by simp
    moreover from c have "n \<le> 2 * length t + 1"
    proof (cases rule: parse_value_cases [where n = n and sd = sd])
      case (members t1)
      with a M [of "[]" t1] consume_not_longer [OF members(1)] show ?thesis by simp
    next
      case (elements t1)
      with a E [of "[]" t1] consume_not_longer [OF elements(1)] show ?thesis by simp
    qed (use a in simp)
    ultimately show ?thesis by linarith
  qed
  moreover have "Suc n \<le> 2 * length s" if a: "parse_members (Suc n) sd m s = Out_of_fuel" for m s
    using a by (cases rule: parse_members_out) (fastforce dest: V M)+
  moreover have "Suc n \<le> 2 * length s + 1" if a: "parse_elements (Suc n) sd vs s = Out_of_fuel" for vs s
    using a by (cases rule: parse_elements_out) (fastforce dest: V E)+
  ultimately show ?case by (meson not_le)
qed simp

section \<open>Extracting the configuration\<close>

lemma bind_sum_Inr: "bind_sum x f = Inr y \<longleftrightarrow> (\<exists>a. x = Inr a \<and> f a = Inr y)"
  by (cases x) auto

lemma load_backends_valid:
  "load_backends i bs = Inr xs \<Longrightarrow> length xs = length bs \<and> list_all (\<lambda>b. valid_port (bc_port b)) xs"
  by (induction i bs arbitrary: xs rule: load_backends.induct)
     (auto simp: bind_sum_Inr load_backend_def split: if_splits)

lemma load_server_valid:
  "load_server j = Inr sc \<Longrightarrow> valid_port (sc_port sc) \<and> 0 < sc_server_threads sc \<and> 0 < sc_client_threads sc"
  by (auto simp: load_server_def bind_sum_Inr split: if_splits)

lemma load_load_balancer_valid:
  "load_load_balancer j = Inr lc \<Longrightarrow> valid_port (lc_port lc) \<and> 0 < lc_health_interval_ms lc \<and>
     length (lc_backends lc) = 4 \<and> list_all (\<lambda>b. valid_port (bc_port b)) (lc_backends lc)"
proof -
  assume a: "load_load_balancer j = Inr lc"
  have b: "load_backend_array j = Inr xs \<Longrightarrow> length xs = 4 \<and> list_all (\<lambda>b. valid_port (bc_port b)) xs" for xs
    using load_backends_valid by (auto simp: load_backend_array_def Let_def split: option.splits if_splits)
  from a show ?thesis by (auto simp: load_load_balancer_def bind_sum_Inr dest!: b split: if_splits)
qed

lemma load_config_checked:
  assumes "load_config d stod_ok path require w = Inr cfg"
  shows "valid_port (sc_port (server_cfg cfg)) \<and> 0 < sc_server_threads (server_cfg cfg) \<and>
    0 < sc_client_threads (server_cfg cfg) \<and> (require \<longrightarrow> has_load_balancer cfg) \<and>
    (has_load_balancer cfg \<longrightarrow> valid_port (lc_port (load_balancer cfg)) \<and>
       0 < lc_health_interval_ms (load_balancer cfg) \<and> length (lc_backends (load_balancer cfg)) = 4 \<and>
       (\<forall>b \<in> set (lc_backends (load_balancer cfg)). valid_port (bc_port b)))"
proof -
  obtain root where "config_of_json require root = Inr cfg"
    using assms by (auto simp: load_config_def split: option.splits parsed.splits)
  then obtain server sc where sc: "load_server server = Inr sc" "server_cfg cfg = sc"
    and lb: "\<not> require \<and> \<not> has_load_balancer cfg \<or>
      has_load_balancer cfg \<and> (\<exists>j. load_load_balancer j = Inr (load_balancer cfg))"
    by (auto simp: config_of_json_def bind_sum_Inr split: option.splits if_splits) blast+
  from load_server_valid [OF sc(1)] lb load_load_balancer_valid show ?thesis
    unfolding sc(2) by (fastforce simp: list_all_iff)
qed

section \<open>Properties\<close>

text \<open>
  C37. The JSON parser returns on every text: the fuel it starts with is never
  used up, so every text is either parsed completely or rejected as malformed.
\<close>

theorem json_parse_returns:
  "json_parse stod_ok t \<noteq> Out_of_fuel"
proof -
  have "2 * length (skip_ws t) < parse_fuel t"
    using skip_ws_length [of t] by (simp add: parse_fuel_def)
  then have "parse_value (parse_fuel t) stod_ok (skip_ws t) \<noteq> Out_of_fuel"
    using fuel_enough_all by blast
  then show ?thesis
    by (cases "parse_value (parse_fuel t) stod_ok (skip_ws t)") (simp_all add: json_parse_def)
qed

text \<open>
  C38. A configuration that loads is one the server can run with: the port is a
  valid TCP port and both thread counts are positive; if a load balancer is
  required there is one, and then it has a valid port, a positive health
  interval and exactly four backends with valid ports.
\<close>

theorem load_config_valid:
  assumes "load_config d stod_ok path require w = Inr cfg"
  shows "sc_port (server_cfg cfg) \<in> {1..65535} \<and> 0 < sc_server_threads (server_cfg cfg) \<and>
    0 < sc_client_threads (server_cfg cfg) \<and> (require \<longrightarrow> has_load_balancer cfg) \<and>
    (has_load_balancer cfg \<longrightarrow> lc_port (load_balancer cfg) \<in> {1..65535} \<and>
       0 < lc_health_interval_ms (load_balancer cfg) \<and> length (lc_backends (load_balancer cfg)) = 4 \<and>
       (\<forall>b \<in> set (lc_backends (load_balancer cfg)). bc_port b \<in> {1..65535}))"
  using load_config_checked [OF assms] by (auto simp: valid_port_def)

text \<open>The file \<^verbatim>\<open>config.json\<close> of the repository.\<close>

definition demo_config_text :: string where
  "demo_config_text =
     ''{'' @ [newline] @
     ''  '' @ [quote] @ ''server'' @ [quote] @ '': {'' @ [newline] @
     ''    '' @ [quote] @ ''ip'' @ [quote] @ '': '' @ [quote] @ ''127.0.0.1'' @ [quote] @ '','' @ [newline] @
     ''    '' @ [quote] @ ''port'' @ [quote] @ '': 9000,'' @ [newline] @
     ''    '' @ [quote] @ ''server_threads'' @ [quote] @ '': 4,'' @ [newline] @
     ''    '' @ [quote] @ ''client_threads'' @ [quote] @ '': 8'' @ [newline] @
     ''  }'' @ [newline] @ ''}'' @ [newline]"

lemma demo_config_json: "json_parse (\<lambda>_. True) demo_config_text =
    Parsed (Json_object [(''server'', Json_object
      [(''ip'', Json_string ''127.0.0.1''), (''port'', Json_int 9000), (''server_threads'', Json_int 4),
       (''client_threads'', Json_int 8)])]) []"
  by code_simp

theorem load_config_valid_witness:
  "\<exists>cfg. load_config healthy_disk (\<lambda>_. True) ''config.json'' False
      \<lparr>files = [''config.json'' \<mapsto> demo_config_text], socks = (\<lambda>_. undefined), now = 0\<rparr> = Inr cfg \<and>
    sc_port (server_cfg cfg) \<in> {1..65535} \<and> 0 < sc_server_threads (server_cfg cfg)"
proof -
  let ?w = "\<lparr>files = [''config.json'' \<mapsto> demo_config_text], socks = (\<lambda>_. undefined), now = 0\<rparr>"
  have "length demo_config_text < 2 ^ 63" by (simp add: demo_config_text_def)
  then obtain cfg where "load_config healthy_disk (\<lambda>_. True) ''config.json'' False ?w = Inr cfg"
    by (simp add: load_config_def open_read_def healthy_disk_def demo_config_json config_of_json_def
        load_server_def string_field_def int_field_def to_int32_def valid_port_def)
  with load_config_valid [OF this] show ?thesis by blast
qed

text \<open>
  The range of the port is checked after the conversion to \<^verbatim>\<open>int\<close>, which keeps
  the low 32 bits: a port of \<open>2 ^ 32 + 9000\<close> is accepted as \<open>9000\<close>.
\<close>

theorem port_checked_after_conversion:
  "config_of_json False (Json_object [(''server'', Json_object
     [(''ip'', Json_string ''127.0.0.1''), (''port'', Json_int (2 ^ 32 + 9000)),
      (''server_threads'', Json_int 4), (''client_threads'', Json_int 8)])]) =
   Inr \<lparr>server_cfg = \<lparr>sc_ip = ''127.0.0.1'', sc_port = 9000, sc_server_threads = 4, sc_client_threads = 8\<rparr>,
        load_balancer = no_load_balancer, has_load_balancer = False\<rparr>"
  by (simp add: config_of_json_def load_server_def string_field_def int_field_def to_int32_def valid_port_def)

end
