(* ===== verification/Json_Print.thy ===== *)
theory Json_Print
  imports Config_Loading
begin

text \<open>
  A printer for JSON values, as a specification of the parser: every value
  without floating-point numbers that the parser's data type can hold is read
  back from its printed form. The program itself has no printer.
\<close>

section \<open>The printer\<close>

definition print_char :: "char \<Rightarrow> string" where
  "print_char c =
     (if c = quote \<or> c = backslash then [backslash, c]
      else if c = CHR 0x08 then [backslash, CHR ''b'']
      else if c = CHR 0x09 then [backslash, CHR ''t'']
      else if c = CHR 0x0A then [backslash, CHR ''n'']
      else if c = CHR 0x0C then [backslash, CHR ''f'']
      else if c = CHR 0x0D then [backslash, CHR ''r'']
      else [c])"

definition print_string :: "string \<Rightarrow> string" where
  "print_string s = quote # concat (map print_char s) @ [quote]"

fun print_json :: "json \<Rightarrow> string"
  and print_members :: "(string \<times> json) list \<Rightarrow> string"
  and print_elements :: "json list \<Rightarrow> string" where
  "print_json Json_null = ''null''"
| "print_json (Json_bool b) = (if b then ''true'' else ''false'')"
| "print_json (Json_int i) = show_int i"
| "print_json (Json_real t) = t"
| "print_json (Json_string s) = print_string s"
| "print_json (Json_object m) = ''{'' @ print_members m @ ''}''"
| "print_json (Json_array vs) = ''['' @ print_elements vs @ '']''"
| "print_members [] = []"
| "print_members ((k, v) # m) =
     print_string k @ '':'' @ print_json v @ (if m = [] then [] else '','' @ print_members m)"
| "print_elements [] = []"
| "print_elements (v # vs) = print_json v @ (if vs = [] then [] else '','' @ print_elements vs)"

text \<open>
  Characters without an escape of their own cannot be below the space, numbers
  have to fit \<^verbatim>\<open>long long\<close>, and the keys of an object are distinct.
\<close>

definition plain_char :: "char \<Rightarrow> bool" where
  "plain_char c \<longleftrightarrow> (0x20 :: nat) \<le> of_char c \<or> c \<in> {CHR 0x08, CHR 0x09, CHR 0x0A, CHR 0x0C, CHR 0x0D}"

fun printable :: "json \<Rightarrow> bool"
  and printable_members :: "(string \<times> json) list \<Rightarrow> bool"
  and printable_elements :: "json list \<Rightarrow> bool" where
  "printable Json_null \<longleftrightarrow> True"
| "printable (Json_bool b) \<longleftrightarrow> True"
| "printable (Json_int i) \<longleftrightarrow> - (2 ^ 63) \<le> i \<and> i < 2 ^ 63"
| "printable (Json_real t) \<longleftrightarrow> False"
| "printable (Json_string s) \<longleftrightarrow> list_all plain_char s"
| "printable (Json_object m) \<longleftrightarrow> distinct (map fst m) \<and> printable_members m"
| "printable (Json_array vs) \<longleftrightarrow> printable_elements vs"
| "printable_members [] \<longleftrightarrow> True"
| "printable_members ((k, v) # m) \<longleftrightarrow> list_all plain_char k \<and> printable v \<and> printable_members m"
| "printable_elements [] \<longleftrightarrow> True"
| "printable_elements (v # vs) \<longleftrightarrow> printable v \<and> printable_elements vs"

section \<open>Tokens\<close>

lemma json_chars [simp]:
  "\<not> isspace quote" "quote \<noteq> backslash" "backslash \<noteq> quote" "\<not> isdigit quote" "quote \<noteq> CHR ''}''"
  by (simp_all add: quote_def backslash_def isspace_def isdigit_def)

lemma escaped_simps [simp]:
  "escaped quote = Some quote" "escaped backslash = Some backslash"
  "escaped (CHR ''b'') = Some (CHR 0x08)" "escaped (CHR ''f'') = Some (CHR 0x0C)"
  "escaped (CHR ''n'') = Some (CHR 0x0A)" "escaped (CHR ''r'') = Some (CHR 0x0D)"
  "escaped (CHR ''t'') = Some (CHR 0x09)"
  by (simp_all add: escaped_def quote_def backslash_def)

lemma quotes_not_u [simp]: "quote \<noteq> CHR ''u''" "backslash \<noteq> CHR ''u''"
  by (simp_all add: quote_def backslash_def)

lemma scan_char: "plain_char c \<Longrightarrow> scan_string acc (print_char c @ r) = scan_string (acc @ [c]) r"
  by (auto simp: print_char_def plain_char_def)

lemma scan_print: "list_all plain_char s \<Longrightarrow>
   scan_string acc (concat (map print_char s) @ quote # r) = Parsed (acc @ s) r"
proof (induction s arbitrary: acc)
  case (Cons c s)
  then show ?case using scan_char [of c acc "concat (map print_char s) @ quote # r"] by simp
qed simp

lemma parse_print_string: "list_all plain_char s \<Longrightarrow> parse_string (print_string s @ r) = Parsed s r"
  using scan_print [of s "[]" r] by (simp add: parse_string_def print_string_def skip_ws_def)

lemma show_nat_head: "0 < n \<Longrightarrow> hd (show_nat n) \<noteq> CHR ''0''"
proof (induction n rule: show_nat.induct)
  case (1 n)
  show ?case
  proof (cases "n < 10")
    case True
    have "hd (show_nat n) = digit_char n" using True by (simp add: show_nat.simps [of n])
    moreover have "of_char (digit_char n) \<noteq> (of_char (CHR ''0'') :: nat)"
      using True 1 by (simp add: of_char_digit_char)
    ultimately show ?thesis by metis
  next
    case False
    then have "hd (show_nat (n div 10)) \<noteq> CHR ''0''" using 1 by simp
    with False show ?thesis by (simp add: show_nat.simps [of n])
  qed
qed

definition number_stop :: "string \<Rightarrow> bool" where
  "number_stop r \<longleftrightarrow> r = [] \<or> \<not> isdigit (hd r) \<and> hd r \<notin> {CHR ''.'', CHR ''e'', CHR ''E''}"

lemma int_part_show:
  assumes "number_stop r"
  shows "int_part (show_nat n @ r) = Some (show_nat n, r)"
proof (cases "n = 0")
  case True
  have "of_char (CHR ''0'') = (48 :: nat)" by simp
  then have "char_of (48 :: nat) = CHR ''0''" by (metis char_of_char)
  with True have "show_nat n = ''0''" by (simp add: show_nat.simps digit_char_def)
  then show ?thesis by (simp add: int_part_def isdigit_def)
next
  case False
  obtain c cs where c: "show_nat n = c # cs" by (cases "show_nat n") auto
  have "isdigit c" "c \<noteq> CHR ''0''" using show_nat_digits [of c n] show_nat_head [of n] False c by auto
  moreover have "list_all isdigit (show_nat n)" by (simp add: list_all_iff show_nat_digits)
  then have "takeWhile isdigit (show_nat n @ r) = show_nat n" "dropWhile isdigit (show_nat n @ r) = r"
    using assms by (auto simp: number_stop_def intro: takeWhile_stop dropWhile_stop)
  ultimately show ?thesis using c by (simp add: int_part_def digits_def)
qed

lemma number_tail: "number_stop r \<Longrightarrow> fraction_part r = Some (False, [], r) \<and> exponent_part r = Some (False, [], r)"
  by (auto simp: number_stop_def fraction_part_def exponent_part_def split: list.splits)

lemma strto_show_int: "strto (show_int i) = Some (i < 0, nat \<bar>i\<bar>)"
proof (cases "i < 0")
  case True
  let ?n = "show_nat (nat (- i))"
  have tw: "takeWhile isdigit ?n = ?n" by (simp add: takeWhile_eq_all_conv show_nat_digits)
  have "strto (CHR ''-'' # ?n) = Some (True, digits_val ?n)"
    by (simp add: strto_def isspace_def Let_def tw)
  with True show ?thesis by (simp add: show_int_def)
next
  case False
  with strto_show_nat [of "[]" "nat i"] show ?thesis by (simp add: show_int_def)
qed

lemma stoll_show_int: "- (2 ^ 63) \<le> i \<Longrightarrow> i < 2 ^ 63 \<Longrightarrow> stoll (show_int i) = Inr i"
  by (simp add: stoll_def sto_signed_def strto_show_int Let_def)

lemma show_nat_cons:
  obtains c cs where "show_nat n = c # cs" "isdigit c" "\<not> isspace c" "c \<noteq> CHR ''-''"
proof (cases "show_nat n")
  case (Cons c cs)
  then have "isdigit c" using show_nat_digits [of c n] by simp
  with Cons that show ?thesis using isdigit_not_space [of c] isdigit_not_sign [of c] by blast
qed simp

lemma parse_print_number:
  assumes "- (2 ^ 63) \<le> i" "i < 2 ^ 63" "number_stop r"
  shows "parse_number sd (show_int i @ r) = Parsed (Json_int i) r"
proof -
  let ?n = "nat \<bar>i\<bar>"
  obtain c cs where c: "show_nat ?n = c # cs" "\<not> isspace c" "c \<noteq> CHR ''-''" by (rule show_nat_cons) blast
  have sign: "optional_char {CHR ''-''} (skip_ws (show_int i @ r)) =
      ((if i < 0 then ''-'' else []), show_nat ?n @ r)"
    using c by (auto simp: show_int_def optional_char_def skip_ws_def isspace_def)
  have "(if i < 0 then ''-'' else []) @ show_nat ?n = show_int i" by (simp add: show_int_def)
  with sign show ?thesis
    using int_part_show [OF assms(3), of ?n] number_tail [OF assms(3)] stoll_show_int [OF assms(1,2)]
    by (simp add: parse_number_def)
qed

section \<open>Values\<close>

lemma consume_hit: "\<not> isspace c \<Longrightarrow> consume c (c # r) = (True, r)"
  by (simp add: consume_def skip_ws_def)

lemma consume_miss: "\<not> isspace x \<Longrightarrow> x \<noteq> c \<Longrightarrow> consume c (x # r) = (False, x # r)"
  by (simp add: consume_def skip_ws_def)

lemma bracket_chars [simp]:
  "\<not> isspace (CHR ''{'')" "\<not> isspace (CHR ''}'')" "\<not> isspace (CHR ''['')" "\<not> isspace (CHR '']'')"
  "\<not> isspace (CHR '','')" "\<not> isspace (CHR '':'')"
  by (simp_all add: isspace_def)

lemma show_int_cons:
  obtains c cs where "show_int i = c # cs" "\<not> isspace c" "c = CHR ''-'' \<or> isdigit c"
proof (cases "i < 0")
  case True
  with that [of "CHR ''-''"] show ?thesis by (simp add: show_int_def isspace_def)
next
  case False
  obtain c cs where "show_nat (nat i) = c # cs" "isdigit c" "\<not> isspace c" by (rule show_nat_cons) blast
  with False that show ?thesis by (simp add: show_int_def)
qed

lemma digit_not_bracket: "isdigit c \<Longrightarrow> c \<notin> {CHR '']'', CHR ''}'', CHR ''{'', CHR ''['', quote, CHR ''t'', CHR ''f'', CHR ''n''}"
  by (auto simp: isdigit_def quote_def)

lemma print_json_cons:
  assumes "printable j"
  obtains c cs where "print_json j = c # cs" "\<not> isspace c" "c \<noteq> CHR '']''"
proof (cases j)
  case (Json_int i)
  obtain c cs where "show_int i = c # cs" "\<not> isspace c" "c = CHR ''-'' \<or> isdigit c" by (rule show_int_cons)
  with Json_int that digit_not_bracket [of c] show ?thesis by auto
next
  case (Json_bool b)
  with that show ?thesis by (cases b) (auto simp: isspace_def)
qed (use assms that in \<open>auto simp: print_string_def isspace_def quote_def split: if_splits\<close>)

lemma parse_value_int:
  assumes "- (2 ^ 63) \<le> i" "i < 2 ^ 63" "number_stop r"
  shows "parse_value (Suc n) sd (show_int i @ r) = Parsed (Json_int i) r"
proof -
  obtain c cs where c: "show_int i = c # cs" "\<not> isspace c" "c = CHR ''-'' \<or> isdigit c" by (rule show_int_cons)
  then have "c \<notin> {CHR ''{'', CHR ''['', quote, CHR ''t'', CHR ''f'', CHR ''n''}"
    using digit_not_bracket [of c] by (auto simp: quote_def)
  moreover have "skip_ws (show_int i @ r) = c # cs @ r" using c by (simp add: skip_ws_def)
  ultimately show ?thesis using parse_print_number [OF assms, of sd] c by simp
qed

lemma value_stop: "r = [] \<or> hd r \<in> {CHR '','', CHR ''}'', CHR '']''} \<Longrightarrow> number_stop r"
  by (auto simp: number_stop_def isdigit_def)

lemma emplace_new: "k \<notin> set (map fst m) \<Longrightarrow> emplace k v m = m @ [(k, v)]"
  by (auto simp: emplace_def map_of_eq_None_iff split: option.splits)

text \<open>What follows a member and what follows an element.\<close>

definition after_member :: "(string \<times> json) list \<Rightarrow> string \<Rightarrow> string" where
  "after_member m r = (if m = [] then CHR ''}'' # r else CHR '','' # print_members m @ CHR ''}'' # r)"

definition after_element :: "json list \<Rightarrow> string \<Rightarrow> string" where
  "after_element vs r = (if vs = [] then CHR '']'' # r else CHR '','' # print_elements vs @ CHR '']'' # r)"

lemma parse_members_step:
  assumes "printable_members ((key, v) # m)" "distinct (map fst (acc @ (key, v) # m))"
    and v: "parse_value k sd (print_json v @ after_member m r) = Parsed v (after_member m r)"
    and m: "m \<noteq> [] \<Longrightarrow> parse_members k sd (acc @ [(key, v)]) (print_members m @ CHR ''}'' # r) =
      Parsed (Json_object ((acc @ [(key, v)]) @ m)) r"
  shows "parse_members (Suc k) sd acc (print_members ((key, v) # m) @ CHR ''}'' # r) =
    Parsed (Json_object (acc @ (key, v) # m)) r"
proof -
  have eq: "print_members ((key, v) # m) @ CHR ''}'' # r =
      print_string key @ CHR '':'' # print_json v @ after_member m r" by (simp add: after_member_def)
  have em: "emplace key v acc = acc @ [(key, v)]" using assms(2) by (simp add: emplace_new)
  have key: "parse_string (print_string key @ CHR '':'' # print_json v @ after_member m r) =
      Parsed key (CHR '':'' # print_json v @ after_member m r)"
    using assms(1) by (intro parse_print_string) simp
  show ?thesis
    unfolding eq using key v em m
    by (cases "m = []") (simp_all add: consume_hit consume_miss after_member_def)
qed

lemma parse_elements_step:
  assumes v: "parse_value k sd (print_json v @ after_element vs r) = Parsed v (after_element vs r)"
    and vs: "vs \<noteq> [] \<Longrightarrow> parse_elements k sd (acc @ [v]) (print_elements vs @ CHR '']'' # r) =
      Parsed (Json_array ((acc @ [v]) @ vs)) r"
  shows "parse_elements (Suc k) sd acc (print_elements (v # vs) @ CHR '']'' # r) = Parsed (Json_array (acc @ v # vs)) r"
proof -
  have eq: "print_elements (v # vs) @ CHR '']'' # r = print_json v @ after_element vs r"
    by (simp add: after_element_def)
  show ?thesis
    unfolding eq using v vs by (cases "vs = []") (simp_all add: consume_hit consume_miss after_element_def)
qed

lemma parse_object_step:
  assumes "m \<noteq> [] \<Longrightarrow> parse_members k sd [] (print_members m @ CHR ''}'' # r) = Parsed (Json_object m) r"
  shows "parse_value (Suc k) sd (print_json (Json_object m) @ r) = Parsed (Json_object m) r"
proof (cases "m = []")
  case False
  then obtain t where "print_members m = quote # t"
    by (cases m; cases "hd m") (auto simp: print_string_def)
  then show ?thesis using assms [OF False] by (simp add: skip_ws_def consume_miss)
qed (simp add: skip_ws_def consume_hit)

lemma parse_array_step:
  assumes "printable_elements vs"
    and "vs \<noteq> [] \<Longrightarrow> parse_elements k sd [] (print_elements vs @ CHR '']'' # r) = Parsed (Json_array vs) r"
  shows "parse_value (Suc k) sd (print_json (Json_array vs) @ r) = Parsed (Json_array vs) r"
proof (cases vs)
  case (Cons v vs')
  then have "printable v" using assms(1) by simp
  then obtain c t where "print_json v = c # t" "\<not> isspace c" "c \<noteq> CHR '']''" by (rule print_json_cons)
  then obtain t' where "print_elements vs = c # t'" "\<not> isspace c" "c \<noteq> CHR '']''" using Cons by simp
  then show ?thesis using assms(2) Cons by (simp add: skip_ws_def consume_miss)
qed (simp add: skip_ws_def consume_hit)

lemma parse_print_all:
  "printable j \<Longrightarrow> 2 * length (print_json j) < n \<Longrightarrow> r = [] \<or> hd r \<in> {CHR '','', CHR ''}'', CHR '']''} \<Longrightarrow>
     parse_value n sd (print_json j @ r) = Parsed j r"
  "m \<noteq> [] \<Longrightarrow> printable_members m \<Longrightarrow> distinct (map fst (acc @ m)) \<Longrightarrow> 2 * length (print_members m) < n \<Longrightarrow>
     parse_members n sd acc (print_members m @ CHR ''}'' # r) = Parsed (Json_object (acc @ m)) r"
  "vs \<noteq> [] \<Longrightarrow> printable_elements vs \<Longrightarrow> 2 * length (print_elements vs) + 1 < n \<Longrightarrow>
     parse_elements n sd acc' (print_elements vs @ CHR '']'' # r) = Parsed (Json_array (acc' @ vs)) r"
proof (induction j and m and vs arbitrary: n r and n r acc and n r acc'
    rule: print_json_print_members_print_elements.induct)
  case 1
  then show ?case by (cases n) (auto simp: skip_ws_def isspace_def parse_null_def quote_def)
next
  case (2 b)
  then show ?case by (cases n) (auto simp: skip_ws_def isspace_def parse_bool_def quote_def)
next
  case (3 i)
  then show ?case
    by (cases n) (simp_all add: parse_value_int value_stop del: parse_value.simps(2))
next
  case (5 s)
  then show ?case
    using parse_print_string [of s r]
    by (cases n) (auto simp: skip_ws_def print_string_def quote_def isspace_def)
next
  case (6 m)
  then obtain k where n: "n = Suc k" "2 * length (print_members m) < k" by (cases n) auto
  show ?case unfolding n(1)
    by (rule parse_object_step) (use "6.IH" [of "[]" k r] "6.prems"(1) n(2) in simp)
next
  case (7 vs)
  then obtain k where n: "n = Suc k" "2 * length (print_elements vs) + 1 < k" by (cases n) auto
  show ?case unfolding n(1)
    by (rule parse_array_step) (use "7.IH" [of k "[]" r] "7.prems"(1) n(2) in simp_all)
next
  case (9 key v m)
  obtain k where n: "n = Suc k" "2 * length (print_json v) < k" "m \<noteq> [] \<Longrightarrow> 2 * length (print_members m) < k"
    using "9.prems"(4) by (cases n) (auto simp: print_string_def split: if_splits)
  have "parse_value k sd (print_json v @ after_member m r) = Parsed v (after_member m r)"
    using "9.IH"(1) [of k "after_member m r"] "9.prems"(2) n(2) by (simp add: after_member_def)
  then show ?case
    unfolding n(1) using n(3) "9.prems"(2,3) by (intro parse_members_step "9.IH"(2)) auto
next
  case (11 v vs)
  obtain k where n: "n = Suc k" "2 * length (print_json v) < k" "vs \<noteq> [] \<Longrightarrow> 2 * length (print_elements vs) + 1 < k"
    using "11.prems"(3) by (cases n) (auto split: if_splits)
  have "parse_value k sd (print_json v @ after_element vs r) = Parsed v (after_element vs r)"
    using "11.IH"(1) [of k "after_element vs r"] "11.prems"(2) n(2) by (simp add: after_element_def)
  then show ?case
    unfolding n(1) using n(3) "11.prems"(2) by (intro parse_elements_step "11.IH"(2)) auto
qed simp_all

section \<open>Configurations\<close>

definition config_json :: "server_config \<Rightarrow> json" where
  "config_json sc = Json_object [(''server'', Json_object
     [(''ip'', Json_string (sc_ip sc)), (''port'', Json_int (sc_port sc)),
      (''server_threads'', Json_int (sc_server_threads sc)),
      (''client_threads'', Json_int (sc_client_threads sc))])]"

lemma to_int32_id: "0 < i \<Longrightarrow> i < 2 ^ 31 \<Longrightarrow> to_int32 i = i"
  by (simp add: to_int32_def)

lemma plain_literal: "list_all (\<lambda>c. (0x20 :: nat) \<le> of_char c) s \<Longrightarrow> list_all plain_char s"
  by (auto simp: list_all_iff plain_char_def)

lemma load_config_json:
  assumes "valid_port (sc_port sc)" "0 < sc_server_threads sc" "sc_server_threads sc < 2 ^ 31"
    and "0 < sc_client_threads sc" "sc_client_threads sc < 2 ^ 31"
  shows "config_of_json False (config_json sc) =
    Inr \<lparr>server_cfg = sc, load_balancer = no_load_balancer, has_load_balancer = False\<rparr>"
  using assms
  by (simp add: config_of_json_def config_json_def load_server_def string_field_def int_field_def
      to_int32_id valid_port_def)

section \<open>Properties\<close>

text \<open>
  C39. The JSON parser reads back what is printed: for every value made of null,
  booleans, integers in the range of \<^verbatim>\<open>long long\<close>, strings (with all escapes
  but \<^verbatim>\<open>\u\<close>), arrays and objects with distinct keys, nested to any depth.
\<close>

theorem json_parse_print:
  assumes "printable j"
  shows "json_parse stod_ok (print_json j) = Parsed j []"
proof -
  obtain c cs where "print_json j = c # cs" "\<not> isspace c" using assms by (rule print_json_cons)
  then have "skip_ws (print_json j) = print_json j" by (simp add: skip_ws_def)
  moreover have "parse_value (parse_fuel (print_json j)) stod_ok (print_json j @ []) = Parsed j []"
    using assms by (intro parse_print_all(1)) (simp_all add: parse_fuel_def)
  ultimately show ?thesis by (simp add: json_parse_def skip_ws_def)
qed

definition demo_json :: json where
  "demo_json = Json_object [(''a'', Json_array [Json_int (- 7), Json_bool True, Json_null]),
     (''b'', Json_string [quote, newline])]"

theorem json_parse_print_witness:
  "printable demo_json \<and> json_parse (\<lambda>_. True) (print_json demo_json) = Parsed demo_json []"
proof -
  have "printable demo_json"
    by (simp add: demo_json_def plain_char_def quote_def newline_def)
  with json_parse_print [OF this] show ?thesis by blast
qed

text \<open>
  A server configuration written as JSON loads as itself, for every address
  without special control characters, every TCP port and all positive thread
  counts.
\<close>

theorem load_config_roundtrip:
  assumes "open_read d path w = Some (print_json (config_json sc))" and "list_all plain_char (sc_ip sc)"
    and "sc_port sc \<in> {1..65535}" and "sc_server_threads sc \<in> {1..<2 ^ 31}"
    and "sc_client_threads sc \<in> {1..<2 ^ 31}"
  shows "load_config d stod_ok path False w =
    Inr \<lparr>server_cfg = sc, load_balancer = no_load_balancer, has_load_balancer = False\<rparr>"
proof -
  have "printable (config_json sc)"
    using assms(2-5) by (simp add: config_json_def plain_char_def)
  then have "json_parse stod_ok (print_json (config_json sc)) = Parsed (config_json sc) []"
    using parse_print_all(1) [of "config_json sc" "parse_fuel (print_json (config_json sc))" "[]" stod_ok]
    by (simp add: json_parse_def parse_fuel_def skip_ws_def config_json_def)
  with assms load_config_json [of sc] show ?thesis by (simp add: load_config_def valid_port_def)
qed

definition demo_server_config :: server_config where
  "demo_server_config = \<lparr>sc_ip = ''127.0.0.1'', sc_port = 9000, sc_server_threads = 4, sc_client_threads = 8\<rparr>"

theorem load_config_roundtrip_witness:
  "load_config healthy_disk (\<lambda>_. True) ''c'' False
     \<lparr>files = [''c'' \<mapsto> print_json (config_json demo_server_config)], socks = (\<lambda>_. undefined), now = 0\<rparr> =
   Inr \<lparr>server_cfg = demo_server_config, load_balancer = no_load_balancer, has_load_balancer = False\<rparr>"
proof (rule load_config_roundtrip)
  have "length (print_json (config_json demo_server_config)) < 2 ^ 63"
    by (simp add: config_json_def demo_server_config_def print_string_def print_char_def quote_def backslash_def
        show_int_def show_nat.simps)
  then show "open_read healthy_disk ''c'' \<lparr>files = [''c'' \<mapsto> print_json (config_json demo_server_config)],
      socks = (\<lambda>_. undefined), now = 0\<rparr> = Some (print_json (config_json demo_server_config))"
    by (simp add: open_read_def healthy_disk_def)
qed (simp_all add: demo_server_config_def plain_char_def)

end
