(* ===== verification/Server_Main.thy ===== *)
theory Server_Main
  imports Server_Safety Json_Print
begin

text \<open>
  \<^verbatim>\<open>main\<close> of \<^verbatim>\<open>main.cpp\<close> up to the start of its threads: the command line, the
  configuration and the listening socket. An error that ends the program with
  status 1 is \<^const>\<open>Inl\<close> of the line printed on the error stream.
\<close>

section \<open>The command line\<close>

definition parse_scheduling_policy :: "string \<Rightarrow> string + scheduling_policy" where
  "parse_scheduling_policy p =
     (if p = ''fcfs'' then Inr FCFS
      else if p = ''sjf'' then Inr SJF
      else if p = ''rr'' then Inr RR
      else if p = ''drr'' then Inr DRR
      else Inl (''invalid scheduling policy: '' @ p))"

record server_args =
  ar_config_path :: string
  ar_sched_policy :: string
  ar_file_dir :: string
  ar_metrics_out :: string
  ar_quantum :: u64
  ar_packetization :: int
  ar_quantum_set :: bool

definition default_args :: server_args where
  "default_args = \<lparr>ar_config_path = ''config.json'', ar_sched_policy = [], ar_file_dir = [],
     ar_metrics_out = ''metrics.csv'', ar_quantum = 0, ar_packetization = 1, ar_quantum_set = False\<rparr>"

text \<open>One flag with its value.\<close>

definition apply_flag :: "string \<Rightarrow> string \<Rightarrow> server_args \<Rightarrow> string + server_args" where
  "apply_flag flag v a =
     (if flag = ''--config'' then Inr (a\<lparr>ar_config_path := v\<rparr>)
      else if flag = ''--sched'' then Inr (a\<lparr>ar_sched_policy := v\<rparr>)
      else if flag = ''--file'' then Inr (a\<lparr>ar_file_dir := v\<rparr>)
      else if flag = ''--quantum'' then
        (case stoull v of
           Inl _ \<Rightarrow> Inl ''error: invalid --quantum''
         | Inr q \<Rightarrow> Inr (a\<lparr>ar_quantum_set := True, ar_quantum := q\<rparr>))
      else if flag = ''--p'' then
        (case stoi v of
           Inl _ \<Rightarrow> Inl ''error: invalid --p''
         | Inr i \<Rightarrow> Inr (a\<lparr>ar_packetization := i\<rparr>))
      else Inr (a\<lparr>ar_metrics_out := v\<rparr>))"

definition known_flags :: "string list" where
  "known_flags = [''--config'', ''--sched'', ''--file'', ''--quantum'', ''--p'', ''--metrics-out'']"

fun read_args :: "string list \<Rightarrow> server_args \<Rightarrow> string + server_args" where
  "read_args [] a = Inr a"
| "read_args (flag # rest) a =
     (if flag \<notin> set known_flags then Inl (''error: unknown or incomplete argument: '' @ flag)
      else case rest of
        [] \<Rightarrow> Inl (''error: missing value for '' @ flag)
      | v # rest1 \<Rightarrow> (case apply_flag flag v a of Inl m \<Rightarrow> Inl m | Inr a1 \<Rightarrow> read_args rest1 a1))"

text \<open>The checks that follow, in their order.\<close>

definition check_args :: "server_args \<Rightarrow> string + scheduling_policy" where
  "check_args a =
     (if ar_sched_policy a = [] then Inl (''error: missing required flag '' @ [CHR 0x27] @ ''--sched'' @ [CHR 0x27])
      else if ar_file_dir a = [] then Inl (''error: missing required flag '' @ [CHR 0x27] @ ''--file'' @ [CHR 0x27])
      else if ar_packetization a \<le> 0 then Inl ''error: --p must be a positive integer''
      else case parse_scheduling_policy (ar_sched_policy a) of
        Inl e \<Rightarrow> Inl (''error: '' @ e)
      | Inr p \<Rightarrow>
          if (ar_sched_policy a = ''rr'' \<or> ar_sched_policy a = ''drr'') \<and>
             (\<not> ar_quantum_set a \<or> ar_quantum a = 0)
          then Inl (''error: --quantum required for '' @ ar_sched_policy a)
          else if (ar_sched_policy a = ''fcfs'' \<or> ar_sched_policy a = ''sjf'') \<and> ar_quantum_set a
          then Inl (''error: --quantum not allowed for '' @ ar_sched_policy a)
          else Inr p)"

section \<open>The start of the server\<close>

datatype launch = Exit_with string | Uncaught string | Running worker_env path server_state

text \<open>
  \<^verbatim>\<open>Uncaught\<close> is an exception that leaves \<^verbatim>\<open>main\<close>; only the constructor of the
  scheduler could throw one.
\<close>

definition launch_server ::
  "disk \<Rightarrow> (string \<Rightarrow> bool) \<Rightarrow> net_calls \<Rightarrow> string list \<Rightarrow> world \<Rightarrow> launch" where
  "launch_server d stod_ok net argv w =
     (case read_args argv default_args of
        Inl m \<Rightarrow> Exit_with m
      | Inr a \<Rightarrow>
          (case check_args a of
             Inl m \<Rightarrow> Exit_with m
           | Inr p \<Rightarrow>
               (case load_config d stod_ok (ar_config_path a) False w of
                  Inl m \<Rightarrow> Exit_with m
                | Inr cfg \<Rightarrow>
                    (case make_scheduler p (ar_quantum a) of
                       Inl m \<Rightarrow> Uncaught m
                     | Inr s \<Rightarrow>
                         if fst (create_listening_socket net (sc_ip (server_cfg cfg))
                                   (sc_port (server_cfg cfg))) < 0
                         then Exit_with ''Failed to create listening socket''
                         else Running
                                \<lparr>we_disk = d, we_dir = ar_file_dir a, we_sched = s,
                                 we_packetization = ar_packetization a\<rparr>
                                (ar_metrics_out a)
                                (server_start (sc_server_threads (server_cfg cfg))
                                   (sc_client_threads (server_cfg cfg)) w)))))"

section \<open>Facts about the command line\<close>

lemma read_args_quantum:
  "read_args argv a = Inr b \<Longrightarrow> (\<not> ar_quantum_set a \<longrightarrow> ar_quantum a = 0) \<Longrightarrow>
   \<not> ar_quantum_set b \<longrightarrow> ar_quantum b = 0"
proof (induction argv a rule: read_args.induct)
  case (2 flag rest a)
  obtain v rest1 a1 where r: "rest = v # rest1" "apply_flag flag v a = Inr a1" "read_args rest1 a1 = Inr b"
    using "2.prems"(1) by (auto split: if_splits list.splits sum.splits)
  moreover have "\<not> ar_quantum_set a1 \<longrightarrow> ar_quantum a1 = 0"
    using r(2) "2.prems"(2) by (auto simp: apply_flag_def split: if_splits sum.splits)
  moreover have "flag \<in> set known_flags" using "2.prems"(1) by (auto split: if_splits)
  ultimately show ?case using "2.IH" by blast
qed simp

lemma policy_names:
  "parse_scheduling_policy n = Inr p \<longleftrightarrow>
     n = (case p of FCFS \<Rightarrow> ''fcfs'' | SJF \<Rightarrow> ''sjf'' | RR \<Rightarrow> ''rr'' | DRR \<Rightarrow> ''drr'')"
  by (cases p) (auto simp: parse_scheduling_policy_def split: if_splits)

lemma check_args_quantum:
  assumes "check_args a = Inr p" "\<not> ar_quantum_set a \<longrightarrow> ar_quantum a = 0"
  shows "0 < ar_packetization a" "ar_file_dir a \<noteq> []" "p \<in> {RR, DRR} \<longleftrightarrow> ar_quantum a \<noteq> 0"
proof -
  have n: "parse_scheduling_policy (ar_sched_policy a) = Inr p"
    using assms(1) by (auto simp: check_args_def split: if_splits sum.splits)
  show "0 < ar_packetization a" "ar_file_dir a \<noteq> []"
    using assms(1) by (auto simp: check_args_def split: if_splits)
  show "p \<in> {RR, DRR} \<longleftrightarrow> ar_quantum a \<noteq> 0"
    using assms n unfolding policy_names check_args_def
    by (cases p) (auto split: if_splits sum.splits)
qed

section \<open>Properties\<close>


definition demo_net :: net_calls where
  "demo_net = \<lparr>socket_result = 3, setsockopt_ok = True, inet_pton_ok = (\<lambda>_. True), bind_ok = (\<lambda>_ _. True),
     listen_ok = True\<rparr>"

definition demo_argv :: "string list" where
  "demo_argv = [''--sched'', ''rr'', ''--file'', ''files'', ''--quantum'', ''4096'']"

lemma demo_quantum: "stoull ''4096'' = Inr 4096"
  by (simp add: stoull_digits isdigit_def digits_val_def digit_val_def)

lemma demo_args:
  "read_args demo_argv default_args = Inr (default_args\<lparr>ar_sched_policy := ''rr'', ar_file_dir := ''files'',
     ar_quantum_set := True, ar_quantum := 4096\<rparr>)"
  by (simp add: demo_argv_def known_flags_def apply_flag_def demo_quantum)

definition demo_start_world :: world where
  "demo_start_world = \<lparr>files = [''config.json'' \<mapsto> demo_config_text], socks = (\<lambda>_. undefined), now = 0\<rparr>"

lemma demo_launch:
  "\<exists>e s. launch_server healthy_disk (\<lambda>_. True) demo_net demo_argv demo_start_world = Running e ''metrics.csv'' s"
proof -
  have "length demo_config_text < 2 ^ 63" by (simp add: demo_config_text_def)
  then have "load_config healthy_disk (\<lambda>_. True) ''config.json'' False demo_start_world =
      Inr \<lparr>server_cfg = demo_server_config, load_balancer = no_load_balancer, has_load_balancer = False\<rparr>"
    by (simp add: load_config_def open_read_def healthy_disk_def demo_config_json demo_start_world_def
        config_of_json_def load_server_def string_field_def int_field_def to_int32_def valid_port_def
        demo_server_config_def)
  then show ?thesis
    unfolding launch_server_def demo_args
    by (simp add: check_args_def parse_scheduling_policy_def default_args_def
        make_scheduler_def create_listening_socket_def demo_net_def Let_def)
qed


end
