(* ===== verification/Server_Confinement.thy ===== *)
theory Server_Confinement
  imports Server_Safety
begin

text \<open>
  What the running server does to the file system and what its requests look
  like: a well-formedness invariant of every request in the system, the
  confinement of all writes to the served directory, and the answers of the
  parser to requests it does not admit.
\<close>

section \<open>Well-formed requests\<close>

text \<open>
  A request in the system names a file of the served directory, is a GET or a
  PUT, has not passed its end, and writes to no other place than the staging
  file that carries its number.
\<close>

definition request_wf :: "request \<Rightarrow> bool" where
  "request_wf r \<longleftrightarrow> is_valid_filename (filename r) \<and> op r \<noteq> HEALTH \<and> offset r \<le> total_bytes r \<and>
     (staging_filename r = [] \<or> op r = PUT \<and> staging_filename r = staging_name r) \<and>
     (op r = PUT \<and> offset r \<noteq> 0 \<longrightarrow> staging_filename r = staging_name r)"

text \<open>A request no worker has seen.\<close>

definition request_fresh :: "request \<Rightarrow> bool" where
  "request_fresh r \<longleftrightarrow> is_valid_filename (filename r) \<and> op r \<noteq> HEALTH \<and> offset r = 0 \<and> staging_filename r = [] \<and>
     deficit r = 0 \<and> \<not> response_sent r"

lemma fresh_wf: "request_fresh r \<Longrightarrow> request_wf r"
  by (simp add: request_fresh_def request_wf_def)

lemma request_wf_cong:
  "filename r' = filename r \<Longrightarrow> op r' = op r \<Longrightarrow> offset r' = offset r \<Longrightarrow> total_bytes r' = total_bytes r \<Longrightarrow>
   staging_filename r' = staging_filename r \<Longrightarrow> request_id r' = request_id r \<Longrightarrow> request_wf r' = request_wf r"
  by (simp add: request_wf_def staging_name_def)

lemma number_request_fresh: "request_fresh r \<Longrightarrow> request_fresh (number_request k w r)"
  by (simp add: request_fresh_def number_request_def)

lemma parse_request_header_new:
  assumes "parse_request_header h fd = Inr r"
  shows "offset r = 0 \<and> staging_filename r = [] \<and> deficit r = 0 \<and> \<not> response_sent r"
proof -
  have "request_of_words fd ws = Inr r \<Longrightarrow> offset r = 0 \<and> staging_filename r = [] \<and> deficit r = 0 \<and> \<not> response_sent r"
    for ws
    by (cases "(fd, ws)" rule: request_of_words.cases)
       (auto simp: Let_def new_request_def split: if_splits list.splits)
  with assms show ?thesis by (simp add: parse_header_words split: if_splits)
qed

lemma parse_connection_fresh:
  "parse_connection dir fd w = (Admitted r, w') \<Longrightarrow> request_fresh r"
  by (auto simp: parse_connection_def Let_def request_fresh_def dest!: parse_request_header_new
      split: prod.splits if_splits sum.splits)

lemma serve_get_keeps:
  assumes "serve_get d dir b ov pk r w = (ok, n, r', w')"
  shows "request_wf r' = request_wf r" "left r' = left r" "offset r' = offset r" "total_bytes r' = total_bytes r"
    "op r' = op r" "filename r' = filename r" "staging_filename r' = staging_filename r" "request_id r' = request_id r" "rounds r' = rounds r"
    "arrival_ns r' = arrival_ns r" "start_ns r' = start_ns r"
proof -
  let ?r1 = "r\<lparr>response_sent := True\<rparr>" and ?p = "join_path dir (filename r)"
  let ?w1 = "if response_sent r then w else send_response (client_fd r) (total_bytes r) w"
  obtain rb a14 where c: "choose_round d ?p b ov ?r1 ?w1 = (rb, a14)" by fastforce
  let ?r2 = "if a14 then ?r1\<lparr>a14_events := a14_events ?r1 + 1\<rparr> else ?r1"
  have "r' \<in> {r, ?r1, ?r2}"
    using assms unfolding serve_get_def Let_def request.simps c
    by (simp split: if_splits) (auto dest: send_round_same)
  then have "r' = r\<lparr>response_sent := response_sent r', a14_events := a14_events r'\<rparr>"
    by (elim insertE emptyE) (simp_all split: if_split)
  then obtain x y where "r' = r\<lparr>response_sent := x, a14_events := y\<rparr>" by blast
  then show "request_wf r' = request_wf r" "left r' = left r" "offset r' = offset r" "total_bytes r' = total_bytes r"
    "op r' = op r" "filename r' = filename r" "staging_filename r' = staging_filename r" "request_id r' = request_id r" "rounds r' = rounds r"
    "arrival_ns r' = arrival_ns r" "start_ns r' = start_ns r"
    by (simp_all add: request_wf_def staging_name_def left_def)
qed

lemma send_packets_frame:
  "send_packets k fd d p lo rem n w = (b, n', w') \<Longrightarrow>
   files w' = files w \<and> (\<forall>fd'. fd' \<noteq> fd \<longrightarrow> socks w' fd' = socks w fd') \<and> now w' = now w"
proof (induction k fd d p lo rem n w rule: send_packets.induct)
  case (1 k fd d p lo rem n w)
  show ?case
  proof (cases "rem > 0")
    case True
    show ?thesis
    proof (cases "gather_lines (Suc k) d p w [] lo rem")
      case (Gather_error m)
      with "1.prems" True show ?thesis by (subst (asm) send_packets.simps) (auto simp del: gather_lines.simps)
    next
      case (Gathered packet lo' rem')
      obtain b1 w1 where s: "send_all fd packet w = (b1, w1)" by fastforce
      with "1.IH" [OF True Gathered s [symmetric]] "1.prems" True Gathered send_all_frame(1,2,3) [OF s] show ?thesis
        by (subst (asm) send_packets.simps) (cases b1; auto simp del: gather_lines.simps)
    qed
  next
    case False
    with "1.prems" show ?thesis by (subst (asm) send_packets.simps) auto
  qed
qed

lemma serve_get_frame:
  assumes "serve_get d dir b ov pk r w = (ok, n, r', w')"
  shows "files w' = files w \<and> (\<forall>fd'. fd' \<noteq> client_fd r \<longrightarrow> socks w' fd' = socks w fd') \<and> now w' = now w"
proof -
  have "send_round d p pk k r1 w1 = (ok, n, r', w') \<Longrightarrow>
      files w' = files w1 \<and> (\<forall>fd'. fd' \<noteq> client_fd r1 \<longrightarrow> socks w' fd' = socks w1 fd') \<and> now w' = now w1" for p k r1 w1
    by (auto simp: send_round_def dest: send_packets_frame split: if_splits prod.splits)
  with assms show ?thesis
    by (fastforce simp: serve_get_def Let_def split: if_splits prod.splits)
qed

lemmas serve_get_files = serve_get_frame [THEN conjunct1]

section \<open>The served directory\<close>

definition served :: "path \<Rightarrow> path \<Rightarrow> bool" where
  "served dir p \<longleftrightarrow> (\<exists>f. is_valid_filename f \<and> p = join_path dir f)"

lemma staging_name_valid: "is_valid_filename (filename r) \<Longrightarrow> is_valid_filename (staging_name r)"
proof -
  assume v: "is_valid_filename (filename r)"
  have "CHR ''/'' \<notin> set (show_nat n)" for n using show_nat_digits [of "CHR ''/''" n] by (auto simp: isdigit_def)
  then have "CHR ''/'' \<notin> set (staging_name r)"
    using v by (auto simp: staging_name_def show_int_def is_valid_filename_def split: if_splits)
  moreover have "8 \<le> length (staging_name r)" by (simp add: staging_name_def)
  then have "staging_name r \<notin> {[], ''.'', ''..''}" by auto
  ultimately show ?thesis by (simp add: is_valid_filename_def)
qed

lemma served_paths:
  assumes "is_valid_filename (filename r)"
  shows "served (we_dir e) (final_path e r)"
    "staging_filename (staged r) = staging_name r \<Longrightarrow> served (we_dir e) (staging_path e r)"
  using assms staging_name_valid [OF assms] by (auto simp: served_def final_path_def staging_path_def)

lemma staged_name: "request_wf r \<Longrightarrow> op r = PUT \<Longrightarrow> staging_filename (staged r) = staging_name r"
  by (auto simp: request_wf_def staged_def staging_name_def)

lemma settle_wf:
  assumes "request_wf r" "op r = PUT \<Longrightarrow> staging_filename r = staging_name r"
  shows "request_wf (settle_round e b n r)"
proof -
  have "offset (settle_round e b n r) \<le> total_bytes (settle_round e b n r)"
    using assms(1) by (auto simp: request_wf_def word_le_nat_alt left_def)
  with assms show ?thesis by (auto simp: request_wf_def staging_name_def)
qed

lemma stamp_wf [simp]: "request_wf (stamp_start w r) = request_wf r" "request_wf (stamp_finish w r) = request_wf r"
  by (simp_all add: request_wf_def stamp_start_def stamp_finish_def staging_name_def)

lemma commit_outcome: "commit_request e r w = (out, w') \<Longrightarrow> request_wf (outcome_request out) = request_wf r"
  by (auto simp: commit_request_def Let_def split: if_splits prod.splits bool.splits)

lemma put_round_wf:
  assumes "request_wf r" "op r = PUT" "serve_round e b (stamp_start w r) w = (ok, n, r1, w1)"
  shows "request_wf r1" "staging_filename r1 = staging_name r1" "op r1 = PUT" "filename r1 = filename r"
    "staging_name r1 = staging_name r"
proof -
  let ?r0 = "stamp_start w r" and ?w0 = "if offset r = 0 then send_response (client_fd r) 0 w else w"
  have sp: "serve_put (we_disk e) (we_dir e) b ?r0 ?w0 = (ok, n, r1, w1)"
    using assms(2,3) by (auto simp: serve_round_def)
  note same = serve_put_request [OF sp]
  have wf0: "request_wf ?r0" "op ?r0 = PUT" using assms(1,2) by simp_all
  have "staging_filename r1 = staging_name ?r0"
    using serve_put_other [OF sp] staged_name [OF wf0] wf0(1) by (simp add: request_wf_def)
  with same show s: "staging_filename r1 = staging_name r1" by (simp add: staging_name_def)
  show "op r1 = PUT" "filename r1 = filename r" "staging_name r1 = staging_name r"
    using same assms(2) by (simp_all add: staging_name_def)
  show "request_wf r1" using same s wf0 by (simp add: request_wf_def)
qed

text \<open>A round keeps its request well-formed and writes to the served directory only.\<close>

lemma worker_process_confined:
  assumes "request_wf r" "worker_process e (r, b) w = (out, w')"
  shows "request_wf (outcome_request out) \<and> (\<forall>p. \<not> served (we_dir e) p \<longrightarrow> files w' p = files w p)"
proof (cases "op r = PUT")
  case True
  note name = staged_name [OF assms(1) True]
  have v: "is_valid_filename (filename r)" using assms(1) by (simp add: request_wf_def)
  note sp = served_paths(1) [OF v, of e] served_paths(2) [OF v name, of e]
  from True v assms(2) show ?thesis
  proof (cases rule: worker_process_put [case_names failed served])
    case (failed n r1 w1)
    have "\<forall>p. \<not> served (we_dir e) p \<longrightarrow> files w1 p = files w p" using failed(5) sp(2) by metis
    with put_round_wf(1) [OF assms(1) True failed(1)] sp(2) failed(2,3) show ?thesis by (auto simp: sys_remove_def)
  next
    case (served n r1 w1)
    note k = put_round_wf [OF assms(1) True served(1)]
    then have wf: "request_wf (settle_round e b n r1)" by (intro settle_wf)
    have same: "\<forall>p. \<not> served (we_dir e) p \<longrightarrow> files w1 p = files w p" using served(6) sp(2) by metis
    show ?thesis
    proof (cases "should_requeue (settle_round e b n r1)")
      case True
      with served(2) wf same show ?thesis by auto
    next
      case False
      with served(2) have c: "commit_request e (settle_round e b n r1) w1 = (out, w')" by simp
      have "files w' p = files w1 p" if "\<not> served (we_dir e) p" for p
        using commit_request_files [OF c] k(2-5) sp name that
        by (auto simp: staging_path_def final_path_def)
      with same wf commit_outcome [OF c] show ?thesis by simp
    qed
  qed
next
  case False
  then have get: "op r = GET" using assms(1) by (cases "op r") (auto simp: request_wf_def)
  obtain ok n r1 w1 where sr: "serve_round e b (stamp_start w r) w = (ok, n, r1, w1)" by (metis prod_cases4)
  then have sg: "serve_get (we_disk e) (we_dir e) b (policy (we_sched e) = RR) (we_packetization e)
      (stamp_start w r) w = (ok, n, r1, w1)" using get by (simp add: serve_round_def)
  note k = serve_get_keeps [OF sg] and fl = serve_get_files [OF sg]
  have wf: "request_wf r1" "op r1 = GET" "staging_filename r1 = []"
    using k assms(1) get by (auto simp: request_wf_def)
  then have "request_wf (settle_round e b n r1)" by (intro settle_wf) auto
  with wf fl assms(2) sr show ?thesis
    by (cases ok) (auto simp: worker_process_def Let_def commit_request_def split: if_splits)
qed

section \<open>The running server\<close>

fun parser_fresh :: "parser_phase \<Rightarrow> bool" where
  "parser_fresh (P_checked fd (Admitted r)) \<longleftrightarrow> request_fresh r"
| "parser_fresh (P_numbered fd r) \<longleftrightarrow> request_fresh r"
| "parser_fresh _ \<longleftrightarrow> True"

definition requests_wf :: "server_state \<Rightarrow> bool" where
  "requests_wf s \<longleftrightarrow> list_all request_wf (q_items (sv_queue s)) \<and>
     (\<forall>ph \<in> set (sv_workers s). list_all request_wf (worker_holds ph)) \<and> list_all parser_fresh (sv_parsers s)"

text \<open>The files that a step leaves alone.\<close>

definition confined :: "path \<Rightarrow> path \<Rightarrow> world \<Rightarrow> world \<Rightarrow> bool" where
  "confined dir metrics_out w w' \<longleftrightarrow> (\<forall>p. \<not> served dir p \<and> p \<noteq> metrics_out \<longrightarrow> files w' p = files w p)"

lemma confined_files: "files w' = files w \<Longrightarrow> confined dir metrics_out w w'"
  by (simp add: confined_def)

lemma close_socket_files [simp]: "files (close_socket fd w) = files w"
  by (simp add: close_socket_def sys_close_def)

lemma parse_connection_files: "parse_connection dir fd w = (v, w') \<Longrightarrow> files w' = files w"
  using read_header_loop_frame
  by (fastforce simp: parse_connection_def read_header_line_def split: prod.splits)

lemma parser_step_wf:
  assumes "parser_step e ph s = Some (ph', s', evs)" "requests_wf s" "parser_fresh ph"
  shows "parser_fresh ph'" "list_all request_wf (q_items (sv_queue s'))" "sv_workers s' = sv_workers s"
    "sv_parsers s' = sv_parsers s" "files (sv_world s') = files (sv_world s)"
proof -
  show "sv_workers s' = sv_workers s" "sv_parsers s' = sv_parsers s"
    using parser_step_same [OF assms(1)] by simp_all
  show "parser_fresh ph'"
    using assms(1,3)
    by (auto simp: parser_step_def number_request_fresh parse_connection_fresh
        split: parser_phase.splits parser_verdict.splits pop_result.splits prod.splits)
       (metis parse_connection_fresh parser_fresh.simps parser_verdict.exhaust)
  show "files (sv_world s') = files (sv_world s)"
    using assms(1)
    by (auto simp: parser_step_def refuse_def answer_health_def admit_request_def
        dest: parse_connection_files
        split: parser_phase.splits parser_verdict.splits pop_result.splits prod.splits if_splits bool.splits)
  show "list_all request_wf (q_items (sv_queue s'))"
    using assms
    by (auto simp: parser_step_def admit_request_def push_def requests_wf_def fresh_wf
        split: parser_phase.splits parser_verdict.splits pop_result.splits prod.splits if_splits bool.splits)
qed

lemma scheduler_next_wf:
  assumes "scheduler_next s q = Popped (r, b) q'" "list_all request_wf (q_items q)"
  shows "request_wf r" "list_all request_wf (q_items q')"
proof -
  obtain r0 where p: "policy_pop (policy s) q = Popped r0 q'" and g: "get_budget s r0 = (b, r)"
    using assms(1) by (auto simp: scheduler_next_def split: pop_result.splits prod.splits)
  have m: "mset (q_items q) = mset (q_items q') + {#r0#}" using sched.popped [OF p] by (simp add: q_waiting_def)
  then have "set (q_items q) = insert r0 (set (q_items q'))" by (metis set_mset_add_mset_insert set_mset_mset union_mset_add_mset_right add.right_neutral)
  with assms(2) have "request_wf r0" "list_all request_wf (q_items q')" by (auto simp: list_all_iff)
  with request_wf_cong [of r r0] get_budget_keeps [OF g]
  show "request_wf r" "list_all request_wf (q_items q')" by simp_all
qed

lemma worker_step_wf:
  assumes "worker_step e ph s = Some (ph', s', evs)" "requests_wf s" "list_all request_wf (worker_holds ph)"
  shows "list_all request_wf (worker_holds ph')" "list_all request_wf (q_items (sv_queue s'))"
    "sv_workers s' = sv_workers s" "sv_parsers s' = sv_parsers s"
    "confined (we_dir e) metrics_out (sv_world s) (sv_world s')"
proof -
  show "sv_workers s' = sv_workers s" "sv_parsers s' = sv_parsers s"
    using worker_step_same [OF assms(1)] by simp_all
  have q: "list_all request_wf (q_items (sv_queue s))" using assms(2) by (simp add: requests_wf_def)
  have "list_all request_wf (worker_holds ph') \<and> list_all request_wf (q_items (sv_queue s')) \<and>
    confined (we_dir e) metrics_out (sv_world s) (sv_world s')"
  proof (cases ph)
    case W_waiting
    then show ?thesis
      using assms(1) q scheduler_next_wf [OF _ q]
      by (auto simp: worker_step_def confined_def split: pop_result.splits)
  next
    case (W_serving dec)
    obtain r b where dec: "dec = (r, b)" by fastforce
    obtain out w1 where p: "worker_process e (r, b) (sv_world s) = (out, w1)" by fastforce
    have "request_wf r" using assms(3) W_serving dec by simp
    from worker_process_confined [OF this p] show ?thesis
      using assms(1) W_serving dec p q by (auto simp: worker_step_def confined_def)
  next
    case (W_returning out)
    then show ?thesis
      using assms(1,3) q
      by (cases out) (auto simp: worker_step_def worker_finish_def requeue_def Request_Queue.complete_def confined_def)
  qed (use assms(1) in \<open>simp add: worker_step_def\<close>)
  then show "list_all request_wf (worker_holds ph')" "list_all request_wf (q_items (sv_queue s'))"
    "confined (we_dir e) metrics_out (sv_world s) (sv_world s')" by blast+
qed

lemma main_step_wf:
  assumes "main_step d metrics_out s = Some s'"
  shows "requests_wf s' = requests_wf s" "confined dir metrics_out (sv_world s) (sv_world s')"
proof -
  have "p \<noteq> metrics_out \<Longrightarrow> files (snd (write_csv d metrics_out m w)) p = files w p" for p m w
    by (auto simp: write_csv_def open_trunc_def stream_write_def Let_def split: option.splits)
  then show "requests_wf s' = requests_wf s" "confined dir metrics_out (sv_world s) (sv_world s')"
    using assms by (auto simp: main_step_def requests_wf_def close_queue_def confined_def
        split: main_phase.splits if_splits)
qed

lemma acceptor_select_wf:
  assumes "acceptor_select ev s = (s', evs)"
  shows "requests_wf s' = requests_wf s" "files (sv_world s') = files (sv_world s)"
  using assms
  by (auto simp: acceptor_select_def acceptor_retry_def acceptor_exit_def Let_def requests_wf_def
      split: accept_event.splits if_splits prod.splits bool.splits)

lemma server_step_wf:
  assumes "server_step e metrics_out s evs s'" "requests_wf s"
  shows "requests_wf s' \<and> confined (we_dir e) metrics_out (sv_world s) (sv_world s')"
  using assms(1)
proof (cases rule: server_step.cases)
  case step_signal
  then show ?thesis using assms(2) by (simp add: handle_signal_def requests_wf_def confined_def)
next
  case step_check
  then show ?thesis
    using assms(2) by (simp add: acceptor_check_def acceptor_exit_def requests_wf_def confined_def)
next
  case (step_select ev)
  then show ?thesis using assms(2) acceptor_select_wf confined_files by blast
next
  case (step_parser i ph s1)
  have "parser_fresh (sv_parsers s ! i)" using assms(2) step_parser(2) by (auto simp: requests_wf_def list_all_length)
  from parser_step_wf [OF step_parser(3) assms(2) this] step_parser(1) show ?thesis
    using assms(2) set_update_subset_insert [of "sv_parsers s" i ph]
    by (auto simp: requests_wf_def list_all_iff confined_def)
next
  case (step_worker i ph s1)
  have "list_all request_wf (worker_holds (sv_workers s ! i))"
    using assms(2) step_worker(2) by (simp add: requests_wf_def)
  from worker_step_wf [OF step_worker(3) assms(2) this] step_worker(1) show ?thesis
    using assms(2) set_update_subset_insert [of "sv_workers s" i ph]
    by (auto simp: requests_wf_def list_all_iff dest!: done_update)
next
  case step_main
  then show ?thesis using assms(2) main_step_wf by blast
qed

lemma server_run_wf:
  assumes "server_run e metrics_out (server_start n c w) tr s"
  shows "requests_wf s \<and> confined (we_dir e) metrics_out w (sv_world s)"
  using assms
proof (induction rule: server_run.induct)
  case run_start
  then show ?case by (simp add: requests_wf_def server_start_def empty_queue_def confined_def list_all_iff)
next
  case (run_step tr s evs s')
  with server_step_wf show ?case by (fastforce simp: confined_def)
qed

section \<open>Refusals\<close>

lemma send_error_reliable:
  assumes "reliable w fd"
  shows "wire (send_error fd m w) fd = wire w fd @ err_line m"
proof -
  obtain w' where "send_all fd (err_line m) w = (True, w')" "wire w' fd = wire w fd @ err_line m"
    using assms by (rule send_all_reliable)
  then show ?thesis by (simp add: send_error_def)
qed

text \<open>The client is told \<open>m\<close>, its connection is closed, and nothing else happens.\<close>

definition refused :: "path \<Rightarrow> int \<Rightarrow> request_queue \<Rightarrow> i32 \<Rightarrow> world \<Rightarrow> string \<Rightarrow> bool" where
  "refused dir fd q k w m \<longleftrightarrow> (\<exists>w'. parser_handle dir fd (q, k, w) = (q, k, w') \<and>
     wire w' fd = wire w fd @ err_line m \<and> \<not> sock_open (socks w' fd) \<and> files w' = files w \<and>
     (\<forall>fd'. fd' \<noteq> fd \<longrightarrow> socks w' fd' = socks w fd'))"

lemma rejected_refused:
  assumes "parse_connection dir fd w = (Rejected m, w1)" "reliable w fd" "0 \<le> fd"
  shows "refused dir fd q k w m"
proof -
  obtain h l where "read_header_line fd 1000 w = (h, l, w1)"
    using assms(1) by (auto simp: parse_connection_def split: prod.splits)
  note f = read_header_loop_frame [OF this [unfolded read_header_line_def]]
  then have "reliable w1 fd" "wire w1 fd = wire w fd" using assms(2) by (simp_all add: reliable_def wire_def)
  with f send_error_reliable [of w1 fd m] assms(1,3) show ?thesis
    by (auto simp: refused_def parser_handle_def refuse_def close_socket_def sys_close_def wire_def)
qed

section \<open>Properties\<close>

text \<open>
  C14. Nothing the clients send makes the server write outside its directory. In
  every run, under every interleaving and with every failure of the disk or the
  network, a file that is not a plain name inside the served directory, and not
  the metrics file, keeps its contents.
\<close>

theorem server_confined:
  assumes "server_run e metrics_out (server_start n c w) tr s"
    and "\<forall>f. f \<noteq> [] \<and> f \<noteq> ''.'' \<and> f \<noteq> ''..'' \<and> CHR ''/'' \<notin> set f \<longrightarrow> p \<noteq> we_dir e @ ''/'' @ f" and "p \<noteq> metrics_out"
  shows "files (sv_world s) p = files w p"
  using server_run_wf [OF assms(1)] assms(2,3) by (auto simp: confined_def served_def is_valid_filename_def join_path_def)

theorem server_confined_witness:
  "\<exists>s. server_run (demo_env RR 2) ''m.csv'' (server_start 1 10 (demo_world [''/etc/passwd'' \<mapsto> ''root''] [])) [] s \<and>
     sv_main s = Main_done \<and> files (sv_world s) ''/etc/passwd'' = Some ''root''"
proof -
  let ?w = "demo_world [''/etc/passwd'' \<mapsto> ''root''] []"
  obtain s where s: "server_run (demo_env RR 2) ''m.csv'' (server_start 1 10 ?w) [] s" "sv_main s = Main_done"
    using idle_run [of "demo_env RR 2" "''m.csv''" 1 10 ?w] by blast
  have "\<forall>f. f \<noteq> [] \<and> f \<noteq> ''.'' \<and> f \<noteq> ''..'' \<and> CHR ''/'' \<notin> set f \<longrightarrow>
      ''/etc/passwd'' \<noteq> we_dir (demo_env RR 2) @ ''/'' @ f"
    by (simp add: demo_env_def)
  from server_confined [OF s(1) this] s show ?thesis by auto
qed

text \<open>
  C20. Every request in the system is well-formed at every moment: in the queue and
  in the hands of a worker it names a valid file, is a GET or a PUT, its offset
  has not passed its size, and if it has stored bytes it owns the staging file
  that carries its number; in the hands of a parser it is fresh.
\<close>

theorem requests_wellformed:
  assumes "server_run e metrics_out (server_start n c w) tr s"
  shows "(\<forall>r. r \<in># held_requests s \<longrightarrow> request_wf r) \<and>
    (\<forall>fd r. P_numbered fd r \<in> set (sv_parsers s) \<longrightarrow> request_fresh r)"
  using server_run_wf [OF assms]
  by (fastforce simp: requests_wf_def held_requests_def busy_workers_def list_all_iff)

theorem requests_wellformed_witness:
  "\<exists>s. server_run (demo_env RR 2) ''m.csv'' (server_start 1 10 (demo_world Map.empty [])) [E_accept 5] s \<and>
     (\<forall>r. r \<in># held_requests s \<longrightarrow> request_wf r)"
  using requests_wellformed [OF demo_accept_run] demo_accept_run by blast

text \<open>
  C21. Every faulty request is answered: a header that does not arrive in time, does
  not parse, names an invalid file or asks for a missing one gets exactly one
  \<open>ERR\<close> line with the reason, and the connection is closed; the queue, the
  request counter, the files and the other connections are as before.
\<close>

theorem faulty_requests_refused:
  assumes "read_header_line fd 1000 w = (header, leftover, w1)" and "reliable w fd" and "0 \<le> fd"
  shows "(header = [] \<longrightarrow> refused dir fd q k w ''timeout or invalid request'') \<and>
    (\<forall>m. header \<noteq> [] \<and> parse_request_header header fd = Inl m \<longrightarrow> refused dir fd q k w m) \<and>
    (\<forall>r. header \<noteq> [] \<and> parse_request_header header fd = Inr r \<and> op r \<noteq> HEALTH \<and>
       \<not> is_valid_filename (filename r) \<longrightarrow> refused dir fd q k w ''invalid filename'') \<and>
    (\<forall>r. header \<noteq> [] \<and> parse_request_header header fd = Inr r \<and> op r = GET \<and> is_valid_filename (filename r) \<and>
       files w (join_path dir (filename r)) = None \<longrightarrow> refused dir fd q k w ''file not found'')"
proof -
  have "files w1 = files w" using read_header_loop_frame [OF assms(1) [unfolded read_header_line_def]] by simp
  then show ?thesis
    using assms(1) by (auto intro!: rejected_refused [OF _ assms(2,3), of dir _ w1]
        simp: parse_connection_def Let_def file_exists_def)
qed

theorem faulty_requests_refused_witness:
  "refused ''d'' 4 empty_queue 1 (demo_world Map.empty [Segment 5 (''GET ../x'' @ [newline])]) ''invalid filename''"
proof -
  let ?w = "demo_world Map.empty [Segment 5 (''GET ../x'' @ [newline])]"
  obtain w1 where r: "read_header_line 4 1000 ?w = (''GET ../x'' @ [newline], [], w1)"
    using read_header_line_segment [of ?w 4 5 "''GET ../x''" "[]" "[]" 1000] by (auto simp: newline_def)
  have "parse_request_header (''GET ../x'' @ [newline]) 4 =
      Inr (new_request\<lparr>client_fd := 4, op := GET, filename := ''../x''\<rparr>)"
    using request_header_parses [of "''../x''" 4 0] by (simp add: isspace_def)
  with faulty_requests_refused [OF r, of "''d''" empty_queue 1] show ?thesis
    by (simp add: reliable_def is_valid_filename_def)
qed

end
