(* ===== verification/Isolation.thy ===== *)
theory Isolation
  imports Server_Confinement "HOL-Library.Sublist"
begin

text \<open>
  Requests that are in the system at the same time do not disturb each other.
  The theory shows that they have different connections, different numbers and
  hence different staging files, in every run in which the system hands out
  descriptors that are not in use, the request counter does not wrap round and
  the uploads keep to the names they are allowed (\<open>orderly\<close>); and it shows
  that a step of one thread leaves alone the connection and the file of every
  request that another thread holds.
\<close>

section \<open>Staging names\<close>

text \<open>The names that a staging file can have.\<close>

definition reserved :: "string \<Rightarrow> bool" where
  "reserved name \<longleftrightarrow> sublist ''.upload.'' name"

lemma staging_reserved: "reserved (staging_name r)"
  by (auto simp: reserved_def staging_name_def sublist_def)

lemma last_part_unique:
  assumes "a @ c # x = b @ c # y" "c \<notin> set x" "c \<notin> set y"
  shows "x = y"
proof -
  have "takeWhile (\<lambda>d. d \<noteq> c) (rev (u @ c # z)) = rev z" if "c \<notin> set z" for u z
    using that by (auto simp: takeWhile_append)
  from this [of x a] this [of y b] assms show ?thesis by simp
qed

lemma show_int_chars: "c \<in> set (show_int i) \<Longrightarrow> isdigit c \<or> c = CHR ''-''"
  by (auto simp: show_int_def dest: show_nat_digits split: if_splits)

lemma show_int_inject: "show_int i = show_int j \<longleftrightarrow> i = j"
proof
  assume eq: "show_int i = show_int j"
  have minus: "CHR ''-'' \<notin> set (show_nat n)" for n using show_nat_digits [of "CHR ''-''" n] by (auto simp: isdigit_def)
  have n: "show_nat a = show_nat b \<Longrightarrow> a = b" for a b by (metis digits_val_show_nat)
  have "i < 0 \<longleftrightarrow> j < 0"
    using eq minus [of "nat i"] minus [of "nat j"] by (auto simp: show_int_def split: if_splits) (metis list.set_intros(1))+
  with eq show "i = j" by (auto simp: show_int_def dest!: n split: if_splits)
qed simp

text \<open>The number of a request can be read off the name of its staging file.\<close>

lemma staging_name_id:
  assumes "staging_name r = staging_name r'"
  shows "request_id r = request_id r'"
proof -
  have dot: "CHR ''.'' \<notin> set (show_int i)" for i using show_int_chars [of "CHR ''.''" i] by (auto simp: isdigit_def)
  have "show_int (sint (request_id r)) = show_int (sint (request_id r'))"
    by (rule last_part_unique [of "filename r @ ''.upload''" "CHR ''.''" _ "filename r' @ ''.upload''"])
       (use assms dot in \<open>simp_all add: staging_name_def\<close>)
  then show ?thesis by (auto simp: show_int_inject intro: signed_word_eqI)
qed

section \<open>What a round touches\<close>

definition touched :: "worker_env \<Rightarrow> request \<Rightarrow> path set" where
  "touched e r = (if op r = PUT then {join_path (we_dir e) (staging_name r), final_path e r} else {})"

lemma commit_request_socks:
  "commit_request e r w = (out, w') \<Longrightarrow> fd \<noteq> client_fd r \<Longrightarrow> socks w' fd = socks w fd"
  by (auto simp: commit_request_def sys_rename_def Let_def split: if_splits option.splits)

lemma worker_process_socks:
  assumes "request_wf r" "worker_process e (r, b) w = (out, w')" "fd \<noteq> client_fd r"
  shows "socks w' fd = socks w fd"
proof -
  obtain ok n r1 w1 where sr: "serve_round e b (stamp_start w r) w = (ok, n, r1, w1)" by (metis prod_cases4)
  have "socks w1 fd = socks w fd \<and> client_fd r1 = client_fd r"
  proof (cases "op r")
    case GET
    then have sg: "serve_get (we_disk e) (we_dir e) b (policy (we_sched e) = RR) (we_packetization e)
      (stamp_start w r) w = (ok, n, r1, w1)" using sr by (simp add: serve_round_def)
    show ?thesis using serve_get_frame [OF sg] serve_get_same [OF sg] assms(3) by (simp add: same_request_def)
  next
    case PUT
    let ?w0 = "if offset r = 0 then send_response (client_fd r) 0 w else w"
    have sp: "serve_put (we_disk e) (we_dir e) b (stamp_start w r) ?w0 = (ok, n, r1, w1)"
      using sr PUT by (auto simp: serve_round_def)
    show ?thesis using serve_put_other [OF sp] serve_put_request [OF sp] assms(3) by simp
  qed (use assms(1) in \<open>simp add: request_wf_def\<close>)
  with assms(2,3) sr show ?thesis
    by (cases ok) (auto simp: worker_process_def Let_def sys_remove_def commit_request_socks split: if_splits)
qed

lemma worker_process_files:
  assumes "request_wf r" "worker_process e (r, b) w = (out, w')" "q \<notin> touched e r"
  shows "files w' q = files w q"
proof (cases "op r = PUT")
  case True
  have v: "is_valid_filename (filename r)" using assms(1) by (simp add: request_wf_def)
  have p: "staging_path e r = join_path (we_dir e) (staging_name r)"
    using staged_name [OF assms(1) True] by (simp add: staging_path_def)
  have q: "q \<noteq> staging_path e r" "q \<noteq> final_path e r" using assms(3) True by (simp_all add: touched_def p)
  from True v assms(2) show ?thesis
  proof (cases rule: worker_process_put [case_names failed served])
    case (failed n r1 w1)
    then show ?thesis using q by (auto simp: sys_remove_def)
  next
    case (served n r1 w1)
    show ?thesis
    proof (cases "should_requeue (settle_round e b n r1)")
      case False
      with served(2) have "commit_request e (settle_round e b n r1) w1 = (out, w')" by simp
      from commit_request_files [OF this] served(3-6) q show ?thesis
        by (auto simp: staging_path_def final_path_def)
    qed (use served q in auto)
  qed
next
  case False
  then have get: "op r = GET" using assms(1) by (cases "op r") (auto simp: request_wf_def)
  obtain ok n r1 w1 where sr: "serve_round e b (stamp_start w r) w = (ok, n, r1, w1)" by (metis prod_cases4)
  then have sg: "serve_get (we_disk e) (we_dir e) b (policy (we_sched e) = RR) (we_packetization e)
      (stamp_start w r) w = (ok, n, r1, w1)" using get by (simp add: serve_round_def)
  have "op r1 = GET" "staging_filename r1 = []" "files w1 = files w"
    using serve_get_keeps [OF sg] serve_get_files [OF sg] assms(1) get by (auto simp: request_wf_def)
  with assms(2) sr show ?thesis
    by (cases ok) (auto simp: worker_process_def Let_def commit_request_def split: if_splits)
qed

section \<open>Orderly runs\<close>

text \<open>
  The numbers in use: of the requests in the queue and in the hands of workers,
  and of the requests that parsers are about to admit.
\<close>

fun parser_ids :: "parser_phase \<Rightarrow> i32 list" where
  "parser_ids (P_numbered fd r) = [request_id r]"
| "parser_ids _ = []"

definition live_ids :: "server_state \<Rightarrow> i32 multiset" where
  "live_ids s = image_mset request_id (held_requests s) + mset (concat (map parser_ids (sv_parsers s)))"

text \<open>
  What the isolation of requests rests on: \<^verbatim>\<open>accept\<close> returns a descriptor that
  is not in use, the counter of requests has not wrapped round, and an upload
  that is admitted has an allowed name.
\<close>

definition orderly :: "(string \<Rightarrow> bool) \<Rightarrow> server_state \<Rightarrow> event list \<Rightarrow> server_state \<Rightarrow> bool" where
  "orderly allowed s evs s' \<longleftrightarrow>
     (\<forall>fd \<in> set (concat (map accepted evs)). fd \<notin># held_connections s) \<and>
     sint (sv_next_id s) \<le> sint (sv_next_id s') \<and>
     (\<forall>r \<in> set (concat (map admitted evs)). op r = PUT \<longrightarrow> allowed (filename r))"

inductive orderly_run ::
  "worker_env \<Rightarrow> path \<Rightarrow> (string \<Rightarrow> bool) \<Rightarrow> server_state \<Rightarrow> event list \<Rightarrow> server_state \<Rightarrow> bool"
  for e metrics_out allowed s0 where
  orderly_start: "orderly_run e metrics_out allowed s0 [] s0"
| orderly_step: "orderly_run e metrics_out allowed s0 tr s \<Longrightarrow> server_step e metrics_out s evs s' \<Longrightarrow>
    orderly allowed s evs s' \<Longrightarrow> orderly_run e metrics_out allowed s0 (tr @ evs) s'"

lemma orderly_run_server: "orderly_run e metrics_out allowed s0 tr s \<Longrightarrow> server_run e metrics_out s0 tr s"
  by (induction rule: orderly_run.induct) (auto intro: server_run.intros)

lemma accepted_distinct: "server_step e metrics_out s evs s' \<Longrightarrow> distinct (concat (map accepted evs))"
proof (induction rule: server_step.induct)
  case (step_select s ev s' evs)
  then show ?case
    by (auto simp: acceptor_select_def Let_def split: accept_event.splits if_splits prod.splits bool.splits)
next
  case (step_parser i s ph s' evs)
  then show ?case
    by (auto simp: parser_step_def split: parser_phase.splits parser_verdict.splits pop_result.splits prod.splits)
next
  case (step_worker i s ph s' evs)
  then show ?case by (simp only: worker_step_events(2) distinct.simps)
qed simp_all

lemma parser_step_ids:
  "parser_step e ph0 s = Some (ph, s', evs) \<Longrightarrow>
   sv_next_id s' = sv_next_id s \<and>
     mset (parser_ids ph) + mset (concat (map admitted_ids evs)) \<subseteq># mset (parser_ids ph0) \<or>
   sv_next_id s' = sv_next_id s + 1 \<and> parser_ids ph0 = [] \<and> concat (map admitted_ids evs) = [] \<and>
     parser_ids ph = [sv_next_id s]"
  by (auto simp: parser_step_def admit_request_def number_request_def admitted_ids_def
      split: parser_phase.splits parser_verdict.splits pop_result.splits prod.splits)

lemma other_step_parsers:
  "acceptor_select ev s = (s', evs) \<Longrightarrow> sv_parsers s' = sv_parsers s \<and> sv_next_id s' = sv_next_id s"
  "main_step d out s = Some s' \<Longrightarrow> sv_parsers s' = sv_parsers s \<and> sv_next_id s' = sv_next_id s"
  "worker_step e ph0 s = Some (ph, s', evs) \<Longrightarrow> sv_parsers s' = sv_parsers s \<and> sv_next_id s' = sv_next_id s"
  by (auto simp: acceptor_select_def acceptor_retry_def acceptor_exit_def Let_def main_step_def worker_step_def
      split: accept_event.splits if_splits prod.splits bool.splits main_phase.splits worker_phase.splits
        pop_result.splits)

lemma ids_of_admitted: "concat (map admitted_ids evs) = map request_id (concat (map admitted evs))"
  by (induction evs) (simp_all add: admitted_ids_def)

text \<open>A step gives out at most the next number, and no number twice.\<close>

lemma live_ids_parser:
  assumes st: "i < length (sv_parsers s)" "parser_step e (sv_parsers s ! i) s = Some (ph, s1, evs)"
    and s': "s' = s1\<lparr>sv_parsers := (sv_parsers s1)[i := ph]\<rparr>"
    and sub: "image_mset request_id (held_requests s')
      \<subseteq># image_mset request_id (held_requests s) + mset (concat (map admitted_ids evs))"
  shows "sv_next_id s' = sv_next_id s \<and> live_ids s' \<subseteq># live_ids s \<or>
    sv_next_id s' = sv_next_id s + 1 \<and> live_ids s' \<subseteq># live_ids s + {#sv_next_id s#}"
proof -
  let ?I = "\<lambda>s. image_mset request_id (held_requests s)" and ?A = "mset (concat (map admitted_ids evs))"
  let ?P = "\<lambda>s. mset (concat (map parser_ids (sv_parsers s)))" and ?ph0 = "sv_parsers s ! i"
  have P: "?P s' + mset (parser_ids ?ph0) = ?P s + mset (parser_ids ph)"
    using concat_map_update [OF st(1), of parser_ids ph] parser_step_same [OF st(2)] s' by simp
  from parser_step_ids [OF st(2)] show ?thesis
  proof (elim disjE conjE)
    assume n: "sv_next_id s1 = sv_next_id s" "mset (parser_ids ph) + ?A \<subseteq># mset (parser_ids ?ph0)"
    have "live_ids s' + mset (parser_ids ?ph0) = ?I s' + (?P s' + mset (parser_ids ?ph0))"
      by (simp add: live_ids_def)
    also have "\<dots> \<subseteq># (?I s + ?A) + (?P s + mset (parser_ids ph))" unfolding P using sub by simp
    also have "\<dots> = live_ids s + (mset (parser_ids ph) + ?A)" by (simp add: live_ids_def)
    also have "\<dots> \<subseteq># live_ids s + mset (parser_ids ?ph0)" using n(2) by simp
    finally show ?thesis using n(1) s' by simp
  next
    assume n: "sv_next_id s1 = sv_next_id s + 1" "parser_ids ?ph0 = []" "concat (map admitted_ids evs) = []"
      "parser_ids ph = [sv_next_id s]"
    have "?I s' \<subseteq># ?I s" using sub unfolding n(3) by simp
    then show ?thesis using n(1,2,4) P s' by (simp add: live_ids_def)
  qed
qed

lemma live_ids_step:
  assumes "server_step e metrics_out s evs s'"
  shows "sv_next_id s' = sv_next_id s \<and> live_ids s' \<subseteq># live_ids s \<or>
    sv_next_id s' = sv_next_id s + 1 \<and> live_ids s' \<subseteq># live_ids s + {#sv_next_id s#}"
proof -
  let ?I = "\<lambda>s. image_mset request_id (held_requests s)" and ?A = "mset (concat (map admitted_ids evs))"
  have sub: "?I s' \<subseteq># ?I s + ?A" using requests_step [OF assms] by (metis mset_subset_eq_add_left)
  have idle: ?thesis if "sv_parsers s' = sv_parsers s" "sv_next_id s' = sv_next_id s" "concat (map admitted evs) = []"
    using sub that by (simp add: live_ids_def ids_of_admitted)
  show ?thesis
    using assms
  proof (cases rule: server_step.cases)
    case (step_select ev)
    then show ?thesis using other_step_parsers(1) acceptor_connections(3) by (intro idle) blast+
  next
    case (step_worker i ph s1)
    then show ?thesis
      using other_step_parsers(3) [OF step_worker(3)] worker_step_events(3) [OF step_worker(3)]
      by (intro idle) simp_all
  next
    case (step_parser i ph s1)
    show ?thesis by (rule live_ids_parser [OF step_parser(2,3,1) sub])
  next
    case step_main
    then show ?thesis using other_step_parsers(2) by (intro idle) auto
  qed (rule idle; simp add: handle_signal_def acceptor_check_def acceptor_exit_def)+
qed

text \<open>
  In an orderly run the requests and connections in the system are told apart by
  their numbers and descriptors.
\<close>

definition iso_inv :: "(string \<Rightarrow> bool) \<Rightarrow> server_state \<Rightarrow> bool" where
  "iso_inv allowed s \<longleftrightarrow> server_inv s \<and> requests_wf s \<and> sv_workers s \<noteq> [] \<and>
     (\<forall>fd. count (held_connections s) fd \<le> 1) \<and> (\<forall>k. count (live_ids s) k \<le> 1) \<and>
     (\<forall>k \<in># live_ids s. sint k < sint (sv_next_id s)) \<and>
     (\<forall>r \<in># held_requests s. op r = PUT \<longrightarrow> allowed (filename r))"

lemma ids_stay_distinct:
  assumes "server_step e metrics_out s evs s'" "orderly allowed s evs s'"
    and "\<forall>k. count (live_ids s) k \<le> 1" "\<forall>k \<in># live_ids s. sint k < sint (sv_next_id s)"
  shows "(\<forall>k. count (live_ids s') k \<le> 1) \<and> (\<forall>k \<in># live_ids s'. sint k < sint (sv_next_id s'))"
  using live_ids_step [OF assms(1)]
proof (elim disjE conjE)
  assume "sv_next_id s' = sv_next_id s" "live_ids s' \<subseteq># live_ids s"
  then show ?thesis
    using assms(3,4) by (metis mset_subset_eq_count mset_subset_eqD order_trans)
next
  assume n: "sv_next_id s' = sv_next_id s + 1" and sub: "live_ids s' \<subseteq># live_ids s + {#sv_next_id s#}"
  have "sint (sv_next_id s) \<noteq> sint (sv_next_id s + 1)" by (metis add_cancel_left_right signed_word_eqI zero_neq_one)
  then have lt: "sint (sv_next_id s) < sint (sv_next_id s')" using assms(2) n by (simp add: orderly_def)
  have "count (live_ids s) (sv_next_id s) = 0" using assms(4) by (metis count_eq_zero_iff less_irrefl)
  then have "count (live_ids s + {#sv_next_id s#}) k \<le> 1" for k
    using assms(3) by (cases "k = sv_next_id s") simp_all
  moreover have "sint k < sint (sv_next_id s')" if "k \<in># live_ids s + {#sv_next_id s#}" for k
    using that assms(4) lt by force
  ultimately show ?thesis using sub by (meson mset_subset_eq_count mset_subset_eqD order_trans)
qed

lemma connections_stay_distinct:
  assumes "server_step e metrics_out s evs s'" "orderly allowed s evs s'" "server_inv s"
    and "\<forall>fd. count (held_connections s) fd \<le> 1"
  shows "count (held_connections s') fd \<le> 1"
proof -
  let ?acc = "concat (map accepted evs)"
  have "count (held_connections s') fd \<le> count (held_connections s) fd + count (mset ?acc) fd"
    using arg_cong [OF connections_step [OF assms(1,3)], of "\<lambda>M. count M fd"] by simp
  also have "\<dots> \<le> 1"
  proof (cases "fd \<in> set ?acc")
    case True
    then have "count (held_connections s) fd = 0" using assms(2) by (auto simp: orderly_def not_in_iff)
    moreover have "count (mset ?acc) fd = 1"
      using accepted_distinct [OF assms(1)] True by (simp add: distinct_count_atmost_1)
    ultimately show ?thesis by simp
  next
    case False
    then have "count (mset ?acc) fd = 0" by (simp only: count_mset_0_iff not_False_eq_True)
    with assms(4) show ?thesis by (simp only: add_0_right)
  qed
  finally show ?thesis .
qed

lemma uploads_stay_allowed:
  assumes "server_step e metrics_out s evs s'" "orderly allowed s evs s'"
    and "\<forall>r \<in># held_requests s. op r = PUT \<longrightarrow> allowed (filename r)"
  shows "\<forall>r \<in># held_requests s'. op r = PUT \<longrightarrow> allowed (filename r)"
proof
  fix r
  assume "r \<in># held_requests s'"
  let ?f = "\<lambda>r. (op r, filename r)"
  have "image_mset ?f (held_requests s') + mset (map ?f (concat (map ended evs))) =
      image_mset ?f (held_requests s) + mset (map ?f (concat (map admitted evs)))"
    using assms(1) by (rule held_image_step) (simp add: same_request_def)
  moreover have "?f r \<in># image_mset ?f (held_requests s') + mset (map ?f (concat (map ended evs)))"
    using \<open>r \<in># held_requests s'\<close> by auto
  ultimately have "?f r \<in># image_mset ?f (held_requests s) + mset (map ?f (concat (map admitted evs)))" by metis
  then show "op r = PUT \<longrightarrow> allowed (filename r)" using assms(2,3) by (auto simp: orderly_def)
qed

lemma iso_inv_step:
  assumes "server_step e metrics_out s evs s'" "orderly allowed s evs s'" "iso_inv allowed s"
  shows "iso_inv allowed s'"
proof -
  have "length (sv_workers s') = length (sv_workers s)"
    using run_lengths [OF run_step [OF run_start assms(1)]] by simp
  then show ?thesis
    using assms(3) server_inv_step [OF assms(1)] server_step_wf [OF assms(1)] ids_stay_distinct [OF assms(1,2)]
      connections_stay_distinct [OF assms(1,2)] uploads_stay_allowed [OF assms(1,2)]
    by (auto simp: iso_inv_def)
qed

lemma iso_inv_start: "0 < n \<Longrightarrow> iso_inv allowed (server_start n c w)"
  using server_inv_start [of n c w] server_run_wf [OF run_start [of _ _ "server_start n c w"]]
  by (auto simp: iso_inv_def held_connections_def live_ids_def held_requests_def busy_workers_def server_start_def
      empty_queue_def)

lemma iso_inv_run: "orderly_run e metrics_out allowed s0 tr s \<Longrightarrow> iso_inv allowed s0 \<Longrightarrow> iso_inv allowed s"
  by (induction rule: orderly_run.induct) (auto intro: iso_inv_step)

section \<open>Steps leave other requests alone\<close>

text \<open>The file a request works on between its rounds: its staging file, or the file it reads.\<close>

definition own_name :: "request \<Rightarrow> string" where
  "own_name r = (if op r = PUT then staging_name r else filename r)"

definition own_path :: "worker_env \<Rightarrow> request \<Rightarrow> path" where
  "own_path e r = join_path (we_dir e) (own_name r)"

text \<open>No admitted upload can have that file as its target.\<close>

definition unshared :: "(string \<Rightarrow> bool) \<Rightarrow> request \<Rightarrow> bool" where
  "unshared allowed r \<longleftrightarrow> \<not> allowed (own_name r) \<and> (op r \<noteq> PUT \<longrightarrow> \<not> reserved (filename r))"

definition agree :: "path \<Rightarrow> int \<Rightarrow> world \<Rightarrow> world \<Rightarrow> bool" where
  "agree p fd w w' \<longleftrightarrow> files w' p = files w p \<and> socks w' fd = socks w fd"

lemma agree_refl [simp]: "agree p fd w w"
  by (simp add: agree_def)

lemma agree_trans: "agree p fd w w1 \<Longrightarrow> agree p fd w1 w2 \<Longrightarrow> agree p fd w w2"
  by (simp add: agree_def)

lemma own_path_same: "same_request r r' \<Longrightarrow> own_path e r' = own_path e r \<and> unshared allowed r' = unshared allowed r"
  by (simp add: same_request_def own_path_def own_name_def unshared_def staging_name_def)

lemma own_path_untouched:
  assumes "unshared allowed r" "request_id r' \<noteq> request_id r" "op r' = PUT \<longrightarrow> allowed (filename r')"
  shows "own_path e r \<notin> touched e r'"
  using assms staging_name_id [of r' r] staging_reserved [of r']
  by (auto simp: own_path_def own_name_def unshared_def touched_def final_path_def join_path_def split: if_splits)

lemma image_mset_unique:
  assumes "count (image_mset f (M + {#y#})) (f x) \<le> 1" "x \<in># M"
  shows "f y \<noteq> f x"
proof
  assume "f y = f x"
  moreover have "0 < count (image_mset f M) (f x)" unfolding count_greater_zero_iff using assms(2) by simp
  ultimately show False using assms(1) by (simp del: count_greater_zero_iff)
qed

text \<open>What is held besides the request of worker \<open>i\<close>.\<close>

definition held_besides :: "nat \<Rightarrow> server_state \<Rightarrow> request multiset" where
  "held_besides i s = mset (q_items (sv_queue s)) +
     mset (concat (map worker_holds ((sv_workers s)[i := W_waiting])))"

lemma held_besides_split:
  assumes "i < length (sv_workers s)"
  shows "held_requests s = held_besides i s + mset (worker_holds (sv_workers s ! i))"
  using busy_update [OF assms, of W_waiting] by (simp add: held_requests_def held_besides_def ac_simps)

lemma besides_distinct:
  assumes "iso_inv allowed s" "i < length (sv_workers s)" "worker_holds (sv_workers s ! i) = [y]" "x \<in># held_besides i s"
  shows "request_id y \<noteq> request_id x" "client_fd y \<noteq> client_fd x"
proof -
  have h: "held_requests s = held_besides i s + {#y#}" using held_besides_split [OF assms(2)] assms(3) by simp
  have "count (live_ids s) (request_id x) \<le> 1" "count (held_connections s) (client_fd x) \<le> 1"
    using assms(1) by (simp_all add: iso_inv_def)
  then have "count (image_mset request_id (held_requests s)) (request_id x) \<le> 1"
    "count (image_mset client_fd (held_requests s)) (client_fd x) \<le> 1"
    unfolding live_ids_def held_connections_def count_union by linarith+
  then show "request_id y \<noteq> request_id x" "client_fd y \<noteq> client_fd x"
    using assms(4) unfolding h by (simp_all only: image_mset_unique not_False_eq_True)
qed

lemma close_socket_other: "fd' \<noteq> fd \<Longrightarrow> socks (close_socket fd w) fd' = socks w fd'"
  by (simp add: close_socket_def sys_close_def)

lemma worker_step_agrees:
  assumes "iso_inv allowed s" "i < length (sv_workers s)"
    and "worker_step e (sv_workers s ! i) s = Some (ph, s', evs)" "x \<in># held_besides i s" "unshared allowed x"
  shows "agree (own_path e x) (client_fd x) (sv_world s) (sv_world s')"
proof (cases "sv_workers s ! i")
  case (W_serving d)
  obtain r b where d: "d = (r, b)" by fastforce
  obtain out w1 where p: "worker_process e (r, b) (sv_world s) = (out, w1)" by fastforce
  have w1: "sv_world s' = w1" using assms(3) W_serving d p by (auto simp: worker_step_def)
  have "r \<in># held_requests s" using held_besides_split [OF assms(2)] W_serving d by simp
  then have wf: "request_wf r" "op r = PUT \<longrightarrow> allowed (filename r)"
    using assms(1) W_serving d nth_mem [OF assms(2)] by (auto simp: iso_inv_def requests_wf_def)
  have ne: "request_id r \<noteq> request_id x" "client_fd r \<noteq> client_fd x"
    using besides_distinct [OF assms(1,2) _ assms(4)] W_serving d by simp_all
  from worker_process_files [OF wf(1) p own_path_untouched [OF assms(5) ne(1) wf(2)]]
    worker_process_socks [OF wf(1) p ne(2) [symmetric]] show ?thesis by (simp add: agree_def w1)
next
  case (W_returning out)
  have "client_fd (outcome_request out) \<noteq> client_fd x"
    using besides_distinct(2) [OF assms(1,2) _ assms(4)] W_returning by simp
  then show ?thesis
    using assms(3) W_returning
    by (cases out) (auto simp: worker_step_def worker_finish_def agree_def close_socket_other)
qed (use assms(3) in \<open>auto simp: worker_step_def agree_def split: pop_result.splits\<close>)

lemma parse_connection_socks:
  "parse_connection dir fd w = (v, w') \<Longrightarrow> fd' \<noteq> fd \<Longrightarrow> socks w' fd' = socks w fd'"
  using read_header_loop_frame by (fastforce simp: parse_connection_def read_header_line_def split: prod.splits)

lemma parser_step_agrees:
  assumes "iso_inv allowed s" "i < length (sv_parsers s)"
    and "parser_step e (sv_parsers s ! i) s = Some (ph, s', evs)" "x \<in># held_requests s"
  shows "agree p (client_fd x) (sv_world s) (sv_world s')"
proof -
  have "client_fd x \<notin> set (parser_holds (sv_parsers s ! i))"
  proof
    assume "client_fd x \<in> set (parser_holds (sv_parsers s ! i))"
    then have "client_fd x \<in># mset (concat (map parser_holds (sv_parsers s)))" using nth_mem [OF assms(2)] by auto
    moreover have "client_fd x \<in># image_mset client_fd (held_requests s)" using assms(4) by simp
    moreover have "count (held_connections s) (client_fd x) \<le> 1" using assms(1) by (simp add: iso_inv_def)
    ultimately show False
      unfolding held_connections_def count_union count_greater_zero_iff [symmetric] by linarith
  qed
  moreover have "files (sv_world s') = files (sv_world s)"
    using parser_step_wf(5) [OF assms(3)] assms(1) nth_mem [OF assms(2)]
    by (auto simp: iso_inv_def requests_wf_def list_all_iff)
  ultimately show ?thesis
    using assms(3)
    by (auto simp: parser_step_def agree_def refuse_def answer_health_def admit_request_def close_socket_other
        dest: parse_connection_socks split: parser_phase.splits parser_verdict.splits pop_result.splits prod.splits if_splits bool.splits)
qed

lemma acceptor_agrees:
  assumes "acceptor_select ev s = (s', evs)" "orderly allowed s evs s'" "x \<in># held_requests s"
  shows "agree p (client_fd x) (sv_world s) (sv_world s')"
proof -
  have "client_fd x \<in># held_connections s" using assms(3) by (auto simp: held_connections_def)
  then show ?thesis
    using assms(1,2)
    by (auto simp: acceptor_select_def acceptor_retry_def acceptor_exit_def Let_def agree_def orderly_def
        close_socket_def sys_close_def set_sock_def split: accept_event.splits if_splits prod.splits bool.splits)
qed

lemma main_step_agrees:
  assumes "iso_inv allowed s" "main_step d out s = Some s'" "x \<in># held_requests s"
  shows "sv_world s' = sv_world s"
proof (cases "sv_main s = Await_workers")
  case True
  with assms(2) have over: "list_all (\<lambda>ph. ph = W_done) (sv_workers s)" by (simp add: main_step_def split: if_splits)
  with assms(1) have "W_done \<in> set (sv_workers s)" by (cases "sv_workers s") (auto simp: iso_inv_def)
  then have "q_items (sv_queue s) = []" using assms(1) by (simp add: iso_inv_def server_inv_def work_inv_def)
  moreover have "busy_workers s = []" using over by (auto simp: busy_workers_def list_all_iff)
  ultimately show ?thesis using assms(3) by (simp add: held_requests_def)
qed (use assms(2) in \<open>auto simp: main_step_def split: main_phase.splits if_splits\<close>)

end
