(* ===== verification/Observations.thy ===== *)
theory Observations
  imports Isolation
begin

text \<open>
  Behaviours of the code that its comments and its protocol do not announce. They
  are consequences of how the parts are put together: a download opens its file
  anew in every round, and the staging file of an upload lies in the served
  directory under a name that a client may ask for, and may upload to.
\<close>

section \<open>A file that shrinks under a download\<close>

lemma read_past_end: "open_read d p w = Some c \<Longrightarrow> length c \<le> unat lo \<Longrightarrow> read_file_line d p lo w = None"
  by (simp add: read_file_line_def Let_def)

text \<open>What a round robin download past the end of its file looks like.\<close>

definition stalled :: "worker_env \<Rightarrow> request \<Rightarrow> world \<Rightarrow> bool" where
  "stalled e r w \<longleftrightarrow> policy (we_sched e) = RR \<and> op r = GET \<and> is_valid_filename (filename r) \<and> response_sent r \<and>
     0 < we_packetization e \<and> 0 < quantum (we_sched e) \<and> unat (quantum (we_sched e)) < left r \<and>
     (\<exists>c. open_read (we_disk e) (join_path (we_dir e) (filename r)) w = Some c \<and> length c \<le> unat (offset r))"

lemma stalled_round:
  assumes "stalled e r w"
  obtains r' where "get_budget (we_sched e) r = (quantum (we_sched e), r)"
    "worker_process e (r, quantum (we_sched e)) w = (Requeued r', w)" "stalled e r' w" "offset r' = offset r"
proof -
  let ?q = "quantum (we_sched e)" and ?p = "join_path (we_dir e) (filename r)" and ?r0 = "stamp_start w r"
  obtain c where st: "policy (we_sched e) = RR" "op r = GET" "is_valid_filename (filename r)" "response_sent r"
    "0 < we_packetization e" "0 < ?q" "unat ?q < left r" and c: "open_read (we_disk e) ?p w = Some c"
    "length c \<le> unat (offset r)"
    using assms by (auto simp: stalled_def)
  have rem: "?q < total_bytes r - offset r" "offset r < total_bytes r" "?q < remaining_bytes r"
    using st(7) unat_remaining [of r]
    by (auto simp: word_less_nat_alt left_def unat_diff_u64 word_le_nat_alt)
  have budget: "get_budget (we_sched e) r = (?q, r)"
    using rem(3) st(1) by (auto simp: get_budget_def Let_def min_def)
  have "choose_round (we_disk e) ?p ?q True (?r0\<lparr>response_sent := True\<rparr>) w = (0, False)"
    using rem(1) read_past_end [OF c] st(6)
    by (auto simp: choose_round_def Let_def select_lines.simps [of _ _ _ _ _ _ 0])
  moreover have "file_exists ?p w" using c(1) by (auto simp: file_exists_def open_read_def split: option.splits)
  ultimately have sg: "serve_get (we_disk e) (we_dir e) ?q True (we_packetization e) ?r0 w =
      (True, 0, ?r0\<lparr>response_sent := True\<rparr>, w)"
    using st rem(2) by (simp add: serve_get_def Let_def send_round_def not_le)
  have same: "?r0\<lparr>response_sent := True\<rparr> = ?r0" using st(4) by (intro request.equality) simp_all
  note sg = sg [unfolded same]
  define r' where "r' = settle_round e ?q 0 ?r0"
  have off: "offset r' = offset r" "left r' = left r"
    by (simp_all add: r'_def word_unat_eq_iff)
  have "0 < left r'" using st(7) off(2) by simp
  then have "worker_process e (r, ?q) w = (Requeued r', w)"
    using sg st(1,2) by (simp add: worker_process_def serve_round_def r'_def should_requeue_left)
  moreover have "stalled e r' w" using st c off by (auto simp: stalled_def r'_def)
  ultimately show ?thesis using budget off(1) that by blast
qed

text \<open>
  A round robin download of which another client shortened the file is given a
  round again and again: it transfers nothing, is never finished and never
  fails, so that its connection stays open for as long as the server runs.
\<close>

theorem shrunk_download_never_ends:
  "stalled e r w \<Longrightarrow> \<exists>r'. transfer e (replicate n id) r w = (Requeued r', w) \<and> offset r' = offset r"
proof (induction n arbitrary: r)
  case (Suc n)
  obtain r1 where r1: "get_budget (we_sched e) r = (quantum (we_sched e), r)"
    "worker_process e (r, quantum (we_sched e)) w = (Requeued r1, w)" "stalled e r1 w" "offset r1 = offset r"
    using Suc.prems by (rule stalled_round)
  with Suc.IH [OF r1(3)] show ?case by auto
qed simp

section \<open>A file that is replaced under a download\<close>

text \<open>
  The file is opened anew in every round, so a download in several rounds can be
  made of lines of two versions of the file, although each version was put in
  place by one \<^verbatim>\<open>rename\<close>.
\<close>

definition replaced :: "world \<Rightarrow> world" where
  "replaced w = w\<lparr>files := (files w)(''d/f'' \<mapsto> ''wxyz'')\<rparr>"

theorem torn_download:
  "\<exists>r' w'. transfer (demo_env RR 3) [id, replaced] demo_get (demo_world [''d/f'' \<mapsto> two_lines] []) = (Finished r', w') \<and>
     wire w' 4 = ok_line 4 @ ''ab'' @ newline # ''z''"
proof -
  let ?e = "demo_env RR 3" and ?w = "demo_world [''d/f'' \<mapsto> two_lines] []"
  have st: "get_state ?e two_lines demo_get ?w"
    using demo_get_ready by (simp add: get_state_def demo_env_def demo_get_def new_request_def)
  have g: "get_budget (we_sched ?e) demo_get = (3, demo_get)" by code_simp
  have B: "get_round 3 True two_lines = ''ab'' @ [newline]"
    by (simp add: get_round_def round_lines_def oversized_def two_lines_def lines_of.simps first_line_def newline_def)
  obtain r2 w2 where p: "worker_process ?e (demo_get, 3) ?w = (Requeued r2, w2)"
    and w2: "wire w2 4 = ok_line 4 @ ''ab'' @ [newline]" "reliable w2 4"
    and r2: "filename r2 = ''f''" "total_bytes r2 = 4" "client_fd r2 = 4" "op r2 = GET" "response_sent r2"
      "unat (offset r2) = 3" "left r2 = 1"
    by (rule get_process [OF st g])
       (simp_all add: demo_env_def demo_get_def new_request_def B left_def get_header_def wire_def)
  have st2: "get_state ?e ''wxyz'' r2 (replaced w2)"
    using r2 w2(2) by (simp add: get_state_def get_ready_def demo_env_def replaced_def is_valid_filename_def
        open_read_def join_path_def healthy_disk_def reliable_def)
  have "unat (remaining_bytes r2) = 1" using r2(7) unat_remaining by simp
  then have rm: "remaining_bytes r2 = 1" by (simp add: word_unat_eq_iff)
  then have g2: "get_budget (we_sched ?e) r2 = (1, r2)" by (simp add: get_budget_def demo_env_def)
  obtain r3 w3 where p2: "worker_process ?e (r2, 1) (replaced w2) = (Finished (stamp_finish w3 r3), w3)"
    and w3: "wire w3 4 = wire (replaced w2) 4 @ ''z''"
    by (rule get_process [OF st2 g2])
       (simp_all add: r2 get_round_def get_header_def)
  show ?thesis using g p g2 p2 w2(1) w3 by (simp add: replaced_def wire_def)
qed

section \<open>A staging file can be downloaded\<close>

text \<open>
  The staging file of an upload is a file of the served directory with a valid
  name: a GET of that name is admitted while the upload is under way, and is
  served the part of the upload that is stored.
\<close>

theorem staging_file_is_served:
  assumes "is_valid_filename (filename r)" and "staging_filename (staged r) = staging_name r"
    and "files w (staging_path e r) = Some c"
    and "read_header_line fd 1000 w = (header, leftover, w1)" and "header \<noteq> []"
    and "parse_request_header header fd = Inr get" and "op get = GET" and "filename get = staging_name r"
  shows "\<exists>r'. parse_connection (we_dir e) fd w = (Admitted r', w1) \<and> filename r' = staging_name r \<and>
    total_bytes r' = of_nat (length c)"
proof -
  have "files w1 = files w" using read_header_loop_frame [OF assms(4) [unfolded read_header_line_def]] by simp
  with assms staging_name_valid [OF assms(1)] show ?thesis
    by (auto simp: parse_connection_def Let_def file_exists_def get_file_size_def staging_path_def)
qed

section \<open>An upload to the name of a staging file\<close>

text \<open>
  The name of a staging file is also a valid name for an upload. When an upload
  \<open>x\<close> to that name is committed between two rounds of an upload \<open>r\<close>, its
  bytes \<open>c\<close> take the place of what \<open>r\<close> has stored; \<open>r\<close> goes on and
  finishes, its client receives both status lines, and the final file holds bytes
  that this client never sent.
\<close>

theorem foreign_upload_clobbers:
  assumes "put_state e s r w" and "offset r \<noteq> 0" and "op x = PUT" and "filename x = staging_name r"
    and "client_fd x \<noteq> client_fd r" and "commit_request e x w = (Finished x', w1)"
    and "files w (join_path (we_dir e) (staging_filename x)) = Some c" and "length c = length s"
    and "list_all (calm (staging_path e r) (client_fd r)) others" and "others \<noteq> []"
    and "left r \<le> length others * put_pace e"
  shows "is_valid_filename (filename x) \<and> (\<exists>r' w'. transfer e others r w1 = (Finished r', w') \<and>
    files w' (final_path e r) = Some (c @ take (left r) (upload_stream r w)))"
proof -
  have st: "staging_filename (staged r) = staging_name r" "staging_filename r = staging_name r"
    "is_valid_filename (filename r)"
    using assms(1,2) by (simp_all add: put_state_def put_ready_def staged_def)
  have socks: "socks w1 (client_fd r) = socks w (client_fd r)"
    using commit_request_socks [OF assms(6)] assms(5) by simp
  have "files w (join_path (we_dir e) (staging_filename x)) = files w1 (final_path e x)"
    using commit_request_files [OF assms(6,3)] by blast
  with assms(7) have "files w1 (final_path e x) = Some c" by metis
  then have "files w1 (join_path (we_dir e) (staging_filename r)) = Some c"
    using assms(4) st(2) by (simp add: final_path_def)
  then have "put_state e c r w1"
    using assms(1,8) socks by (auto simp: put_state_def put_ready_def prompt_def reliable_def upload_stream_def)
  from put_transfer [OF this assms(9-11)] staging_name_valid [OF st(3)] assms(4) socks show ?thesis
    by (auto simp: upload_stream_def)
qed

end
