(* ===== verification/Wakeups.thy ===== *)
theory Wakeups
  imports Scheduling
begin

text \<open>
  The condition variables of \<^verbatim>\<open>queue.cpp\<close>. \<open>Request_Queue\<close> treats a pop
  whose predicate does not hold as \<open>Blocked\<close> and lets it be tried again at
  any time; here a blocked thread really sleeps until it is notified, and each
  operation notifies whom the source notifies, under the mutex or after it.
  Spurious wake-ups are allowed.
  The locale \<open>sleeping_pool\<close> says when a queue used in this way cannot lose a
  wake-up; it is interpreted for the request queue with its two kinds of pop and
  for the connection queue.
\<close>

section \<open>Threads at a condition variable\<close>

text \<open>
  A thread that is not in a pop is \<open>Outside\<close>. \<open>Notified\<close> threads have
  been woken and will evaluate the predicate again once they hold the mutex.
\<close>

datatype waiter = Outside | Asleep | Notified

text \<open>\<^verbatim>\<open>notify_one\<close> wakes some sleeping thread, if there is one.\<close>

definition notify_one :: "waiter list \<Rightarrow> waiter list \<Rightarrow> bool" where
  "notify_one ts ts' \<longleftrightarrow>
     (if Asleep \<in> set ts then \<exists>i < length ts. ts ! i = Asleep \<and> ts' = ts[i := Notified] else ts' = ts)"

definition notify_all :: "waiter list \<Rightarrow> waiter list" where
  "notify_all ts = map (\<lambda>t. if t = Asleep then Notified else t) ts"

text \<open>What a thread is after it has evaluated the predicate of a pop under the mutex.\<close>

fun after_pop :: "('r, 'q) pop_result \<Rightarrow> 'q \<Rightarrow> 'q \<times> waiter" where
  "after_pop Blocked q = (q, Asleep)"
| "after_pop Drained q = (q, Outside)"
| "after_pop (Popped r q') q = (q', Outside)"

text \<open>
  The state of a monitor: the queue, the threads that use it, and the
  notifications that an operation still has to send. \<^verbatim>\<open>push\<close> and \<^verbatim>\<open>close\<close>
  release the mutex before they notify, so that other threads can come in
  between; \<^verbatim>\<open>complete\<close> notifies while it holds the mutex.
\<close>

record 'q monitor =
  mo_queue :: 'q
  mo_threads :: "waiter list"
  mo_one :: nat
  mo_all :: nat

definition fresh_monitor :: "'q \<Rightarrow> nat \<Rightarrow> 'q monitor" where
  "fresh_monitor q n = \<lparr>mo_queue = q, mo_threads = replicate n Outside, mo_one = 0, mo_all = 0\<rparr>"

text \<open>
  \<open>one\<close> are the operations that end with a \<^verbatim>\<open>notify_one\<close> after the unlock,
  \<open>held\<close> those with a \<^verbatim>\<open>notify_all\<close> under the mutex, and \<open>later\<close> those
  with a \<^verbatim>\<open>notify_all\<close> after the unlock.
\<close>

inductive monitor_step ::
  "('q \<Rightarrow> ('r, 'q) pop_result) \<Rightarrow> ('q \<Rightarrow> 'q \<Rightarrow> bool) \<Rightarrow> ('q \<Rightarrow> 'q \<Rightarrow> bool) \<Rightarrow> ('q \<Rightarrow> 'q \<Rightarrow> bool) \<Rightarrow>
   'q monitor \<Rightarrow> 'q monitor \<Rightarrow> bool" for pop one held later where
  step_pop: "i < length (mo_threads m) \<Longrightarrow> mo_threads m ! i \<noteq> Asleep \<Longrightarrow>
    after_pop (pop (mo_queue m)) (mo_queue m) = (q', t) \<Longrightarrow>
    monitor_step pop one held later m (m\<lparr>mo_queue := q', mo_threads := (mo_threads m)[i := t]\<rparr>)"
| step_one: "one (mo_queue m) q' \<Longrightarrow>
    monitor_step pop one held later m (m\<lparr>mo_queue := q', mo_one := mo_one m + 1\<rparr>)"
| step_notify_one: "0 < mo_one m \<Longrightarrow> notify_one (mo_threads m) ts' \<Longrightarrow>
    monitor_step pop one held later m (m\<lparr>mo_one := mo_one m - 1, mo_threads := ts'\<rparr>)"
| step_held: "held (mo_queue m) q' \<Longrightarrow>
    monitor_step pop one held later m (m\<lparr>mo_queue := q', mo_threads := notify_all (mo_threads m)\<rparr>)"
| step_later: "later (mo_queue m) q' \<Longrightarrow>
    monitor_step pop one held later m (m\<lparr>mo_queue := q', mo_all := mo_all m + 1\<rparr>)"
| step_notify_all: "0 < mo_all m \<Longrightarrow>
    monitor_step pop one held later m (m\<lparr>mo_all := mo_all m - 1, mo_threads := notify_all (mo_threads m)\<rparr>)"
| step_spurious: "i < length (mo_threads m) \<Longrightarrow> mo_threads m ! i = Asleep \<Longrightarrow>
    monitor_step pop one held later m (m\<lparr>mo_threads := (mo_threads m)[i := Notified]\<rparr>)"

inductive monitor_run ::
  "('q \<Rightarrow> ('r, 'q) pop_result) \<Rightarrow> ('q \<Rightarrow> 'q \<Rightarrow> bool) \<Rightarrow> ('q \<Rightarrow> 'q \<Rightarrow> bool) \<Rightarrow> ('q \<Rightarrow> 'q \<Rightarrow> bool) \<Rightarrow>
   'q monitor \<Rightarrow> 'q monitor \<Rightarrow> bool" for pop one held later m0 where
  monitor_start: "monitor_run pop one held later m0 m0"
| monitor_next: "monitor_run pop one held later m0 m \<Longrightarrow> monitor_step pop one held later m m' \<Longrightarrow>
    monitor_run pop one held later m0 m'"

text \<open>The operations of the two queues, by the notification with which they end.\<close>

definition queue_pushes :: "request_queue \<Rightarrow> request_queue \<Rightarrow> bool" where
  "queue_pushes q q' \<longleftrightarrow> (\<exists>r. push r q = (True, q') \<or> q' = requeue r q)"

definition queue_completes :: "request_queue \<Rightarrow> request_queue \<Rightarrow> bool" where
  "queue_completes q q' \<longleftrightarrow> q' = complete q"

definition queue_closes :: "request_queue \<Rightarrow> request_queue \<Rightarrow> bool" where
  "queue_closes q q' \<longleftrightarrow> q' = close_queue q"

definition fd_pushes :: "fd_queue \<Rightarrow> fd_queue \<Rightarrow> bool" where
  "fd_pushes q q' \<longleftrightarrow> (\<exists>fd. fd_push fd q = (True, q'))"

definition fd_closes :: "fd_queue \<Rightarrow> fd_queue \<Rightarrow> bool" where
  "fd_closes q q' \<longleftrightarrow> q' = fd_close q"

text \<open>The connection queue notifies nobody under its mutex.\<close>

definition fd_completes :: "fd_queue \<Rightarrow> fd_queue \<Rightarrow> bool" where
  "fd_completes q q' \<longleftrightarrow> False"

section \<open>When no wake-up is lost\<close>

definition notified :: "waiter list \<Rightarrow> nat" where
  "notified ts = length (filter (\<lambda>t. t = Notified) ts)"

lemma notified_update:
  "i < length ts \<Longrightarrow> notified (ts[i := t]) + (if ts ! i = Notified then 1 else 0) =
     notified ts + (if t = Notified then 1 else 0)"
  unfolding notified_def
proof (induction ts arbitrary: i)
  case (Cons x ts)
  show ?case
  proof (cases i)
    case (Suc j)
    with Cons.IH [of j] Cons.prems show ?thesis by (simp split: if_splits)
  qed simp
qed simp

lemma notified_pos: "0 < notified ts \<longleftrightarrow> Notified \<in> set ts"
  by (auto simp: notified_def filter_empty_conv)

lemma asleep_update: "Asleep \<in> set (ts[i := t]) \<Longrightarrow> t \<noteq> Asleep \<Longrightarrow> Asleep \<in> set ts"
  using set_update_subset_insert [of ts i t] by auto

lemma notify_all_awake [simp]: "Asleep \<notin> set (notify_all ts)"
  by (auto simp: notify_all_def)

locale sleeping_pool =
  fixes pop :: "'q \<Rightarrow> ('r, 'q) pop_result"
    and one :: "'q \<Rightarrow> 'q \<Rightarrow> bool"
    and held :: "'q \<Rightarrow> 'q \<Rightarrow> bool"
    and later :: "'q \<Rightarrow> 'q \<Rightarrow> bool"
    and waiting :: "'q \<Rightarrow> nat"
    and sealed :: "'q \<Rightarrow> bool"
  assumes pop_blocks: "pop q = Blocked \<Longrightarrow> waiting q = 0 \<and> \<not> sealed q"
    and pop_drains: "pop q = Drained \<Longrightarrow> sealed q"
    and pop_takes: "pop q = Popped r q' \<Longrightarrow> waiting q = Suc (waiting q') \<and> (sealed q' \<longrightarrow> sealed q)"
    and one_adds: "one q q' \<Longrightarrow> waiting q' \<le> Suc (waiting q) \<and> (sealed q' \<longrightarrow> sealed q)"
begin

text \<open>
  While somebody sleeps and no \<^verbatim>\<open>notify_all\<close> is outstanding, every waiting
  element has a notified thread or an outstanding notification of its own, and
  the queue is not sealed.
\<close>

definition wake_inv :: "'q monitor \<Rightarrow> bool" where
  "wake_inv m \<longleftrightarrow> (Asleep \<in> set (mo_threads m) \<and> mo_all m = 0 \<longrightarrow>
     waiting (mo_queue m) \<le> notified (mo_threads m) + mo_one m \<and> \<not> sealed (mo_queue m))"

lemma wake_inv_pop:
  assumes "wake_inv m" "i < length (mo_threads m)" "mo_threads m ! i \<noteq> Asleep"
    and "after_pop (pop (mo_queue m)) (mo_queue m) = (q', t)"
  shows "wake_inv (m\<lparr>mo_queue := q', mo_threads := (mo_threads m)[i := t]\<rparr>)"
proof (cases "pop (mo_queue m)")
  case Blocked
  then show ?thesis using assms(4) pop_blocks by (auto simp: wake_inv_def)
next
  case Drained
  then show ?thesis using assms pop_drains by (auto simp: wake_inv_def dest!: asleep_update)
next
  case (Popped r q1)
  then show ?thesis
    using assms pop_takes [OF Popped] notified_update [OF assms(2), of Outside]
    by (auto simp: wake_inv_def dest!: asleep_update split: if_splits)
qed

lemma wake_inv_notify_one:
  assumes "wake_inv m" "0 < mo_one m" "notify_one (mo_threads m) ts'"
  shows "wake_inv (m\<lparr>mo_one := mo_one m - 1, mo_threads := ts'\<rparr>)"
proof (cases "Asleep \<in> set (mo_threads m)")
  case True
  then obtain i where i: "i < length (mo_threads m)" "mo_threads m ! i = Asleep" "ts' = (mo_threads m)[i := Notified]"
    using assms(3) by (auto simp: notify_one_def)
  then show ?thesis
    using assms(1,2) True notified_update [OF i(1), of Notified] by (auto simp: wake_inv_def)
next
  case False
  then show ?thesis using assms(3) by (simp add: notify_one_def wake_inv_def)
qed

lemma wake_inv_step:
  assumes "monitor_step pop one held later m m'" "wake_inv m"
  shows "wake_inv m'"
  using assms(1)
proof (cases rule: monitor_step.cases)
  case (step_one q')
  then show ?thesis using assms(2) one_adds [OF step_one(2)] by (auto simp: wake_inv_def)
next
  case (step_notify_one ts')
  then show ?thesis using wake_inv_notify_one [OF assms(2)] by simp
next
  case (step_spurious i)
  then show ?thesis
    using assms(2) notified_update [OF step_spurious(2), of Notified]
    by (auto simp: wake_inv_def dest!: asleep_update)
qed (use assms(2) in \<open>auto intro: wake_inv_pop simp: wake_inv_def [of "_\<lparr>mo_all := _\<rparr>"]
    wake_inv_def [of "_\<lparr>mo_threads := notify_all _\<rparr>"]\<close>)

lemma wake_inv_run:
  assumes "monitor_run pop one held later (fresh_monitor q0 n) m"
  shows "wake_inv m"
  using assms
proof (induction rule: monitor_run.induct)
  case monitor_start
  then show ?case by (auto simp: wake_inv_def fresh_monitor_def)
qed (rule wake_inv_step)

text \<open>So nobody sleeps through an element or through the end of the queue.\<close>

lemma no_lost_wakeup:
  assumes "monitor_run pop one held later (fresh_monitor q0 n) m" "Asleep \<in> set (mo_threads m)" "mo_all m = 0"
  shows "waiting (mo_queue m) \<le> notified (mo_threads m) + mo_one m \<and> \<not> sealed (mo_queue m)"
  using wake_inv_run [OF assms(1)] assms(2,3) by (simp add: wake_inv_def)

end

section \<open>The two queues\<close>

interpretation fifo_wakeups: sleeping_pool wait_pop queue_pushes queue_completes queue_closes
    "\<lambda>q. length (q_items q)" "\<lambda>q. q_items q = [] \<and> q_closed q \<and> q_inflight q = 0"
  by unfold_locales
     (auto simp: wait_pop_def pop_ready_def queue_pushes_def push_def requeue_def split: if_splits list.splits)

interpretation best_wakeups: sleeping_pool "wait_pop_best compare" queue_pushes queue_completes queue_closes
    "\<lambda>q. length (q_items q)" "\<lambda>q. q_items q = [] \<and> q_closed q \<and> q_inflight q = 0" for compare
proof unfold_locales
  fix q r q'
  assume "wait_pop_best compare q = Popped r q'"
  then show "length (q_items q) = Suc (length (q_items q')) \<and>
      (q_items q' = [] \<and> q_closed q' \<and> q_inflight q' = 0 \<longrightarrow> q_items q = [] \<and> q_closed q \<and> q_inflight q = 0)"
    using best_loop_range [of 0 "q_items q" compare 1]
    by (auto simp: wait_pop_best_def Let_def split: if_splits)
qed (auto simp: wait_pop_best_def pop_ready_def Let_def queue_pushes_def push_def requeue_def split: if_splits)

interpretation fd_wakeups: sleeping_pool fd_wait_pop fd_pushes fd_completes fd_closes
    "\<lambda>q. length (fd_items q)" fd_closed
  by unfold_locales (auto simp: fd_wait_pop_def fd_pushes_def fd_push_def split: if_splits list.splits)

section \<open>Properties\<close>

lemma policy_wakeups:
  assumes "monitor_run (policy_pop p) queue_pushes queue_completes queue_closes (fresh_monitor q0 n) m"
    "Asleep \<in> set (mo_threads m)" "mo_all m = 0"
  shows "length (q_items (mo_queue m)) \<le> notified (mo_threads m) + mo_one m"
    "pop_ready (mo_queue m) \<Longrightarrow> Notified \<in> set (mo_threads m) \<or> 0 < mo_one m"
proof -
  have w: "length (q_items (mo_queue m)) \<le> notified (mo_threads m) + mo_one m \<and>
      \<not> (q_items (mo_queue m) = [] \<and> q_closed (mo_queue m) \<and> q_inflight (mo_queue m) = 0)"
    using assms fifo_wakeups.no_lost_wakeup best_wakeups.no_lost_wakeup
    by (cases p) (force simp: policy_pop_def)+
  then show "length (q_items (mo_queue m)) \<le> notified (mo_threads m) + mo_one m" by simp
  assume "pop_ready (mo_queue m)"
  with w have "0 < length (q_items (mo_queue m))" by (auto simp: pop_ready_def)
  with w show "Notified \<in> set (mo_threads m) \<or> 0 < mo_one m"
    unfolding notified_pos [symmetric] by linarith
qed

text \<open>
  C16. No wake-up is lost. However the threads interleave, although \<^verbatim>\<open>push\<close>,
  \<^verbatim>\<open>requeue\<close> and \<^verbatim>\<open>close\<close> notify after they have released the mutex, and
  with spurious wake-ups: while a worker sleeps on the request queue and no
  \<^verbatim>\<open>notify_all\<close> is on its way, every waiting request has a notified worker, or
  a notification on its way, of its own, and the queue is not closed and
  drained; while a parser sleeps on the connection queue, the same holds for the
  waiting connections. So whenever a sleeper's condition holds, a thread has been
  woken for it or is about to be, under every policy.
\<close>

theorem no_sleeper_is_forgotten:
  "(monitor_run (policy_pop p) queue_pushes queue_completes queue_closes (fresh_monitor empty_queue n) m \<and>
      Asleep \<in> set (mo_threads m) \<and> mo_all m = 0 \<longrightarrow>
      length (q_items (mo_queue m)) \<le> notified (mo_threads m) + mo_one m \<and>
      (pop_ready (mo_queue m) \<longrightarrow> Notified \<in> set (mo_threads m) \<or> 0 < mo_one m)) \<and>
   (monitor_run fd_wait_pop fd_pushes fd_completes fd_closes (fresh_monitor \<lparr>fd_items = [], fd_closed = False\<rparr> k) f \<and>
      Asleep \<in> set (mo_threads f) \<and> mo_all f = 0 \<longrightarrow>
      length (fd_items (mo_queue f)) \<le> notified (mo_threads f) + mo_one f \<and> \<not> fd_closed (mo_queue f))"
  using policy_wakeups [of p empty_queue n m]
    fd_wakeups.no_lost_wakeup [of "\<lparr>fd_items = [], fd_closed = False\<rparr>" k f] by auto

text \<open>Two workers fall asleep, a request arrives, and one of them is woken.\<close>

definition demo_monitor :: "request_queue monitor" where
  "demo_monitor = \<lparr>mo_queue = empty_queue\<lparr>q_items := [new_request]\<rparr>, mo_threads = [Notified, Asleep], mo_one = 0, mo_all = 0\<rparr>"

lemma demo_sleepers:
  "monitor_run (policy_pop RR) queue_pushes queue_completes queue_closes (fresh_monitor empty_queue 2) demo_monitor"
proof -
  let ?run = "monitor_run (policy_pop RR) queue_pushes queue_completes queue_closes (fresh_monitor empty_queue 2)"
  let ?m = "\<lambda>q ts k. \<lparr>mo_queue = q, mo_threads = ts, mo_one = k, mo_all = 0\<rparr>"
  have blocked: "after_pop (policy_pop RR empty_queue) empty_queue = (empty_queue, Asleep)"
    by (simp add: policy_pop_def wait_pop_def pop_ready_def empty_queue_def)
  have "?run (?m empty_queue [Outside, Outside] 0)"
    using monitor_start [of _ _ _ _ "fresh_monitor empty_queue 2"] by (simp add: fresh_monitor_def numeral_2_eq_2)
  from monitor_next [OF this step_pop [of 0]] blocked have "?run (?m empty_queue [Asleep, Outside] 0)" by fastforce
  from monitor_next [OF this step_pop [of 1]] blocked have "?run (?m empty_queue [Asleep, Asleep] 0)" by fastforce
  moreover have "queue_pushes empty_queue (empty_queue\<lparr>q_items := [new_request]\<rparr>)"
    by (auto simp: queue_pushes_def push_def empty_queue_def)
  ultimately have "?run (?m (empty_queue\<lparr>q_items := [new_request]\<rparr>) [Asleep, Asleep] 1)"
    using monitor_next [OF _ step_one] by fastforce
  moreover have "notify_one [Asleep, Asleep] [Notified, Asleep]" by (force simp: notify_one_def)
  ultimately show ?thesis
    using monitor_next [OF _ step_notify_one] unfolding demo_monitor_def by fastforce
qed

theorem no_sleeper_is_forgotten_witness:
  "monitor_run (policy_pop RR) queue_pushes queue_completes queue_closes (fresh_monitor empty_queue 2) demo_monitor \<and>
   Asleep \<in> set (mo_threads demo_monitor) \<and> length [new_request] \<le> notified (mo_threads demo_monitor)"
  using no_sleeper_is_forgotten [of RR 2 demo_monitor] demo_sleepers by (auto simp: demo_monitor_def)

end
