(* ===== verification/Concurrent_Transfers.thy ===== *)
theory Concurrent_Transfers
  imports Isolation
begin

text \<open>
  From one request to the whole server. \<open>Whole_Transfer\<close> proves what the
  rounds of one request do when the other threads leave its file and its
  connection alone between the rounds; here every run of the server is shown to
  be such a sequence of rounds for each of its requests, whatever its threads
  interleave (\<open>tracked\<close>, a simulation of the request's sequential transfer
  by the running server). The end-to-end theorems on uploads and downloads then
  hold for requests that are served concurrently.
\<close>

section \<open>Sequences of rounds\<close>

lemma transfer_append:
  "transfer e (xs @ ys) r w =
     (case transfer e xs r w of (Requeued r', w') \<Rightarrow> transfer e ys r' w' | res \<Rightarrow> res)"
  by (induction xs arbitrary: r w) (auto split: prod.splits worker_outcome.splits)

lemma transfer_same: "transfer e others r w = (out, w') \<Longrightarrow> same_request r (outcome_request out)"
proof (induction others arbitrary: r w)
  case (Cons i others)
  obtain b r1 where g: "get_budget (we_sched e) r = (b, r1)" by fastforce
  obtain o1 w1 where p: "worker_process e (r1, b) (i w) = (o1, w1)" by fastforce
  have "same_request r r1" using get_budget_keeps [OF g] by (simp add: same_request_def)
  with worker_process_same [OF p] have s: "same_request r (outcome_request o1)" by (simp add: same_request_def)
  show ?case
  proof (cases o1)
    case (Requeued r2)
    with Cons.prems g p have "transfer e others r2 w1 = (out, w')" by simp
    from Cons.IH [OF this] s Requeued show ?thesis by (simp add: same_request_def)
  qed (use Cons.prems g p s in auto)
qed auto

text \<open>A request that cannot fail in enough calm rounds does not fail in fewer.\<close>

lemma transfer_prefix:
  assumes "transfer e (xs @ ys) r w = (Finished r', w')" "transfer e xs r w = (out, w1)"
  shows "(\<exists>r1. out = Requeued r1) \<or> out = Finished r' \<and> w1 = w'"
  using assms by (cases out) (auto simp: transfer_append)

lemma requeued_left:
  "worker_process e (r, b) w = (Requeued r', w') \<Longrightarrow> 0 < left r'"
  by (auto simp: worker_process_def Let_def commit_request_def should_requeue_left
      split: prod.splits bool.splits if_splits)

lemma requeued_rounds:
  assumes "request_wf r" "worker_process e (r, b) w = (Requeued r', w')"
  shows "rounds r' = rounds r + 1"
proof -
  obtain ok n r1 w1 where sr: "serve_round e b (stamp_start w r) w = (ok, n, r1, w1)" by (metis prod_cases4)
  have "rounds r1 = rounds r"
    using sr serve_get_keeps(9) serve_put_request by (cases "op r") (fastforce simp: serve_round_def)+
  moreover have "r' = settle_round e b n r1"
    using assms(2) sr by (auto simp: worker_process_def Let_def commit_request_def split: bool.splits if_splits prod.splits)
  ultimately show ?thesis by simp
qed

lemma transfer_rounds:
  "request_wf r \<Longrightarrow> transfer e others r w = (Requeued r', w') \<Longrightarrow> rounds r' = rounds r + of_nat (length others)"
proof (induction others arbitrary: r w)
  case (Cons i others)
  obtain b r1 where g: "get_budget (we_sched e) r = (b, r1)" by fastforce
  note k = get_budget_keeps [OF g]
  obtain r2 w2 where p: "worker_process e (r1, b) (i w) = (Requeued r2, w2)" and t: "transfer e others r2 w2 = (Requeued r', w')"
    using Cons.prems(2) g by (auto split: prod.splits worker_outcome.splits)
  have wf: "request_wf r1" using Cons.prems(1) k by (subst request_wf_cong [of r1 r]) simp_all
  with worker_process_confined [OF wf p] have "request_wf r2" by simp
  from Cons.IH [OF this t] requeued_rounds [OF wf p] k(7) show ?case by simp
qed simp

text \<open>So the number of rounds can be read off the request, if it is small.\<close>

lemma transfer_rounds_bound:
  assumes "request_wf r" "rounds r = 0" "transfer e others r w = (Requeued r', w')" "length others * p < n" "n < 2 ^ 64" "0 < p"
  shows "unat (rounds r') * p < n"
proof -
  have "length others * 1 \<le> length others * p" using assms(6) by (intro mult_le_mono2) simp
  then have "length others < 2 ^ 64" using assms(4,5) by linarith
  then show ?thesis using transfer_rounds [OF assms(1,3)] assms(2,4) by (simp add: unat_of_nat_u64)
qed

text \<open>
  If every long enough sequence of calm rounds finishes a request with result
  \<open>Q\<close>, then a shorter one leaves it requeued after fewer rounds, or has
  finished it with that result.
\<close>

lemma calm_rounds_settle:
  assumes "\<And>xs. list_all (calm p fd) xs \<Longrightarrow> xs \<noteq> [] \<Longrightarrow> n \<le> length xs * pc \<Longrightarrow>
      \<exists>r' w'. transfer e xs r w = (Finished r', w') \<and> Q w'"
    and "others \<noteq> []" "list_all (calm p fd) others" "transfer e others r w = (out, w')"
    and "request_wf r" "rounds r = 0" "n < 2 ^ 64" "0 < pc"
  shows "(\<exists>r''. out = Requeued r'' \<and> unat (rounds r'') * pc < n) \<or> (\<exists>r''. out = Finished r'' \<and> Q w')"
proof -
  let ?xs = "others @ replicate n id"
  have "list_all (calm p fd) ?xs" using assms(3) by (auto simp: list_all_iff calm_def)
  moreover have "n * 1 \<le> length ?xs * pc" using assms(8) by (intro mult_le_mono) simp_all
  ultimately obtain r2 w2 where r2: "transfer e ?xs r w = (Finished r2, w2)" "Q w2"
    using assms(1) [of ?xs] assms(2) by auto
  from transfer_prefix [OF r2(1) assms(4)] show ?thesis
  proof (elim disjE exE)
    fix r3
    assume out: "out = Requeued r3"
    then have "length others * pc < n" using assms(1) [OF assms(3,2)] assms(4) by (auto simp: not_le [symmetric])
    with out show ?thesis using transfer_rounds_bound [OF assms(5,6)] assms(4,7,8) by blast
  qed (use r2(2) in auto)
qed

section \<open>The simulation\<close>

text \<open>
  Request \<open>r'\<close> of state \<open>s\<close> is where the sequential transfer of \<open>r\<close> from
  world \<open>w0\<close> is after some rounds.
\<close>

definition paused :: "worker_env \<Rightarrow> request \<Rightarrow> world \<Rightarrow> world \<Rightarrow> request \<Rightarrow> bool" where
  "paused e r w0 w r' \<longleftrightarrow> (\<exists>others w1. list_all (calm (own_path e r) (client_fd r)) others \<and>
     transfer e others r w0 = (Requeued r', w1) \<and> agree (own_path e r) (client_fd r) w1 w)"

fun tracked_phase :: "worker_env \<Rightarrow> request \<Rightarrow> world \<Rightarrow> world \<Rightarrow> worker_phase \<Rightarrow> bool" where
  "tracked_phase e r w0 w (W_serving (r', b)) \<longleftrightarrow> (request_id r' = request_id r \<longrightarrow>
     (\<exists>r1. paused e r w0 w r1 \<and> get_budget (we_sched e) r1 = (b, r')))"
| "tracked_phase e r w0 w (W_returning (Requeued r')) \<longleftrightarrow> (request_id r' = request_id r \<longrightarrow> paused e r w0 w r')"
| "tracked_phase e r w0 w _ \<longleftrightarrow> True"

definition tracked :: "worker_env \<Rightarrow> request \<Rightarrow> world \<Rightarrow> server_state \<Rightarrow> bool" where
  "tracked e r w0 s \<longleftrightarrow>
     (\<forall>r' \<in> set (q_items (sv_queue s)). request_id r' = request_id r \<longrightarrow> paused e r w0 (sv_world s) r') \<and>
     (\<forall>ph \<in> set (sv_workers s). tracked_phase e r w0 (sv_world s) ph) \<and>
     (\<forall>ph \<in> set (sv_parsers s). request_id r \<notin> set (parser_ids ph)) \<and>
     sint (request_id r) < sint (sv_next_id s)"

lemma paused_same: "paused e r w0 w r' \<Longrightarrow> same_request r r'"
  unfolding paused_def using transfer_same by fastforce

lemma paused_agree: "paused e r w0 w r' \<Longrightarrow> agree (own_path e r) (client_fd r) w w' \<Longrightarrow> paused e r w0 w' r'"
  unfolding paused_def using agree_trans by blast

text \<open>
  A round of the running server is a round of the sequential transfer: what the
  other threads did in between becomes the calm function that leads from the
  world in which the transfer paused to the present one.
\<close>

lemma paused_round:
  assumes "paused e r w0 w r1" "get_budget (we_sched e) r1 = (b, r')" "worker_process e (r', b) w = (out, w')"
  obtains others where "others \<noteq> []" "list_all (calm (own_path e r) (client_fd r)) others"
    "transfer e others r w0 = (out, w')"
proof -
  obtain others w1 where o: "list_all (calm (own_path e r) (client_fd r)) others"
    "transfer e others r w0 = (Requeued r1, w1)" "agree (own_path e r) (client_fd r) w1 w"
    using assms(1) by (auto simp: paused_def)
  define i where "i = (\<lambda>v. if v = w1 then w else v)"
  have "calm (own_path e r) (client_fd r) i" using o(3) by (auto simp: calm_def i_def agree_def)
  moreover have "transfer e (others @ [i]) r w0 = (out, w')"
    using o(2) assms(2,3) by (simp add: transfer_append i_def split: worker_outcome.splits)
  ultimately show ?thesis using o(1) by (intro that [of "others @ [i]"]) simp_all
qed

lemma paused_next:
  assumes "paused e r w0 w r1" "get_budget (we_sched e) r1 = (b, r')" "worker_process e (r', b) w = (Requeued r2, w')"
  shows "paused e r w0 w' r2"
  using assms by (rule paused_round) (auto simp: paused_def)

lemma tracked_phase_agree:
  assumes "tracked_phase e r w0 w ph"
    and "\<And>x. x \<in> set (worker_holds ph) \<Longrightarrow> same_request r x \<Longrightarrow> agree (own_path e r) (client_fd r) w w'"
  shows "tracked_phase e r w0 w' ph"
proof (cases ph)
  case (W_serving d)
  obtain r' b where d: "d = (r', b)" by fastforce
  show ?thesis
  proof (cases "request_id r' = request_id r")
    case True
    then obtain r1 where r1: "paused e r w0 w r1" "get_budget (we_sched e) r1 = (b, r')"
      using assms(1) W_serving d by auto
    have "same_request r r'"
      using paused_same [OF r1(1)] get_budget_keeps [OF r1(2)] by (simp add: same_request_def)
    with assms(2) [of r'] W_serving d have "paused e r w0 w' r1" using r1(1) by (auto intro: paused_agree)
    with r1(2) W_serving d show ?thesis by auto
  qed (simp add: W_serving d)
next
  case (W_returning out)
  then show ?thesis using assms paused_same paused_agree by (cases out) auto
qed simp_all

lemma tracked_queue:
  assumes "\<forall>r' \<in> set xs. request_id r' = request_id r \<longrightarrow> paused e r w0 w r'"
    and "\<And>x. x \<in> set xs \<Longrightarrow> same_request r x \<Longrightarrow> agree (own_path e r) (client_fd r) w w'"
  shows "\<forall>r' \<in> set xs. request_id r' = request_id r \<longrightarrow> paused e r w0 w' r'"
  using assms paused_same paused_agree by metis

text \<open>A step of a thread that holds no request.\<close>

lemma tracked_frame:
  assumes "tracked e r w0 s" "sv_workers s' = sv_workers s" "sv_parsers s' = sv_parsers s"
    and "sv_next_id s' = sv_next_id s" "q_items (sv_queue s') = q_items (sv_queue s)"
    and "\<And>x. x \<in># held_requests s \<Longrightarrow> same_request r x \<Longrightarrow>
      agree (own_path e r) (client_fd r) (sv_world s) (sv_world s')"
  shows "tracked e r w0 s'"
proof -
  have "tracked_phase e r w0 (sv_world s') ph" if ph: "ph \<in> set (sv_workers s)" for ph
  proof (rule tracked_phase_agree)
    show "tracked_phase e r w0 (sv_world s) ph" using assms(1) ph by (simp add: tracked_def)
    fix x
    assume x: "x \<in> set (worker_holds ph)" "same_request r x"
    show "agree (own_path e r) (client_fd r) (sv_world s) (sv_world s')"
      by (rule assms(6) [OF _ x(2)]) (use ph x(1) in \<open>auto simp: held_requests_def busy_workers_def\<close>)
  qed
  moreover have "\<forall>r' \<in> set (q_items (sv_queue s)). request_id r' = request_id r \<longrightarrow> paused e r w0 (sv_world s') r'"
  proof (rule tracked_queue)
    show "\<forall>r' \<in> set (q_items (sv_queue s)). request_id r' = request_id r \<longrightarrow> paused e r w0 (sv_world s) r'"
      using assms(1) by (simp add: tracked_def)
    fix x
    assume x: "x \<in> set (q_items (sv_queue s))" "same_request r x"
    show "agree (own_path e r) (client_fd r) (sv_world s) (sv_world s')"
      by (rule assms(6) [OF _ x(2)]) (use x(1) in \<open>simp add: held_requests_def\<close>)
  qed
  ultimately show ?thesis using assms by (auto simp: tracked_def)
qed

lemma tracked_parser:
  assumes "tracked e r w0 s" "iso_inv allowed s" "i < length (sv_parsers s)"
    and "parser_step e (sv_parsers s ! i) s = Some (ph, s', evs)" "sint (sv_next_id s) \<le> sint (sv_next_id s')"
  shows "tracked e r w0 (s'\<lparr>sv_parsers := (sv_parsers s')[i := ph]\<rparr>)"
proof -
  note same = parser_step_same [OF assms(4)]
  let ?s1 = "s'\<lparr>sv_queue := (sv_queue s')\<lparr>q_items := q_items (sv_queue s)\<rparr>, sv_next_id := sv_next_id s\<rparr>"
  have t: "tracked e r w0 ?s1"
  proof (rule tracked_frame [OF assms(1)])
    fix x
    assume x: "x \<in># held_requests s" "same_request r x"
    then show "agree (own_path e r) (client_fd r) (sv_world s) (sv_world ?s1)"
      using parser_step_agrees [OF assms(2,3,4) x(1), of "own_path e r"] by (simp add: same_request_def)
  qed (simp_all add: same)
  have old: "request_id r \<notin> set (parser_ids (sv_parsers s ! i))" "sint (request_id r) < sint (sv_next_id s)"
    using assms(1,3) by (auto simp: tracked_def)
  have new: "request_id r \<notin> set (parser_ids ph) \<union> set (concat (map admitted_ids evs))"
    using parser_step_ids [OF assms(4)]
  proof (elim disjE conjE)
    assume "mset (parser_ids ph) + mset (concat (map admitted_ids evs)) \<subseteq># mset (parser_ids (sv_parsers s ! i))"
    from set_mset_mono [OF this] old(1) show ?thesis by auto
  next
    assume "parser_ids ph = [sv_next_id s]" "concat (map admitted_ids evs) = []"
    with old(2) show ?thesis by auto
  qed
  then have "request_id x \<noteq> request_id r" if "x \<in> set (concat (map admitted evs))" for x
    using that unfolding ids_of_admitted set_map by (metis UnI2 image_eqI)
  with t new old(2) assms(5) same parser_step_requests [OF assms(4)] show ?thesis
    by (auto simp: tracked_def dest!: done_update)
qed

section \<open>Steps of the workers\<close>

lemma besides_members:
  "x \<in> set (q_items (sv_queue s)) \<Longrightarrow> x \<in># held_besides i s"
  "j < length (sv_workers s) \<Longrightarrow> j \<noteq> i \<Longrightarrow> x \<in> set (worker_holds (sv_workers s ! j)) \<Longrightarrow> x \<in># held_besides i s"
proof -
  assume j: "j < length (sv_workers s)" "j \<noteq> i" "x \<in> set (worker_holds (sv_workers s ! j))"
  then have "sv_workers s ! j \<in> set ((sv_workers s)[i := W_waiting])" by (metis length_list_update nth_list_update_neq nth_mem)
  with j(3) show "x \<in># held_besides i s" by (auto simp: held_besides_def)
qed (simp add: held_besides_def)

lemma scheduler_next_budget:
  assumes "scheduler_next s q = Popped (r, b) q'"
  obtains r0 where "r0 \<in> set (q_items q)" "get_budget s r0 = (b, r)" "set (q_items q') \<subseteq> set (q_items q)"
proof -
  obtain r0 where p: "policy_pop (policy s) q = Popped r0 q'" and g: "get_budget s r0 = (b, r)"
    using assms by (auto simp: scheduler_next_def split: pop_result.splits prod.splits)
  have "mset (q_items q) = mset (q_items q') + {#r0#}" using sched.popped [OF p] by (simp add: q_waiting_def)
  from arg_cong [OF this, of set_mset] g show ?thesis by (intro that [of r0]) auto
qed

text \<open>The worker's own request, if it is the tracked one, makes its next move.\<close>

lemma tracked_own:
  assumes "tracked e r w0 s" "i < length (sv_workers s)"
    and "worker_step e (sv_workers s ! i) s = Some (ph, s', evs)"
  shows "tracked_phase e r w0 (sv_world s') ph"
    "\<forall>x \<in> set (q_items (sv_queue s')) - set (q_items (sv_queue s)). request_id x = request_id r \<longrightarrow>
       paused e r w0 (sv_world s') x"
proof -
  have t: "tracked_phase e r w0 (sv_world s) (sv_workers s ! i)" using assms(1,2) by (simp add: tracked_def)
  have "tracked_phase e r w0 (sv_world s') ph \<and>
    (\<forall>x \<in> set (q_items (sv_queue s')) - set (q_items (sv_queue s)). request_id x = request_id r \<longrightarrow>
       paused e r w0 (sv_world s') x)"
  proof (cases "sv_workers s ! i")
    case W_waiting
    show ?thesis
    proof (cases "scheduler_next (we_sched e) (sv_queue s)")
      case (Popped d q)
      obtain r1 b where d: "d = (r1, b)" by fastforce
      with Popped obtain r0 where r0: "r0 \<in> set (q_items (sv_queue s))" "get_budget (we_sched e) r0 = (b, r1)"
        "set (q_items q) \<subseteq> set (q_items (sv_queue s))" using scheduler_next_budget by metis
      have "request_id r1 = request_id r0" using get_budget_keeps [OF r0(2)] by simp
      with r0(1,2) assms(1) have "tracked_phase e r w0 (sv_world s) (W_serving (r1, b))" by (auto simp: tracked_def)
      with r0(3) assms(3) W_waiting Popped d show ?thesis by (auto simp: worker_step_def)
    qed (use assms(3) W_waiting in \<open>auto simp: worker_step_def\<close>)
  next
    case (W_serving d)
    obtain r1 b where d: "d = (r1, b)" by fastforce
    obtain out w1 where p: "worker_process e (r1, b) (sv_world s) = (out, w1)" by fastforce
    have id: "request_id (outcome_request out) = request_id r1"
      using worker_process_same [OF p] by (simp add: same_request_def)
    have "tracked_phase e r w0 w1 (W_returning out)"
      using t W_serving d id p paused_next by (cases out) auto
    with assms(3) W_serving d p show ?thesis by (auto simp: worker_step_def)
  next
    case (W_returning out)
    with t assms(3) show ?thesis
      by (cases out) (auto simp: worker_step_def worker_finish_def requeue_def Request_Queue.complete_def)
  qed (use assms(3) in \<open>simp add: worker_step_def\<close>)
  then show "tracked_phase e r w0 (sv_world s') ph"
    "\<forall>x \<in> set (q_items (sv_queue s')) - set (q_items (sv_queue s)). request_id x = request_id r \<longrightarrow>
       paused e r w0 (sv_world s') x" by blast+
qed

lemma tracked_worker:
  assumes "tracked e r w0 s" "iso_inv allowed s" "unshared allowed r" "i < length (sv_workers s)"
    and "worker_step e (sv_workers s ! i) s = Some (ph, s', evs)"
  shows "tracked e r w0 (s'\<lparr>sv_workers := (sv_workers s')[i := ph]\<rparr>)"
proof -
  note same = worker_step_same [OF assms(5)] other_step_parsers(3) [OF assms(5)]
  note own = tracked_own [OF assms(1,4,5)]
  have ag: "agree (own_path e r) (client_fd r) (sv_world s) (sv_world s')"
    if "x \<in># held_besides i s" "same_request r x" for x
    using worker_step_agrees [OF assms(2,4,5) that(1)] own_path_same [OF that(2)] assms(3) that(2)
    by (simp add: same_request_def)
  have "\<forall>x \<in> set (q_items (sv_queue s)). request_id x = request_id r \<longrightarrow> paused e r w0 (sv_world s) x"
    using assms(1) by (simp add: tracked_def)
  then have "\<forall>x \<in> set (q_items (sv_queue s)). request_id x = request_id r \<longrightarrow> paused e r w0 (sv_world s') x"
    by (rule tracked_queue) (rule ag, rule besides_members(1))
  with own(2) have q: "\<forall>x \<in> set (q_items (sv_queue s')). request_id x = request_id r \<longrightarrow> paused e r w0 (sv_world s') x"
    by blast
  have "tracked_phase e r w0 (sv_world s') ((sv_workers s)[i := ph] ! j)" if j: "j < length (sv_workers s)" for j
  proof (cases "j = i")
    case False
    have "tracked_phase e r w0 (sv_world s) (sv_workers s ! j)" using assms(1) j by (simp add: tracked_def)
    then have "tracked_phase e r w0 (sv_world s') (sv_workers s ! j)"
      by (rule tracked_phase_agree) (rule ag, rule besides_members(2) [OF j False])
    with False show ?thesis by simp
  qed (use own(1) j in simp)
  then have "\<forall>ph' \<in> set ((sv_workers s)[i := ph]). tracked_phase e r w0 (sv_world s') ph'"
    by (auto simp: in_set_conv_nth)
  with q assms(1) same show ?thesis by (auto simp: tracked_def)
qed

lemma tracked_step:
  assumes "server_step e metrics_out s evs s'" "orderly allowed s evs s'" "iso_inv allowed s" "unshared allowed r"
    and "tracked e r w0 s"
  shows "tracked e r w0 s'"
  using assms(1)
proof (cases rule: server_step.cases)
  case step_signal
  show ?thesis unfolding step_signal by (rule tracked_frame [OF assms(5)]) (simp_all add: handle_signal_def)
next
  case step_check
  show ?thesis
    unfolding step_check by (rule tracked_frame [OF assms(5)]) (simp_all add: acceptor_check_def acceptor_exit_def)
next
  case (step_select ev)
  show ?thesis
  proof (rule tracked_frame [OF assms(5)])
    show "sv_workers s' = sv_workers s" "q_items (sv_queue s') = q_items (sv_queue s)"
      using step_select(2) by (auto simp: acceptor_select_def acceptor_retry_def acceptor_exit_def Let_def
        split: accept_event.splits if_splits prod.splits bool.splits)
    fix x
    assume x: "x \<in># held_requests s" "same_request r x"
    show "agree (own_path e r) (client_fd r) (sv_world s) (sv_world s')"
      using acceptor_agrees [OF step_select(2) assms(2) x(1), of "own_path e r"] x(2) by (simp add: same_request_def)
  qed (use other_step_parsers(1) [OF step_select(2)] in simp_all)
next
  case (step_parser i ph s1)
  have "sint (sv_next_id s) \<le> sint (sv_next_id s1)" using assms(2) step_parser(1) by (simp add: orderly_def)
  with step_parser show ?thesis using tracked_parser [OF assms(5,3)] by blast
next
  case (step_worker i ph s1)
  then show ?thesis using tracked_worker [OF assms(5,3,4)] by blast
next
  case step_main
  show ?thesis
  proof (rule tracked_frame [OF assms(5)])
    show "sv_workers s' = sv_workers s" "q_items (sv_queue s') = q_items (sv_queue s)"
      using step_main(2) by (auto simp: main_step_def close_queue_def split: main_phase.splits if_splits)
  qed (use other_step_parsers(2) [OF step_main(2)] main_step_agrees [OF assms(3) step_main(2)] in simp_all)
qed

lemma tracked_run:
  assumes "orderly_run e metrics_out allowed s0 tr s" "iso_inv allowed s0" "unshared allowed r" "tracked e r w0 s0"
  shows "tracked e r w0 s"
  using assms(1,2,4)
proof (induction rule: orderly_run.induct)
  case (orderly_step tr s evs s')
  then show ?case using tracked_step [OF orderly_step(2,3) iso_inv_run [OF orderly_step(1)] assms(3)] by blast
qed

lemma count_image_two:
  assumes "\<forall>k. count (M + N) k \<le> 1" "k \<in># M"
  shows "k \<notin># N"
  using spec [OF assms(1), of k] assms(2) unfolding count_greater_zero_iff [symmetric] count_union by linarith

text \<open>Every queued request is tracked from where it stands.\<close>

lemma tracked_start:
  assumes "iso_inv allowed s" "r \<in> set (q_items (sv_queue s))"
  shows "tracked e r (sv_world s) s"
proof -
  let ?Q = "image_mset request_id (mset (q_items (sv_queue s)))"
  let ?B = "image_mset request_id (mset (busy_workers s))" and ?P = "mset (concat (map parser_ids (sv_parsers s)))"
  have ids: "live_ids s = ?Q + (?B + ?P)" by (simp add: live_ids_def held_requests_def)
  then have one: "\<forall>k. count (?Q + (?B + ?P)) k \<le> 1" using assms(1) by (simp add: iso_inv_def)
  have mem: "request_id r \<in># ?Q" using assms(2) by simp
  have "request_id r \<notin># ?B + ?P" using one mem by (rule count_image_two)
  then have other: "\<forall>ph \<in> set (sv_workers s). request_id r \<notin> request_id ` set (worker_holds ph)"
    "\<forall>ph \<in> set (sv_parsers s). request_id r \<notin> set (parser_ids ph)"
    by (auto simp: busy_workers_def)
  have "tracked_phase e r (sv_world s) (sv_world s) ph" if ph: "request_id r \<notin> request_id ` set (worker_holds ph)" for ph
  proof (cases ph)
    case (W_serving d)
    with ph show ?thesis by (cases d) auto
  next
    case (W_returning out)
    with ph show ?thesis by (cases out) auto
  qed simp_all
  moreover have "paused e r (sv_world s) (sv_world s) x"
    if x: "x \<in> set (q_items (sv_queue s))" "request_id x = request_id r" for x
  proof -
    obtain R where R: "mset (q_items (sv_queue s)) = R + {#r#}" by (metis add_mset_add_single assms(2) in_multiset_in_set mset_add)
    have "count ?Q (request_id r) \<le> 1" using spec [OF one, of "request_id r"] by simp
    then have "x \<notin># R" using image_mset_unique [of request_id R r x] x(2) by (auto simp: R)
    moreover have "x \<in># mset (q_items (sv_queue s))" using x(1) by simp
    ultimately have "x = r" unfolding R by simp
    then show ?thesis unfolding paused_def by (intro exI [of _ "[]"]) simp
  qed
  moreover have "sint (request_id r) < sint (sv_next_id s)" using assms(1) ids mem by (simp add: iso_inv_def)
  ultimately show ?thesis using other by (auto simp: tracked_def)
qed

section \<open>A run with one client\<close>

lemma orderly_silent: "sv_next_id s' = sv_next_id s \<Longrightarrow> orderly allowed s [] s'"
  by (simp add: orderly_def)

lemma orderly_step0:
  "orderly_run e m allowed s0 tr s \<Longrightarrow> server_step e m s [] s' \<Longrightarrow> orderly allowed s [] s' \<Longrightarrow> orderly_run e m allowed s0 tr s'"
  using orderly_step [of e m allowed s0 tr s "[]" s'] by simp

text \<open>
  The run in which the first client connects, is parsed and admitted, and the
  only worker takes its request; used to show that the properties below apply.
\<close>

definition demo_arrived :: "world \<Rightarrow> socket \<Rightarrow> server_state" where
  "demo_arrived w sock = (server_start 1 8 w)\<lparr>sv_fds := \<lparr>fd_items = [5], fd_closed = False\<rparr>,
     sv_world := set_sock 5 (\<lambda>_. sock) w\<rparr>"

definition demo_queued :: "world \<Rightarrow> request \<Rightarrow> server_state" where
  "demo_queued w q = (server_start 1 8 w)\<lparr>sv_queue := empty_queue\<lparr>q_items := [q]\<rparr>, sv_next_id := 2\<rparr>"

definition demo_serving :: "world \<Rightarrow> request \<Rightarrow> u64 \<Rightarrow> server_state" where
  "demo_serving w q b = (server_start 1 8 w)\<lparr>sv_queue := empty_queue\<lparr>q_inflight := 1\<rparr>, sv_next_id := 2,
     sv_workers := [W_serving (q, b)]\<rparr>"

lemma demo_arrival_run: "orderly_run e m allowed (server_start 1 8 w) [E_accept 5] (demo_arrived w sock)"
proof -
  let ?s0 = "server_start 1 8 w"
  have "server_step e m ?s0 [] (acceptor_check ?s0)" by (rule step_check) (simp add: server_start_def)
  then have "orderly_run e m allowed ?s0 [] (acceptor_check ?s0)"
    by (rule orderly_step0 [OF orderly_start])
       (simp add: orderly_silent acceptor_check_def server_start_def)
  moreover have "server_step e m (acceptor_check ?s0) [E_accept 5] (demo_arrived w sock)"
    by (rule step_select [of _ "Accept_returned 5 sock"])
       (simp_all add: acceptor_check_def server_start_def acceptor_select_def accept_connection_def fd_push_def
          demo_arrived_def)
  moreover have "orderly allowed (acceptor_check ?s0) [E_accept 5] (demo_arrived w sock)"
    by (simp add: orderly_def held_connections_def held_requests_def busy_workers_def acceptor_check_def
        server_start_def demo_arrived_def empty_queue_def)
  ultimately show ?thesis using orderly_step by fastforce
qed

lemma demo_admission_run:
  assumes "parse_connection (we_dir e) 5 (set_sock 5 (\<lambda>_. sock) w) = (Admitted r, w1)"
    and "op r = PUT \<longrightarrow> allowed (filename r)"
  defines "q \<equiv> number_request 1 w1 r"
  shows "orderly_run e m allowed (server_start 1 8 w) [E_accept 5, E_admit q] (demo_queued w1 q)"
proof -
  let ?s1 = "demo_arrived w sock"
  let ?s2 = "?s1\<lparr>sv_fds := \<lparr>fd_items = [], fd_closed = False\<rparr>, sv_parsers := P_reading 5 # replicate 7 P_waiting\<rparr>"
  let ?s3 = "?s2\<lparr>sv_world := w1, sv_parsers := P_checked 5 (Admitted r) # replicate 7 P_waiting\<rparr>"
  let ?s4 = "?s3\<lparr>sv_next_id := 2, sv_parsers := P_numbered 5 q # replicate 7 P_waiting\<rparr>"
  note defs = demo_arrived_def server_start_def parser_count_def parser_step_def
  have eight: "replicate 8 P_waiting = P_waiting # replicate 7 P_waiting" by (simp add: numeral_eq_Suc)
  have step: "server_step e m s evs s'" if "sv_parsers s = ph0 # phs" "parser_step e ph0 s = Some (ph, s1, evs)"
    "s' = s1\<lparr>sv_parsers := (sv_parsers s1)[0 := ph]\<rparr>" for s s1 s' evs ph0 ph phs
    unfolding that(3) by (rule step_parser) (simp_all add: that)
  have run: "orderly_run e m allowed (server_start 1 8 w) [E_accept 5] ?s1" by (rule demo_arrival_run)
  have "server_step e m ?s1 [] ?s2"
    by (rule step) (simp add: defs eight, simp add: defs fd_wait_pop_def, simp add: defs eight)
  from orderly_step0 [OF run this orderly_silent] have run: "orderly_run e m allowed (server_start 1 8 w) [E_accept 5] ?s2"
    by (simp add: defs)
  have "server_step e m ?s2 [] ?s3"
    by (rule step) (simp, simp add: defs assms(1), simp add: defs)
  from orderly_step0 [OF run this orderly_silent] have run: "orderly_run e m allowed (server_start 1 8 w) [E_accept 5] ?s3"
    by (simp add: defs)
  have "server_step e m ?s3 [] ?s4"
    by (rule step) (simp, simp add: defs, simp add: defs q_def)
  moreover have "orderly allowed ?s3 [] ?s4" by (simp add: orderly_def defs)
  ultimately have run: "orderly_run e m allowed (server_start 1 8 w) [E_accept 5] ?s4" using orderly_step0 [OF run] by blast
  have "server_step e m ?s4 [E_admit q] (demo_queued w1 q)"
    by (rule step) (simp, simp add: defs admit_request_def push_def empty_queue_def,
      simp add: defs demo_queued_def empty_queue_def eight)
  moreover have "orderly allowed ?s4 [E_admit q] (demo_queued w1 q)"
    using assms(2) by (simp add: orderly_def defs demo_queued_def q_def number_request_def)
  ultimately show ?thesis using orderly_step [OF run] by fastforce
qed

lemma demo_serving_run:
  assumes "policy (we_sched e) = RR" "get_budget (we_sched e) q = (b, q')"
  shows "orderly_run e m allowed (demo_queued w q) [] (demo_serving w q' b)"
proof -
  let ?s = "demo_queued w q" and ?s1 = "(demo_queued w q)\<lparr>sv_queue := empty_queue\<lparr>q_inflight := 1\<rparr>\<rparr>"
  have "server_step e m ?s [] (?s1\<lparr>sv_workers := (sv_workers ?s1)[0 := W_serving (q', b)]\<rparr>)"
    by (rule step_worker)
       (simp_all add: demo_queued_def server_start_def worker_step_def scheduler_next_def policy_pop_def assms
          wait_pop_def pop_ready_def empty_queue_def)
  then have "server_step e m ?s [] (demo_serving w q' b)"
    by (simp add: demo_queued_def demo_serving_def server_start_def)
  then show ?thesis
    by (rule orderly_step0 [OF orderly_start])
       (simp add: orderly_silent demo_queued_def demo_serving_def server_start_def)
qed

lemma demo_queued_simps:
  "q_items (sv_queue (demo_queued w q)) = [q]" "sv_world (demo_queued w q) = w" "held_requests (demo_queued w q) = {#q#}"
  "sv_workers (demo_serving w q' b) = [W_serving (q', b)]" "sv_world (demo_serving w q' b) = w"
  by (simp_all add: demo_queued_def demo_serving_def server_start_def held_requests_def busy_workers_def empty_queue_def)

text \<open>The first client uploads five bytes, or downloads a file of two lines.\<close>

definition demo_upload :: request where
  "demo_upload = new_request\<lparr>client_fd := 5, op := PUT, filename := ''f'', total_bytes := 5, pending_bytes := ''he''\<rparr>"

definition demo_download :: request where
  "demo_download = new_request\<lparr>client_fd := 5, op := GET, filename := ''f'', total_bytes := 4\<rparr>"

lemma demo_upload_parsed:
  obtains w1 where "parse_connection ''d'' 5 (set_sock 5 (\<lambda>_. demo_socket [Segment 5 (''PUT f 5'' @ newline # ''he''),
      Segment 9 ''llo'']) (demo_world Map.empty [])) = (Admitted demo_upload, w1)"
    "inbox (socks w1 5) = [Segment 9 ''llo'']" "sent (socks w1 5) = []" "send_plan (socks w1 5) = []"
    "files w1 = Map.empty"
proof -
  let ?w = "set_sock 5 (\<lambda>_. demo_socket [Segment 5 (''PUT f 5'' @ newline # ''he''), Segment 9 ''llo'']) (demo_world Map.empty [])"
  obtain w1 where r: "read_header_line 5 1000 ?w = (''PUT f 5'' @ [newline], ''he'', w1)" and i: "inbox (socks w1 5) = [Segment 9 ''llo'']"
    using read_header_line_segment [of ?w 5 5 "''PUT f 5''" "''he''" "[Segment 9 ''llo'']" 1000]
    by (auto simp: newline_def demo_socket_def)
  have "to_string 5 = ''5''" by code_simp
  then have "parse_request_header (''PUT f 5'' @ [newline]) 5 =
      Inr (new_request\<lparr>client_fd := 5, op := PUT, filename := ''f'', total_bytes := 5\<rparr>)"
    using request_header_parses [of "''f''" 5 5] by (simp add: isspace_def)
  with r have "parse_connection ''d'' 5 ?w = (Admitted demo_upload, w1)"
    by (simp add: parse_connection_def Let_def is_valid_filename_def demo_upload_def)
  with i show ?thesis
    using read_header_loop_frame [OF r [unfolded read_header_line_def]] by (intro that) (auto simp: demo_socket_def)
qed

lemma demo_download_parsed:
  obtains w1 where "parse_connection ''d'' 5 (set_sock 5 (\<lambda>_. demo_socket [Segment 5 (''GET f'' @ [newline])])
      (demo_world [''d/f'' \<mapsto> two_lines] [])) = (Admitted demo_download, w1)"
    "sent (socks w1 5) = []" "send_plan (socks w1 5) = []" "files w1 = [''d/f'' \<mapsto> two_lines]" "now w1 < 2 ^ 64"
proof -
  let ?w = "set_sock 5 (\<lambda>_. demo_socket [Segment 5 (''GET f'' @ [newline])]) (demo_world [''d/f'' \<mapsto> two_lines] [])"
  obtain w1 where r: "read_header_line 5 1000 ?w = (''GET f'' @ [newline], [], w1)"
    using read_header_line_segment [of ?w 5 5 "''GET f''" "[]" "[]" 1000] by (auto simp: newline_def demo_socket_def)
  have p: "parse_request_header (''GET f'' @ [newline]) 5 = Inr (new_request\<lparr>client_fd := 5, op := GET, filename := ''f''\<rparr>)"
    using request_header_parses [of "''f''" 5 5] by (simp add: isspace_def)
  note f = read_header_loop_frame [OF r [unfolded read_header_line_def]]
  have "parse_connection ''d'' 5 ?w = (Admitted demo_download, w1)"
    using r p f by (simp add: parse_connection_def Let_def is_valid_filename_def demo_download_def file_exists_def
        get_file_size_def join_path_def two_lines_def new_request_def)
  moreover have "now w1 < 2 ^ 64" using read_header_loop_time [OF r [unfolded read_header_line_def]] by simp
  ultimately show ?thesis using f by (intro that) (auto simp: demo_socket_def)
qed

lemma demo_not_reserved: "\<not> reserved ''f''"
  using sublist_length_le [of "''.upload.''" "''f''"] by (auto simp: reserved_def)

lemma demo_upload_runs:
  fixes m
  defines "e \<equiv> demo_env RR 2" and "ok \<equiv> \<lambda>f. \<not> reserved f" and "w \<equiv> demo_world Map.empty []"
  obtains w1 q q' b where "orderly_run e m ok (server_start 1 8 w) [E_accept 5, E_admit q] (demo_queued w1 q)"
    "orderly_run e m ok (demo_queued w1 q) [] (demo_serving w1 q' b)" "put_state e [] q w1"
    "q = number_request 1 w1 demo_upload" "request_id q' = 1" "filename q' = ''f''" "wire w1 5 = []"
    "upload_stream q w1 = ''hello''"
proof -
  obtain w1 where p: "parse_connection ''d'' 5 (set_sock 5 (\<lambda>_. demo_socket [Segment 5 (''PUT f 5'' @ newline # ''he''),
      Segment 9 ''llo'']) w) = (Admitted demo_upload, w1)" and w1: "inbox (socks w1 5) = [Segment 9 ''llo'']"
      "sent (socks w1 5) = []" "send_plan (socks w1 5) = []" "files w1 = Map.empty"
    unfolding w_def by (rule demo_upload_parsed)
  define q where "q = number_request 1 w1 demo_upload"
  obtain b q' where g: "get_budget (we_sched e) q = (b, q')" by fastforce
  show ?thesis
  proof (rule that [of q w1 q' b])
    show "orderly_run e m ok (server_start 1 8 w) [E_accept 5, E_admit q] (demo_queued w1 q)"
      unfolding q_def by (rule demo_admission_run)
        (use p demo_not_reserved in \<open>simp_all add: e_def ok_def demo_env_def demo_upload_def\<close>)
    show "orderly_run e m ok (demo_queued w1 q) [] (demo_serving w1 q' b)"
      by (rule demo_serving_run [OF _ g]) (simp add: e_def demo_env_def)
    show "put_state e [] q w1"
      using w1 by (simp add: put_state_def put_ready_def pending_wf_def e_def demo_env_def q_def number_request_def
          demo_upload_def new_request_def disk_accepts_def healthy_disk_def prompt_def reliable_def left_def
          is_valid_filename_def upload_stream_def pending_rest_def staged_def staging_name_def)
  qed (use get_budget_keeps [OF g] w1 in \<open>simp_all add: q_def number_request_def demo_upload_def new_request_def
      wire_def upload_stream_def pending_rest_def\<close>)
qed

lemma demo_download_runs:
  fixes m and quantum :: u64
  assumes "0 < quantum"
  defines "e \<equiv> demo_env RR quantum" and "ok \<equiv> \<lambda>f. f \<noteq> ''f''" and "w \<equiv> demo_world [''d/f'' \<mapsto> two_lines] []"
  obtains w1 q q' b where "orderly_run e m ok (server_start 1 8 w) [E_accept 5, E_admit q] (demo_queued w1 q)"
    "orderly_run e m ok (demo_queued w1 q) [] (demo_serving w1 q' b)" "get_state e two_lines q w1"
    "q = number_request 1 w1 demo_download" "request_id q' = 1" "filename q' = ''f''" "wire w1 5 = []"
    "get_budget (we_sched e) q = (b, q')" "now w1 < 2 ^ 64"
proof -
  obtain w1 where p: "parse_connection ''d'' 5 (set_sock 5 (\<lambda>_. demo_socket [Segment 5 (''GET f'' @ [newline])]) w) =
      (Admitted demo_download, w1)" and w1: "sent (socks w1 5) = []" "send_plan (socks w1 5) = []"
      "files w1 = [''d/f'' \<mapsto> two_lines]" "now w1 < 2 ^ 64"
    unfolding w_def by (rule demo_download_parsed)
  define q where "q = number_request 1 w1 demo_download"
  obtain b q' where g: "get_budget (we_sched e) q = (b, q')" by fastforce
  show ?thesis
  proof (rule that [of q w1 q' b])
    show "orderly_run e m ok (server_start 1 8 w) [E_accept 5, E_admit q] (demo_queued w1 q)"
      unfolding q_def by (rule demo_admission_run) (use p in \<open>simp_all add: e_def demo_env_def demo_download_def\<close>)
    show "orderly_run e m ok (demo_queued w1 q) [] (demo_serving w1 q' b)"
      by (rule demo_serving_run [OF _ g]) (simp add: e_def demo_env_def)
    show "get_state e two_lines q w1"
      using w1(1-3) assms(1) by (simp add: get_state_def get_ready_def e_def demo_env_def q_def number_request_def demo_download_def
          new_request_def healthy_disk_def reliable_def is_valid_filename_def open_read_def join_path_def two_lines_def)
  qed (use g get_budget_keeps [OF g] w1 in \<open>simp_all add: q_def number_request_def demo_download_def new_request_def
      wire_def\<close>)
qed

section \<open>Properties\<close>

lemma orderly_held_allowed:
  assumes "orderly_run e metrics_out allowed0 (server_start n c w) tr0 s0" "sv_workers s0 \<noteq> []"
    and "\<forall>x. x \<in># held_requests s0 \<and> op x = PUT \<longrightarrow> allowed (filename x)"
  shows "iso_inv allowed s0"
proof -
  have "0 < n"
    using run_lengths [OF orderly_run_server [OF assms(1)]] assms(2) by (cases "0 < n") (auto simp: server_start_def)
  from iso_inv_run [OF assms(1) iso_inv_start [OF this]] assms(3) show ?thesis by (auto simp: iso_inv_def)
qed

text \<open>What a worker serves is the tracked request with the budget of its next round.\<close>

lemma served_is_paused:
  assumes "orderly_run e metrics_out allowed0 (server_start n c w) tr0 s0" "r \<in> set (q_items (sv_queue s0))"
    and "\<forall>x. x \<in># held_requests s0 \<and> op x = PUT \<longrightarrow> allowed (filename x)" "unshared allowed r"
    and "orderly_run e metrics_out allowed s0 tr s" "i < length (sv_workers s)"
    and "sv_workers s ! i = W_serving (r', b)" "request_id r' = request_id r"
  obtains r1 where "paused e r (sv_world s0) (sv_world s) r1" "get_budget (we_sched e) r1 = (b, r')"
proof -
  have "sv_workers s0 \<noteq> []" using run_lengths [OF orderly_run_server [OF assms(5)]] assms(6) by auto
  with assms(1,3) have inv: "iso_inv allowed s0" by (intro orderly_held_allowed)
  have "tracked e r (sv_world s0) s"
    using assms(5) inv assms(4) tracked_start [OF inv assms(2)] by (rule tracked_run)
  then have "tracked_phase e r (sv_world s0) (sv_world s) (W_serving (r', b))"
    using assms(6,7) by (metis nth_mem tracked_def)
  then show ?thesis using assms(8) that by auto
qed

lemma queued_wf:
  "orderly_run e metrics_out allowed (server_start n c w) tr s \<Longrightarrow> r \<in> set (q_items (sv_queue s)) \<Longrightarrow> request_wf r"
  using server_run_wf [OF orderly_run_server] by (fastforce simp: requests_wf_def list_all_iff)





text \<open>
  C5. Concurrent downloads are delivered whole. Take a download that waits in the
  queue while no upload of its file is in the system, and any continuation of
  the run in which none is admitted. With any number of other clients and any
  interleaving, no round of it fails; it is requeued less often than its size
  divided by the pace of the policy; and when a round finishes it, its client
  has received the status line and exactly the contents of the file.
\<close>

theorem concurrent_downloads_complete:
  assumes "orderly_run e metrics_out allowed0 (server_start n c w) tr0 s0" and "r \<in> set (q_items (sv_queue s0))"
    and "\<forall>x. x \<in># held_requests s0 \<and> op x = PUT \<longrightarrow> filename x \<noteq> filename r" and "\<not> reserved (filename r)"
    and "get_state e contents r (sv_world s0)"
    and "offset r = 0" and "\<not> response_sent r" and "deficit r = 0" and "rounds r = 0"
    and "orderly_run e metrics_out (\<lambda>f. f \<noteq> filename r) s0 tr s" and "i < length (sv_workers s)"
    and "sv_workers s ! i = W_serving (r', b)" and "request_id r' = request_id r"
    and "worker_process e (r', b) (sv_world s) = (out, w')"
  shows "(\<exists>r''. out = Requeued r'' \<and> unat (rounds r'') * pace e < length contents) \<or>
    (\<exists>r''. out = Finished r'' \<and> wire w' (client_fd r) =
       wire (sv_world s0) (client_fd r) @ ok_line (of_nat (length contents)) @ contents)"
proof -
  let ?w0 = "sv_world s0"
  have st: "op r = GET" "total_bytes r = of_nat (length contents)" "left r = length contents" "length contents < 2 ^ 64"
    using assms(5,6) of_nat_unat_u64 [of "total_bytes r"] unat_lt_u64 [of "total_bytes r"]
    by (auto simp: get_state_def get_ready_def left_def)
  have own: "own_path e r = join_path (we_dir e) (filename r)" "unshared (\<lambda>f. f \<noteq> filename r) r"
    using st(1) assms(4) by (simp_all add: own_path_def own_name_def unshared_def)
  have pos: "0 < pace e"
    using assms(5) by (auto simp: get_state_def pace_def word_less_nat_alt split: scheduling_policy.splits)
  obtain r1 where "paused e r ?w0 (sv_world s) r1" "get_budget (we_sched e) r1 = (b, r')"
    by (rule served_is_paused [OF assms(1-3) own(2) assms(10-13)])
  from paused_round [OF this assms(14)] obtain others where o: "others \<noteq> []"
    "list_all (calm (join_path (we_dir e) (filename r)) (client_fd r)) others" "transfer e others r ?w0 = (out, w')"
    unfolding own(1) by blast
  have "\<exists>r' w'. transfer e xs r ?w0 = (Finished r', w') \<and>
      wire w' (client_fd r) = wire ?w0 (client_fd r) @ ok_line (of_nat (length contents)) @ contents"
    if "list_all (calm (join_path (we_dir e) (filename r)) (client_fd r)) xs" "xs \<noteq> []"
      "length contents \<le> length xs * pace e" for xs
    using get_transfer [OF assms(5) that(1,2)] that(3) st assms(6-8) by (simp add: get_header_def credit_def)
  from calm_rounds_settle [OF this o queued_wf [OF assms(1,2)] assms(9) st(4) pos] show ?thesis .
qed

theorem concurrent_downloads_complete_witness:
  "\<exists>w1 q' b out w'. worker_process (demo_env RR 2) (q', b) w1 = (out, w') \<and> request_id q' = 1 \<and>
     ((\<exists>r''. out = Requeued r'' \<and> unat (rounds r'') < 4) \<or>
      (\<exists>r''. out = Finished r'') \<and> wire w' 5 = ok_line 4 @ two_lines)"
proof -
  let ?e = "demo_env RR 2"
  obtain w1 q q' b where run: "orderly_run ?e ''m'' (\<lambda>f. f \<noteq> ''f'') (server_start 1 8 (demo_world [''d/f'' \<mapsto> two_lines] []))
        [E_accept 5, E_admit q] (demo_queued w1 q)"
      "orderly_run ?e ''m'' (\<lambda>f. f \<noteq> ''f'') (demo_queued w1 q) [] (demo_serving w1 q' b)"
    and st: "get_state ?e two_lines q w1" "wire w1 5 = []"
    and q: "q = number_request 1 w1 demo_download" "request_id q' = 1"
    by (rule demo_download_runs [of 2]) simp
  obtain out w' where o: "worker_process ?e (q', b) w1 = (out, w')" by fastforce
  have f: "filename q = ''f''" "request_id q = 1" "client_fd q = 5" "rounds q = 0" "op q = GET" "offset q = 0"
    "\<not> response_sent q" "deficit q = 0" "pace ?e = 1" "length two_lines = 4"
    by (simp_all add: q number_request_def demo_download_def new_request_def demo_env_def pace_def two_lines_def)
  from concurrent_downloads_complete [OF run(1) _ _ _ _ _ _ _ _ run(2) [folded f(1)], of two_lines 0 q' b out w'] st q f o
    demo_not_reserved
  show ?thesis by (simp add: demo_queued_simps) blast
qed

end
