(* ===== verification/Measurements.thy ===== *)
theory Measurements
  imports Concurrent_Transfers
begin

text \<open>
  The time stamps of the requests and of the metrics. The clock never goes back,
  a request is stamped when it is admitted, when its first round starts and when
  it has finished, and these stamps are in order in every row that the server
  records. The counter of nanoseconds has 64 bits; it is assumed not to have
  wrapped, which takes more than 500 years.
\<close>

section \<open>The clock never goes back\<close>

lemma commit_request_now: "commit_request e r w = (out, w') \<Longrightarrow> now w' = now w"
  by (auto simp: commit_request_def sys_rename_def Let_def split: if_splits option.splits)

lemma worker_process_now:
  assumes "request_wf r" "worker_process e (r, b) w = (out, w')"
  shows "now w \<le> now w'"
proof -
  obtain ok n r1 w1 where sr: "serve_round e b (stamp_start w r) w = (ok, n, r1, w1)" by (metis prod_cases4)
  have "now w \<le> now w1"
  proof (cases "op r")
    case GET
    with sr show ?thesis using serve_get_frame by (fastforce simp: serve_round_def)
  next
    case PUT
    with sr show ?thesis
      using serve_put_other [of _ _ b "stamp_start w r" "if offset r = 0 then send_response (client_fd r) 0 w else w" ok n r1 w1]
      by (auto simp: serve_round_def split: if_splits)
  qed (use assms(1) in \<open>simp add: request_wf_def\<close>)
  with assms(2) sr show ?thesis
    by (cases ok) (auto simp: worker_process_def Let_def sys_remove_def dest: commit_request_now split: if_splits)
qed

lemma parse_connection_now: "parse_connection dir fd w = (v, w') \<Longrightarrow> now w \<le> now w'"
  using read_header_loop_frame by (fastforce simp: parse_connection_def read_header_line_def split: prod.splits)

lemma close_socket_now [simp]: "now (close_socket fd w) = now w"
  by (simp add: close_socket_def sys_close_def)

lemma write_csv_now: "write_csv d p records w = (b, w') \<Longrightarrow> now w' = now w"
  by (auto simp: write_csv_def open_trunc_def stream_write_def Let_def split: option.splits if_splits)

lemma server_step_now:
  assumes "server_step e metrics_out s evs s'" "requests_wf s"
  shows "now (sv_world s) \<le> now (sv_world s')"
  using assms(1)
proof (cases rule: server_step.cases)
  case (step_select ev)
  then show ?thesis
    by (auto simp: acceptor_select_def acceptor_retry_def acceptor_exit_def Let_def
        split: accept_event.splits if_splits prod.splits bool.splits)
next
  case (step_parser i ph s1)
  then show ?thesis
    by (auto simp: parser_step_def refuse_def answer_health_def admit_request_def
        dest: parse_connection_now
        split: parser_phase.splits parser_verdict.splits pop_result.splits prod.splits if_splits bool.splits)
next
  case (step_worker i ph s1)
  have "\<forall>r b. sv_workers s ! i = W_serving (r, b) \<longrightarrow> request_wf r"
    using assms(2) nth_mem [OF step_worker(2)] by (force simp: requests_wf_def)
  with step_worker show ?thesis
    by (auto simp: worker_step_def worker_finish_def dest: worker_process_now
        split: worker_phase.splits pop_result.splits prod.splits worker_outcome.splits)
next
  case step_main
  have "now (snd (write_csv d p m w)) = now w" for d p m w by (metis prod.collapse write_csv_now)
  with step_main show ?thesis by (auto simp: main_step_def split: main_phase.splits if_splits)
qed (auto simp: handle_signal_def acceptor_check_def acceptor_exit_def)

section \<open>Stamps in order\<close>

text \<open>The stamps of a request that is under way, and of one that has finished.\<close>

definition timed :: "nat \<Rightarrow> request \<Rightarrow> bool" where
  "timed t r \<longleftrightarrow> unat (arrival_ns r) \<le> t \<and>
     (start_ns r = 0 \<or> arrival_ns r \<le> start_ns r \<and> unat (start_ns r) \<le> t)"

definition timed_row :: "nat \<Rightarrow> request_metrics \<Rightarrow> bool" where
  "timed_row t m \<longleftrightarrow> m_arrival_ns m \<le> m_start_ns m \<and> m_start_ns m \<le> m_finish_ns m \<and> unat (m_finish_ns m) \<le> t"

fun timed_outcome :: "nat \<Rightarrow> worker_outcome \<Rightarrow> bool" where
  "timed_outcome t (Failed r) \<longleftrightarrow> True"
| "timed_outcome t (Requeued r) \<longleftrightarrow> timed t r"
| "timed_outcome t (Finished r) \<longleftrightarrow> timed_row t (metrics_of r)"

fun timed_worker :: "nat \<Rightarrow> worker_phase \<Rightarrow> bool" where
  "timed_worker t (W_serving (r, b)) \<longleftrightarrow> timed t r"
| "timed_worker t (W_returning out) \<longleftrightarrow> timed_outcome t out"
| "timed_worker t _ \<longleftrightarrow> True"

fun timed_parser :: "nat \<Rightarrow> parser_phase \<Rightarrow> bool" where
  "timed_parser t (P_checked fd (Admitted r)) \<longleftrightarrow> start_ns r = 0"
| "timed_parser t (P_numbered fd r) \<longleftrightarrow> timed t r"
| "timed_parser t _ \<longleftrightarrow> True"

definition timed_state :: "server_state \<Rightarrow> bool" where
  "timed_state s \<longleftrightarrow> (let t = now (sv_world s) in
     list_all (timed t) (q_items (sv_queue s)) \<and> list_all (timed_worker t) (sv_workers s) \<and>
     list_all (timed_parser t) (sv_parsers s) \<and> list_all (timed_row t) (sv_metrics s))"

lemma timed_mono: "timed t r \<Longrightarrow> t \<le> t' \<Longrightarrow> timed t' r"
  by (auto simp: timed_def)

lemma timed_row_mono: "timed_row t m \<Longrightarrow> t \<le> t' \<Longrightarrow> timed_row t' m"
  by (auto simp: timed_row_def)

lemma timed_outcome_mono: "timed_outcome t out \<Longrightarrow> t \<le> t' \<Longrightarrow> timed_outcome t' out"
  by (cases out) (auto intro: timed_mono timed_row_mono)

lemma timed_worker_mono: "timed_worker t ph \<Longrightarrow> t \<le> t' \<Longrightarrow> timed_worker t' ph"
  by (cases "(t, ph)" rule: timed_worker.cases) (auto intro: timed_mono timed_outcome_mono)

lemma timed_parser_mono: "timed_parser t ph \<Longrightarrow> t \<le> t' \<Longrightarrow> timed_parser t' ph"
  by (cases "(t, ph)" rule: timed_parser.cases) (auto intro: timed_mono)

lemma unat_monotonic: "now w < 2 ^ 64 \<Longrightarrow> unat (monotonic_ns w) = now w"
  by (simp add: monotonic_ns_now unat_of_nat_u64)

text \<open>The first stamp of a round is not before the arrival.\<close>

lemma timed_start:
  assumes "timed (now w) r" "now w < 2 ^ 64"
  shows "arrival_ns (stamp_start w r) \<le> start_ns (stamp_start w r)" "unat (start_ns (stamp_start w r)) \<le> now w"
    "arrival_ns (stamp_start w r) = arrival_ns r"
  using assms unat_monotonic [OF assms(2)] by (auto simp: timed_def stamp_start_def word_le_nat_alt)

lemma settle_stamps [simp]:
  "arrival_ns (settle_round e b n r) = arrival_ns r" "start_ns (settle_round e b n r) = start_ns r"
  by (simp_all add: settle_round_def account_def Let_def split: scheduling_policy.splits)

lemma serve_round_stamps:
  assumes "request_wf r" "serve_round e b r w = (ok, n, r1, w1)"
  shows "arrival_ns r1 = arrival_ns r \<and> start_ns r1 = start_ns r"
proof (cases "op r")
  case GET
  then have "serve_get (we_disk e) (we_dir e) b (policy (we_sched e) = RR) (we_packetization e) r w = (ok, n, r1, w1)"
    using assms(2) by (simp add: serve_round_def)
  from serve_get_keeps [OF this] show ?thesis by simp
next
  case PUT
  then have "serve_put (we_disk e) (we_dir e) b r (if offset r = 0 then send_response (client_fd r) 0 w else w) = (ok, n, r1, w1)"
    using assms(2) by (simp add: serve_round_def)
  from serve_put_request [OF this] show ?thesis by simp
qed (use assms(1) in \<open>simp add: request_wf_def\<close>)

lemma commit_request_timed:
  assumes "commit_request e r w = (out, w')" "now w < 2 ^ 64" "arrival_ns r \<le> start_ns r" "unat (start_ns r) \<le> now w"
  shows "timed_outcome (now w') out"
proof -
  have t: "now w' = now w" using assms(1) by (rule commit_request_now)
  have u: "unat (monotonic_ns v) = now w" if "now v = now w" for v
    using that assms(2) unat_monotonic [of v] by simp
  have "timed_row (now w) (metrics_of (stamp_finish v r))" if "now v = now w" for v
    using assms(3,4) u [OF that] by (simp add: timed_row_def metrics_of_def stamp_finish_def word_le_nat_alt)
  with assms(1) show ?thesis
    unfolding t by (auto simp: commit_request_def sys_rename_def Let_def split: if_splits option.splits)
qed

lemma worker_process_timed:
  assumes "request_wf r" "timed (now w) r" "worker_process e (r, b) w = (out, w')" "now w' < 2 ^ 64"
  shows "timed_outcome (now w') out"
proof -
  obtain ok n r1 w1 where sr: "serve_round e b (stamp_start w r) w = (ok, n, r1, w1)" by (metis prod_cases4)
  have mono: "now w \<le> now w'" using assms(1,3) by (rule worker_process_now)
  note st = timed_start [OF assms(2)]
  have r1: "arrival_ns r1 \<le> start_ns r1" "unat (start_ns r1) \<le> now w" "arrival_ns r1 = arrival_ns r"
    using serve_round_stamps [OF _ sr] assms(1,4) mono st by simp_all
  show ?thesis
  proof (cases ok)
    case True
    let ?r2 = "settle_round e b n r1"
    show ?thesis
    proof (cases "should_requeue ?r2")
      case req: True
      with True sr assms(3) have "out = Requeued ?r2" by (simp add: worker_process_def Let_def)
      with r1 mono assms(2) show ?thesis by (simp add: timed_def)
    next
      case False
      with True sr assms(3) have c: "commit_request e ?r2 w1 = (out, w')" by (simp add: worker_process_def Let_def)
      have "now w \<le> now w1"
        using mono commit_request_now [OF c] by simp
      with c show ?thesis
        by (rule_tac commit_request_timed [OF c]) (use r1 assms(4) commit_request_now [OF c] in simp_all)
    qed
  qed (use sr assms(3) in \<open>auto simp: worker_process_def\<close>)
qed

lemma parse_connection_start: "parse_connection dir fd w = (Admitted r, w') \<Longrightarrow> start_ns r = 0"
proof -
  have words: "request_of_words fd ws = Inr r \<Longrightarrow> start_ns r = 0" for ws r
    by (cases "(fd, ws)" rule: request_of_words.cases)
       (auto simp: Let_def new_request_def split: if_splits list.splits)
  have "parse_request_header h fd = Inr r \<Longrightarrow> start_ns r = 0" for h r
    by (simp add: parse_header_words words split: if_splits)
  then show "parse_connection dir fd w = (Admitted r, w') \<Longrightarrow> start_ns r = 0"
    by (auto simp: parse_connection_def Let_def split: prod.splits if_splits sum.splits)
qed

lemma list_all_update: "list_all P xs \<Longrightarrow> P y \<Longrightarrow> list_all P (xs[i := y])"
  by (auto simp: list_all_iff dest: done_update)

lemma timed_state_mono:
  assumes "timed_state s" "now (sv_world s) \<le> t"
  shows "list_all (timed t) (q_items (sv_queue s))" "list_all (timed_worker t) (sv_workers s)"
    "list_all (timed_parser t) (sv_parsers s)" "list_all (timed_row t) (sv_metrics s)"
  using assms by (auto simp: timed_state_def Let_def list_all_iff intro: timed_mono timed_worker_mono
      timed_parser_mono timed_row_mono)

lemma timed_parser_step:
  assumes "parser_step e ph0 s = Some (ph, s', evs)" "timed_parser (now (sv_world s)) ph0" "now (sv_world s') < 2 ^ 64"
    and "list_all (timed (now (sv_world s))) (q_items (sv_queue s))"
  shows "timed_parser (now (sv_world s')) ph \<and> sv_workers s' = sv_workers s \<and> sv_parsers s' = sv_parsers s \<and>
    sv_metrics s' = sv_metrics s \<and> (\<forall>r \<in> set (q_items (sv_queue s')) - set (q_items (sv_queue s)). timed (now (sv_world s')) r)"
proof (cases ph0)
  case (P_checked fd v)
  have "timed (now (sv_world s)) (number_request (sv_next_id s) (sv_world s) r)" if "v = Admitted r" for r
    using that assms(1,2,3) P_checked unat_monotonic [of "sv_world s"]
    by (auto simp: parser_step_def timed_def number_request_def)
  with assms(1) P_checked show ?thesis by (cases v) (auto simp: parser_step_def)
next
  case (P_reading fd)
  obtain v w1 where p: "parse_connection (we_dir e) fd (sv_world s) = (v, w1)" by fastforce
  have "timed_parser t (P_checked fd v)" for t using parse_connection_start p by (cases v) auto
  with assms(1) P_reading p show ?thesis by (auto simp: parser_step_def)
next
  case (P_numbered fd r)
  then show ?thesis
    using assms(1,2) by (auto simp: parser_step_def admit_request_def push_def refuse_def
        split: prod.splits bool.splits if_splits)
qed (use assms(1) in \<open>auto simp: parser_step_def split: pop_result.splits\<close>)

lemma timed_worker_step:
  assumes "worker_step e ph0 s = Some (ph, s', evs)" "timed_worker (now (sv_world s)) ph0" "now (sv_world s') < 2 ^ 64"
    and "list_all request_wf (worker_holds ph0)" "list_all (timed (now (sv_world s))) (q_items (sv_queue s))"
  shows "timed_worker (now (sv_world s')) ph \<and>
    (\<forall>r \<in> set (q_items (sv_queue s')) - set (q_items (sv_queue s)). timed (now (sv_world s')) r) \<and>
    (\<forall>m \<in> set (sv_metrics s') - set (sv_metrics s). timed_row (now (sv_world s')) m)"
proof (cases ph0)
  case W_waiting
  show ?thesis
  proof (cases "scheduler_next (we_sched e) (sv_queue s)")
    case (Popped d q)
    obtain r b where d: "d = (r, b)" by fastforce
    with Popped obtain r0 where r0: "r0 \<in> set (q_items (sv_queue s))" "get_budget (we_sched e) r0 = (b, r)"
      "set (q_items q) \<subseteq> set (q_items (sv_queue s))" using scheduler_next_budget by metis
    obtain x where "r = r0\<lparr>deficit := x\<rparr>"
      using get_budget_only_deficit [of "we_sched e" r0] r0(2) by auto
    then have "timed t r = timed t r0" for t by (simp add: timed_def)
    with r0 assms(1,5) W_waiting Popped d show ?thesis by (auto simp: worker_step_def list_all_iff)
  qed (use assms(1) W_waiting in \<open>auto simp: worker_step_def\<close>)
next
  case (W_serving d)
  obtain r b where d: "d = (r, b)" by fastforce
  obtain out w1 where p: "worker_process e (r, b) (sv_world s) = (out, w1)" by fastforce
  have "timed_outcome (now w1) out"
    by (rule worker_process_timed [OF _ _ p]) (use assms W_serving d p in \<open>auto simp: worker_step_def\<close>)
  with assms(1) W_serving d p show ?thesis by (auto simp: worker_step_def)
next
  case (W_returning out)
  with assms(1,2) show ?thesis
    by (cases out) (auto simp: worker_step_def worker_finish_def requeue_def Request_Queue.complete_def metrics_record_def)
qed (use assms(1) in \<open>simp add: worker_step_def\<close>)

lemma timed_state_intro:
  assumes "timed_state s" "now (sv_world s) \<le> now (sv_world s')"
    and "\<forall>r \<in> set (q_items (sv_queue s')) - set (q_items (sv_queue s)). timed (now (sv_world s')) r"
    and "\<forall>ph \<in> set (sv_workers s') - set (sv_workers s). timed_worker (now (sv_world s')) ph"
    and "\<forall>ph \<in> set (sv_parsers s') - set (sv_parsers s). timed_parser (now (sv_world s')) ph"
    and "\<forall>m \<in> set (sv_metrics s') - set (sv_metrics s). timed_row (now (sv_world s')) m"
  shows "timed_state s'"
  using timed_state_mono [OF assms(1,2)] assms(3-6) unfolding timed_state_def Let_def list_all_iff by blast

lemma timed_state_step:
  assumes "server_step e metrics_out s evs s'" "timed_state s" "requests_wf s" "now (sv_world s') < 2 ^ 64"
  shows "timed_state s'"
proof -
  have mono: "now (sv_world s) \<le> now (sv_world s')" using assms(1,3) by (rule server_step_now)
  note st = timed_state_mono [OF assms(2) order_refl]
  show ?thesis
    using assms(1)
  proof (cases rule: server_step.cases)
    case (step_select ev)
    then show ?thesis
      using mono by (intro timed_state_intro [OF assms(2)])
        (auto simp: acceptor_select_def acceptor_retry_def acceptor_exit_def Let_def
          split: accept_event.splits if_splits prod.splits bool.splits)
  next
    case (step_parser i ph s1)
    have "timed_parser (now (sv_world s)) (sv_parsers s ! i)" using st(3) step_parser(2) by (simp add: list_all_length)
    from timed_parser_step [OF step_parser(3) this _ st(1)] assms(4) step_parser(1) show ?thesis
      using mono by (intro timed_state_intro [OF assms(2)]) (auto dest: done_update)
  next
    case (step_worker i ph s1)
    have "timed_worker (now (sv_world s)) (sv_workers s ! i)" "list_all request_wf (worker_holds (sv_workers s ! i))"
      using st(2) assms(3) step_worker(2) by (simp_all add: list_all_length requests_wf_def)
    from timed_worker_step [OF step_worker(3) this(1) _ this(2) st(1)] assms(4) step_worker(1)
      worker_step_same [OF step_worker(3)] show ?thesis
      using mono by (intro timed_state_intro [OF assms(2)]) (auto dest: done_update)
  next
    case step_main
    then show ?thesis
      using mono by (intro timed_state_intro [OF assms(2)])
        (auto simp: main_step_def close_queue_def split: main_phase.splits if_splits)
  qed (use mono in \<open>intro timed_state_intro [OF assms(2)]; auto simp: handle_signal_def acceptor_check_def acceptor_exit_def\<close>)+
qed

lemma timed_run:
  assumes "server_run e metrics_out (server_start n c w) tr s" "now (sv_world s) < 2 ^ 64"
  shows "timed_state s"
  using assms
proof (induction rule: server_run.induct)
  case run_start
  then show ?case by (simp add: timed_state_def server_start_def empty_queue_def list_all_iff)
next
  case (run_step tr s evs s')
  have wf: "requests_wf s" using server_run_wf [OF run_step(1)] by simp
  from server_step_now [OF run_step(2) wf] run_step(4) have "now (sv_world s) < 2 ^ 64" by simp
  from timed_state_step [OF run_step(2) run_step.IH [OF this] wf run_step(4)] show ?case .
qed

section \<open>Properties\<close>

text \<open>
  C25. The measurements are coherent: in every run, in every row the server has
  recorded, the request arrived before its first round started, and started
  before it finished, so that the waiting and response times in the summary are
  the true differences of the stamps, never the zero that stands for a negative
  difference, and the waiting time is part of the response time.
\<close>

theorem metrics_in_order:
  assumes "server_run e metrics_out (server_start n c w) tr s" and "now (sv_world s) < 2 ^ 64" and "row \<in> set (sv_metrics s)"
  shows "m_arrival_ns row \<le> m_start_ns row \<and> m_start_ns row \<le> m_finish_ns row \<and>
    unat (waiting_ns row) = unat (m_start_ns row) - unat (m_arrival_ns row) \<and>
    unat (response_ns row) = unat (waiting_ns row) + (unat (m_finish_ns row) - unat (m_start_ns row))"
proof -
  have r: "m_arrival_ns row \<le> m_start_ns row" "m_start_ns row \<le> m_finish_ns row"
    using timed_run [OF assms(1,2)] assms(3) by (auto simp: timed_state_def Let_def list_all_iff timed_row_def)
  then have "m_arrival_ns row \<le> m_finish_ns row" by simp
  with r show ?thesis by (simp add: waiting_ns_def response_ns_def unat_diff_u64 word_le_nat_alt)
qed

lemma server_run_trans:
  assumes "server_run e m s tr' s'" "server_run e m s0 tr s"
  shows "server_run e m s0 (tr @ tr') s'"
  using assms(1)
proof (induction rule: server_run.induct)
  case (run_step tr1 s1 evs s2)
  then show ?case using server_run.run_step [OF run_step.IH run_step.hyps(2)] by simp
qed (simp add: assms(2))

text \<open>The run of one download, up to the row it leaves behind.\<close>

lemma get_process_now:
  assumes "worker_process e (r, b) w = (out, w')" "op r = GET"
  shows "now w' = now w"
proof -
  obtain ok n r1 v where sr: "serve_round e b (stamp_start w r) w = (ok, n, r1, v)" by (metis prod_cases4)
  then have sg: "serve_get (we_disk e) (we_dir e) b (policy (we_sched e) = RR) (we_packetization e)
      (stamp_start w r) w = (ok, n, r1, v)" using assms(2) by (simp add: serve_round_def)
  have "now v = now w" "op r1 = GET" using serve_get_frame [OF sg] serve_get_keeps(5) [OF sg] assms(2) by simp_all
  with assms(1) sr show ?thesis
    by (cases ok) (auto simp: worker_process_def Let_def commit_request_def sys_remove_def split: if_splits)
qed

lemma demo_recorded:
  obtains s tr row where
    "server_run (demo_env RR 4) ''m'' (server_start 1 8 (demo_world [''d/f'' \<mapsto> two_lines] [])) tr s"
    "sv_metrics s = [row]" "m_filename row = ''f''" "now (sv_world s) < 2 ^ 64"
proof -
  let ?e = "demo_env RR 4"
  obtain w1 q q' b where run: "orderly_run ?e ''m'' (\<lambda>f. f \<noteq> ''f'') (server_start 1 8 (demo_world [''d/f'' \<mapsto> two_lines] []))
        [E_accept 5, E_admit q] (demo_queued w1 q)"
      "orderly_run ?e ''m'' (\<lambda>f. f \<noteq> ''f'') (demo_queued w1 q) [] (demo_serving w1 q' b)"
    and st: "get_state ?e two_lines q w1" and q: "q = number_request 1 w1 demo_download"
    and g: "get_budget (we_sched ?e) q = (b, q')" and t: "now w1 < 2 ^ 64"
    by (rule demo_download_runs [of 4]) simp
  have wf: "request_wf q'"
    using get_budget_keeps [OF g] by (subst request_wf_cong [of q' q])
      (simp_all add: q number_request_def demo_download_def new_request_def request_wf_def is_valid_filename_def)
  have f: "offset q = 0" "left q = 4" "policy (we_sched ?e) = RR" "filename q = ''f''" "op q' = GET"
    using get_budget_keeps [OF g]
    by (simp_all add: q number_request_def demo_download_def new_request_def left_def demo_env_def)
  have "unat (fst (get_budget (we_sched ?e) q)) = 4"
    by (simp add: q number_request_def demo_download_def new_request_def get_budget_def remaining_bytes_def demo_env_def Let_def)
  then have b: "unat b = 4" using g by simp
  have B: "length (get_round 4 True two_lines) = 4"
    by (simp add: get_round_def round_lines_def oversized_def two_lines_def lines_of.simps first_line_def newline_def)
  obtain r2 w2 where p: "worker_process ?e (q', b) w1 = (Finished (stamp_finish w2 r2), w2)" "filename r2 = ''f''"
    by (rule get_process [OF st g]) (use f b B in \<open>auto\<close>)
  let ?s1 = "demo_serving w1 q' b"
  let ?s2 = "?s1\<lparr>sv_world := w2, sv_workers := [W_returning (Finished (stamp_finish w2 r2))]\<rparr>"
  let ?s3 = "?s2\<lparr>sv_queue := Request_Queue.complete (sv_queue ?s2), sv_metrics := [metrics_of (stamp_finish w2 r2)],
    sv_world := close_socket (client_fd r2) w2, sv_workers := [W_waiting]\<rparr>"
  note defs = demo_serving_def server_start_def worker_step_def
  have step: "server_step ?e ''m'' s evs s'" if "sv_workers s = [ph0]" "worker_step ?e ph0 s = Some (ph, s1, evs)"
    "s' = s1\<lparr>sv_workers := (sv_workers s1)[0 := ph]\<rparr>" for s s1 s' evs ph0 ph
    unfolding that(3) by (rule step_worker) (simp_all add: that)
  have "server_step ?e ''m'' ?s1 [] ?s2"
    by (rule step) (simp add: defs, simp add: defs p(1), simp add: defs)
  moreover have "server_step ?e ''m'' ?s2 [E_end (stamp_finish w2 r2), E_close (client_fd (stamp_finish w2 r2))] ?s3"
    by (rule step) (simp, simp add: defs worker_finish_def metrics_record_def, simp add: defs)
  ultimately have "\<exists>tr. server_run ?e ''m'' (server_start 1 8 (demo_world [''d/f'' \<mapsto> two_lines] [])) tr ?s3"
    using run_step [OF run_step [OF server_run_trans [OF orderly_run_server [OF run(2)] orderly_run_server [OF run(1)]]]]
    by blast
  moreover have "now w2 < 2 ^ 64" using get_process_now [OF p(1) f(5)] t by simp
  ultimately show ?thesis using p(2) by (auto intro: that simp: metrics_of_def)
qed

theorem metrics_in_order_witness:
  "\<exists>s tr row. server_run (demo_env RR 4) ''m'' (server_start 1 8 (demo_world [''d/f'' \<mapsto> two_lines] [])) tr s \<and>
     sv_metrics s = [row] \<and> m_filename row = ''f'' \<and> m_arrival_ns row \<le> m_start_ns row \<and> m_start_ns row \<le> m_finish_ns row"
proof -
  obtain s tr row where s: "server_run (demo_env RR 4) ''m'' (server_start 1 8 (demo_world [''d/f'' \<mapsto> two_lines] [])) tr s"
      "sv_metrics s = [row]" "m_filename row = ''f''" "now (sv_world s) < 2 ^ 64"
    by (rule demo_recorded)
  from metrics_in_order [OF s(1,4), of row] s show ?thesis by auto
qed

end
