(* ===== verification/Percentiles.thy ===== *)
theory Percentiles
  imports Metrics
begin

text \<open>
  The percentiles of the summary. \<^verbatim>\<open>nearest_rank\<close> computes the rank in double
  precision, with a factor that is itself rounded; the theory bounds the rounding
  errors and shows that the rank is nevertheless the exact one, so that the
  number printed is the percentile by its definition on the list of values.
\<close>

section \<open>Rounding to nearest\<close>

lemma round_half_even_error: "\<bar>of_int (round_half_even x) - x\<bar> \<le> 1 / 2"
proof -
  have "of_int \<lfloor>x\<rfloor> \<le> x" "x < of_int \<lfloor>x\<rfloor> + 1" by linarith+
  then show ?thesis by (auto simp: round_half_even_def Let_def abs_le_iff)
qed

lemma round_half_even_le: "x \<le> of_int i \<Longrightarrow> round_half_even x \<le> i"
proof -
  assume x: "x \<le> of_int i"
  have "\<lfloor>x\<rfloor> \<le> i" using x by linarith
  moreover have "\<lfloor>x\<rfloor> = i \<Longrightarrow> x = of_int i" using x by linarith
  ultimately show ?thesis by (cases "\<lfloor>x\<rfloor> = i") (auto simp: round_half_even_def Let_def)
qed

lemma round_half_even_ge: "of_int i \<le> x \<Longrightarrow> i \<le> round_half_even x"
proof -
  assume "of_int i \<le> x"
  then have "i \<le> \<lfloor>x\<rfloor>" by linarith
  then show ?thesis by (auto simp: round_half_even_def Let_def)
qed

lemma bitlen_between:
  assumes "0 < (n :: int)"
  shows "2 powi (bitlen n - 1) \<le> (of_int n :: rat)" "(of_int n :: rat) < 2 powi (bitlen n)"
proof -
  have b: "2 ^ nat (bitlen n - 1) \<le> n" "n < 2 ^ nat (bitlen n)" "0 < bitlen n"
    using bitlen_bounds [OF assms] bitlen_nonneg [of n] bitlen_eq_zero_iff [of n] assms by auto
  have "2 powi (bitlen n - 1) = (of_int (2 ^ nat (bitlen n - 1)) :: rat)"
    "2 powi (bitlen n) = (of_int (2 ^ nat (bitlen n)) :: rat)"
    using b(3) by (simp_all add: power_int_def)
  then show "2 powi (bitlen n - 1) \<le> (of_int n :: rat)" "(of_int n :: rat) < 2 powi (bitlen n)"
    using b(1,2) by (simp_all only: of_int_le_iff of_int_less_iff)
qed

lemma binary_exponent_bounds:
  assumes "0 < x"
  shows "2 powi (binary_exponent x) \<le> x" "x < 2 powi (binary_exponent x + 1)"
proof -
  obtain p q where pq: "quotient_of x = (p, q)" by fastforce
  have x: "x = of_int p / of_int q" "0 < q" using quotient_of_div [OF pq] quotient_of_denom_pos [OF pq] by auto
  with assms have "0 < p" by (simp add: zero_less_divide_iff)
  note p = bitlen_between [OF this] and q = bitlen_between [OF x(2)]
  define k where "k = bitlen p - bitlen q"
  have q0: "0 < (of_int q :: rat)" using x(2) by simp
  have "x < 2 powi (bitlen p) / 2 powi (bitlen q - 1)" unfolding x(1)
    using p(2) q(1) q0 \<open>0 < p\<close> by (intro frac_less) simp_all
  also have "\<dots> = 2 powi (bitlen p - (bitlen q - 1))" by (simp add: power_int_diff)
  also have "bitlen p - (bitlen q - 1) = k + 1" by (simp add: k_def)
  finally have up: "x < 2 powi (k + 1)" .
  have "2 powi (k - 1) = 2 powi (bitlen p - 1) / (2 powi (bitlen q) :: rat)"
    unfolding k_def by (subst power_int_diff [symmetric]) (simp_all add: algebra_simps)
  also have "\<dots> \<le> x" unfolding x(1) using p(1) q(2) q0 \<open>0 < p\<close> by (intro frac_le) simp_all
  finally have low: "2 powi (k - 1) \<le> x" .
  have e: "binary_exponent x = (if 2 powi k \<le> x then k else k - 1)"
    by (simp add: binary_exponent_def pq k_def)
  show "2 powi (binary_exponent x) \<le> x" "x < 2 powi (binary_exponent x + 1)"
    using up low by (auto simp: e)
qed

text \<open>
  Rounding to double: the error is at most half a unit in the last place, and a
  number on one side of an integer of at most 53 bits stays on that side.
\<close>

lemma double_round_unfold:
  assumes "0 < x"
  obtains ulp where "0 < ulp" "ulp * 2 ^ 52 \<le> x" "double_round x = of_int (round_half_even (x / ulp)) * ulp"
    "x < 2 ^ 53 \<Longrightarrow> \<exists>k. of_nat m / ulp = (of_int k :: rat)"
proof -
  let ?e = "binary_exponent x"
  define ulp where "ulp = (2 powi (?e - 52) :: rat)"
  note b = binary_exponent_bounds [OF assms]
  have "ulp * 2 ^ 52 = 2 powi ?e" by (simp add: ulp_def power_int_diff)
  then have low: "ulp * 2 ^ 52 \<le> x" using b(1) by simp
  have int: "\<exists>k. of_nat m / ulp = (of_int k :: rat)" if "x < 2 ^ 53"
  proof -
    have "(2 powi ?e :: rat) < 2 powi 53" using b(1) that by simp
    then have "?e < 53" using power_int_increasing [of 53 ?e "2 :: rat"] by (cases "53 \<le> ?e") auto
    then have "1 / ulp = (2 ^ nat (52 - ?e) :: rat)" by (simp add: ulp_def power_int_def field_simps)
    then have "of_nat m / ulp = (of_int (int m * 2 ^ nat (52 - ?e)) :: rat)"
      by (metis divide_inverse inverse_eq_divide of_int_mult of_int_numeral of_int_of_nat_eq of_int_power)
    then show ?thesis ..
  qed
  have "double_round x = of_int (round_half_even (x / ulp)) * ulp"
    using assms by (simp add: double_round_def ulp_def Let_def)
  from that [OF _ low this int] show ?thesis by (simp add: ulp_def)
qed

lemma double_round_error:
  assumes "0 < x"
  shows "\<bar>double_round x - x\<bar> \<le> x / 2 ^ 53"
proof -
  obtain ulp where u: "0 < ulp" "ulp * 2 ^ 52 \<le> x" "double_round x = of_int (round_half_even (x / ulp)) * ulp"
    using assms by (rule double_round_unfold)
  have "double_round x - x = (of_int (round_half_even (x / ulp)) - x / ulp) * ulp" using u(1,3) by (simp add: field_simps)
  then have "\<bar>double_round x - x\<bar> = \<bar>of_int (round_half_even (x / ulp)) - x / ulp\<bar> * ulp"
    using u(1) by (simp add: abs_mult)
  also have "\<dots> \<le> 1 / 2 * ulp" using round_half_even_error u(1) by (intro mult_right_mono) simp_all
  also have "\<dots> \<le> x / 2 ^ 53" using u(2) by simp
  finally show ?thesis .
qed

lemma double_round_side:
  assumes "0 < x" "x < 2 ^ 53"
  shows "x \<le> of_nat m \<Longrightarrow> double_round x \<le> of_nat m" "of_nat m \<le> x \<Longrightarrow> of_nat m \<le> double_round x"
proof -
  obtain ulp k where u: "0 < ulp" "double_round x = of_int (round_half_even (x / ulp)) * ulp"
    and k: "of_nat m / ulp = (of_int k :: rat)"
    using assms by (metis double_round_unfold)
  have m: "of_nat m = of_int k * ulp" using k u(1) by (simp add: field_simps)
  show "double_round x \<le> of_nat m" if "x \<le> of_nat m"
  proof -
    have "x / ulp \<le> of_int k" using that u(1) by (simp add: m field_simps)
    from round_half_even_le [OF this] u show ?thesis by (simp add: m)
  qed
  show "of_nat m \<le> double_round x" if "of_nat m \<le> x"
  proof -
    have "of_int k \<le> x / ulp" using that u(1) by (simp add: m field_simps)
    from round_half_even_ge [OF this] u show ?thesis by (simp add: m)
  qed
qed

lemma double_round_nat: "n < 2 ^ 53 \<Longrightarrow> double_round (of_nat n) = of_nat n"
proof (cases "n = 0")
  case False
  assume n: "n < 2 ^ 53"
  have "(of_nat n :: rat) < of_nat (2 ^ 53)" using n by (simp only: of_nat_less_iff)
  with False show ?thesis using double_round_side [of "of_nat n" n] by (intro order_antisym) simp_all
qed (simp add: double_round_def)

section \<open>The rank\<close>

text \<open>The two factors of the source; 0.99 is not a double, and is rounded down.\<close>

lemma double_half: "double_round (50 / 100) = 1 / 2"
  by code_simp

lemma double_99: "double_round (99 / 100) = 4458563631096791 / 4503599627370496"
  by code_simp

lemma exact_rank:
  fixes r :: rat
  assumes "0 < n" "n \<le> 2 ^ 46" "p \<le> 100" "0 < r" "r \<le> of_nat p / 100" "of_nat p / 100 - 1 / 2 ^ 56 \<le> r"
  shows "nat \<lceil>double_round (r * double_round (of_nat n))\<rceil> = (p * n + 99) div 100"
proof -
  define m where "m = (p * n + 99) div 100"
  define x where "x = r * of_nat n"
  have m: "p * n \<le> 100 * m" "100 * m < p * n + 100" by (simp_all add: m_def) 
  have mq: "of_nat p * of_nat n \<le> (100 * of_nat m :: rat)" "100 * of_nat m + 1 \<le> (of_nat p * of_nat n + 100 :: rat)"
    using m of_nat_mono [OF m(1), where 'a = rat] of_nat_mono [of "100 * m + 1" "p * n + 100", where 'a = rat] by simp_all
  have n: "(of_nat n :: rat) \<le> 2 ^ 46" using of_nat_mono [OF assms(2), where 'a = rat] by simp
  have r1: "r \<le> 1" using assms(3,5) by (simp add: field_simps)
  have x: "0 < x" "x \<le> of_nat n" using assms(1,4) r1 by (simp_all add: x_def)
  have xm: "x \<le> of_nat p * of_nat n / 100" "of_nat p * of_nat n / 100 - of_nat n / 2 ^ 56 \<le> x"
    using mult_right_mono [OF assms(5), of "of_nat n"] mult_right_mono [OF assms(6), of "of_nat n"]
    by (simp_all add: x_def left_diff_distrib)
  have "double_round x \<le> of_nat m"
    using x n xm(1) mq(1) by (intro double_round_side(1)) simp_all
  moreover have "x - x / 2 ^ 53 \<le> double_round x" using double_round_error [OF x(1)] by (simp only: abs_le_iff) linarith
  then have "x - x / 9007199254740992 \<le> double_round x" by simp
  moreover have "of_nat p * of_nat n / 100 - of_nat n / 72057594037927936 \<le> x" "of_nat n \<le> (70368744177664 :: rat)"
    using xm(2) n by simp_all
  ultimately have "double_round x \<le> of_nat m" "of_nat m - 1 < double_round x" using x(2) mq(2) by linarith+
  then have "\<lceil>double_round x\<rceil> = int m" by (intro ceiling_unique) simp_all
  moreover have "double_round (of_nat n) = of_nat n" using assms(2) by (intro double_round_nat) simp
  ultimately show ?thesis by (simp add: x_def m_def)
qed

text \<open>So the summary reads the value at the exact rank.\<close>

lemma nearest_rank_exact:
  assumes "values \<noteq> []" "length values \<le> 2 ^ 46" "p \<in> {50, 99}"
  shows "nearest_rank values (of_nat p) = sort values ! ((p * length values + 99) div 100 - 1)"
proof -
  let ?n = "length values" and ?r = "double_round (of_nat p / 100)"
  let ?k = "(p * ?n + 99) div 100"
  have rank: "nat \<lceil>double_round (?r * double_round (of_nat ?n))\<rceil> = ?k"
    by (rule exact_rank) (use assms double_half double_99 in \<open>auto\<close>)
  have "nearest_rank values (of_nat p) = sort values ! min (if ?k = 0 then 2 ^ 64 - 1 else ?k - 1) (?n - 1)"
    unfolding nearest_rank_def Let_def length_sort rank using assms(1) by (simp only: if_False)
  moreover have "0 < ?n" using assms(1) by simp
  then have "1 \<le> ?k" "?k \<le> ?n" using assms(3) by (elim insertE emptyE; simp; linarith)+
  ultimately show ?thesis by simp
qed

section \<open>Percentiles of a list\<close>

lemma sorted_below:
  assumes "sorted xs" "i < length xs"
  shows "i < length (filter (\<lambda>x. x \<le> xs ! i) xs)" "length (filter (\<lambda>x. x < xs ! i) xs) \<le> i"
proof -
  let ?v = "xs ! i"
  have xs: "xs = take (Suc i) xs @ drop (Suc i) xs" "xs = take i xs @ drop i xs" by simp_all
  have "\<forall>x \<in> set (take (Suc i) xs). x \<le> ?v"
    using assms by (auto simp: in_set_conv_nth less_Suc_eq_le sorted_iff_nth_mono)
  then have "filter (\<lambda>x. x \<le> ?v) (take (Suc i) xs) = take (Suc i) xs" by simp
  then have "Suc i \<le> length (filter (\<lambda>x. x \<le> ?v) xs)"
    using assms(2) by (subst xs(1)) (simp only: filter_append length_append, simp)
  then show "i < length (filter (\<lambda>x. x \<le> ?v) xs)" by simp
  have "\<forall>x \<in> set (drop i xs). \<not> x < ?v"
    using assms by (auto simp: in_set_conv_nth not_less sorted_iff_nth_mono)
  then have "filter (\<lambda>x. x < ?v) (drop i xs) = []" by (simp add: filter_empty_conv)
  then have "filter (\<lambda>x. x < ?v) xs = filter (\<lambda>x. x < ?v) (take i xs)" by (metis append.right_neutral filter_append xs(2))
  moreover have "length (filter (\<lambda>x. x < ?v) (take i xs)) \<le> length (take i xs)" by (rule length_filter_le)
  ultimately show "length (filter (\<lambda>x. x < ?v) xs) \<le> i" by simp
qed

lemma length_filter_sort: "length (filter P (sort xs)) = length (filter P xs)"
  by (metis mset_filter mset_sort size_mset)

section \<open>Properties\<close>

text \<open>
  C26. The percentiles of the summary are right, in spite of the rounding: the
  value reported for 50 or 99 per cent is one of the measured values, at least
  that share of the values is not greater, and less than that share is smaller.
  The rank is computed in double precision; it is exact for lists of up to
  \<open>2 ^ 46\<close> values.
\<close>

theorem nearest_rank_is_percentile:
  assumes "values \<noteq> []" and "length values \<le> 2 ^ 46" and "p \<in> {50, 99}"
  shows "nearest_rank values (of_nat p) \<in> set values \<and>
    p * length values \<le> 100 * length (filter (\<lambda>x. x \<le> nearest_rank values (of_nat p)) values) \<and>
    100 * length (filter (\<lambda>x. x < nearest_rank values (of_nat p)) values) < p * length values"
proof -
  let ?n = "length values" and ?k = "(p * length values + 99) div 100" and ?v = "nearest_rank values (of_nat p)"
  have "0 < ?n" using assms(1) by simp
  then have k: "1 \<le> ?k" "?k \<le> ?n" using assms(3) by (elim insertE emptyE; simp; linarith)+
  have v: "?v = sort values ! (?k - 1)" using assms by (rule nearest_rank_exact)
  have "?k - 1 < length (sort values)" using k by simp
  from sorted_below [OF _ this] have "?k - 1 < length (filter (\<lambda>x. x \<le> ?v) values)"
    "length (filter (\<lambda>x. x < ?v) values) \<le> ?k - 1"
    by (simp_all only: v length_filter_sort sorted_sort simp_thms)
  then have "?k \<le> length (filter (\<lambda>x. x \<le> ?v) values)" "length (filter (\<lambda>x. x < ?v) values) + 1 \<le> ?k"
    using k(1) by linarith+
  moreover have "p * ?n \<le> 100 * ?k" "100 * ?k < p * ?n + 100" by simp_all
  moreover have "?v \<in> set values" using nth_mem [OF \<open>?k - 1 < length (sort values)\<close>] by (simp add: v)
  ultimately show ?thesis using k(1) by linarith
qed

theorem nearest_rank_is_percentile_witness:
  "nearest_rank [30, 10, 20] 50 = 20 \<and> nearest_rank [30, 10, 20] 99 = 30"
proof -
  have "nearest_rank [30, 10, 20] (of_nat 50) \<in> set [30, 10, 20] \<and>
      50 * length [30, 10, 20 :: u64] \<le> 100 * length (filter (\<lambda>x. x \<le> nearest_rank [30, 10, 20] (of_nat 50)) [30, 10, 20]) \<and>
      100 * length (filter (\<lambda>x. x < nearest_rank [30, 10, 20] (of_nat 50)) [30, 10, 20]) < 50 * length [30, 10, 20 :: u64]"
    by (rule nearest_rank_is_percentile) simp_all
  moreover have "nearest_rank [30, 10, 20] (of_nat 99) \<in> set [30, 10, 20] \<and>
      99 * length [30, 10, 20 :: u64] \<le> 100 * length (filter (\<lambda>x. x \<le> nearest_rank [30, 10, 20] (of_nat 99)) [30, 10, 20]) \<and>
      100 * length (filter (\<lambda>x. x < nearest_rank [30, 10, 20] (of_nat 99)) [30, 10, 20]) < 99 * length [30, 10, 20 :: u64]"
    by (rule nearest_rank_is_percentile) simp_all
  ultimately show ?thesis by (auto split: if_splits)
qed

end
