(* ===== verification/Client.thy ===== *)
theory Client
  imports Json_Config Protocol "HOL-Library.Char_ord" "HOL-Library.List_Lexorder"
begin

text \<open>
  \<^verbatim>\<open>client.cpp\<close>: the command-line client. It runs in a world of its own, whose
  socket delivers what the server sends. An operation returns the exit status
  and the text it prints on its output stream; what it prints on the error
  stream is not modelled. The results of \<^verbatim>\<open>socket\<close>, \<^verbatim>\<open>inet_pton\<close> and
  \<^verbatim>\<open>connect\<close>, the entries of the workload directory and the choices of the
  random generator are parameters.
\<close>

section \<open>Connections\<close>

definition send_all_str :: "int \<Rightarrow> string \<Rightarrow> world \<Rightarrow> bool \<times> world" where
  "send_all_str sock data w = send_all sock data w"

text \<open>A socket and the fate of a connection attempt depend on the moment, that is on the world.\<close>

record client_net =
  cn_socket :: "world \<Rightarrow> int"
  cn_inet_pton_ok :: "string \<Rightarrow> bool"
  cn_connect_ok :: "world \<Rightarrow> string \<Rightarrow> nat \<Rightarrow> bool"

definition connect_to_server :: "client_net \<Rightarrow> config \<Rightarrow> world \<Rightarrow> int \<times> world" where
  "connect_to_server net cfg w =
     (let sock = cn_socket net w in
      if sock < 0 then (-1, w)
      else if \<not> cn_inet_pton_ok net (sc_ip (server_cfg cfg)) then (-1, sys_close sock w)
      else if \<not> cn_connect_ok net w (sc_ip (server_cfg cfg)) (nat (sc_port (server_cfg cfg) mod 65536))
      then (-1, sys_close sock w)
      else (sock, w))"

function status_loop :: "int \<Rightarrow> string \<Rightarrow> world \<Rightarrow> (string \<times> bytes) option \<times> world" where
  "status_loop sock line w =
     (if length line < 8192 then
        (case sys_recv sock 4096 w of
           (None, w1) \<Rightarrow> (None, w1)
         | (Some buffer, w1) \<Rightarrow>
             if buffer = [] then (None, w1)
             else (case scan_line line buffer of
                     (line1, Some leftover) \<Rightarrow> (Some (line1, leftover), w1)
                   | (line1, None) \<Rightarrow> status_loop sock line1 w1))
      else (None, w))"
  by pat_completeness auto
termination
  by (relation "measure (\<lambda>(sock, line, w). 8192 - length line)")
     (auto intro: diff_less_mono2 scan_line_grows)

declare status_loop.simps [simp del]

text \<open>\<^const>\<open>None\<close> is the result \<^verbatim>\<open>false\<close>.\<close>

definition read_status_line :: "int \<Rightarrow> world \<Rightarrow> (string \<times> bytes) option \<times> world" where
  "read_status_line sock w = status_loop sock [] w"

section \<open>Receiving a body\<close>

text \<open>Writing at the end of the output file, if there is one.\<close>

definition sink_write :: "disk \<Rightarrow> path option \<Rightarrow> u64 \<Rightarrow> bytes \<Rightarrow> world \<Rightarrow> bool \<times> world" where
  "sink_write d out received data w =
     (case out of None \<Rightarrow> (True, w) | Some p \<Rightarrow> stream_write d p (unat received) data w)"

function prefix_loop ::
  "disk \<Rightarrow> path option \<Rightarrow> u64 \<Rightarrow> bytes \<Rightarrow> nat \<Rightarrow> u64 \<Rightarrow> world \<Rightarrow> bool \<times> u64 \<times> world" where
  "prefix_loop d out n prefix prefix_off received w =
     (if received < n \<and> prefix_off < length prefix then
        (let chunk = min (unat (n - received)) (length prefix - prefix_off);
             data = take chunk (drop prefix_off prefix)
         in case sink_write d out received data w of
              (False, w1) \<Rightarrow> (False, received, w1)
            | (True, w1) \<Rightarrow>
                prefix_loop d out n prefix (prefix_off + chunk) (received + of_nat chunk) w1)
      else (True, received, w))"
  by pat_completeness auto
termination
proof (relation "measure (\<lambda>(d, out, n, prefix, off, received, w). length prefix - off)", goal_cases)
  case (2 d out n prefix off received w)
  then have "received < n" "off < length prefix" by auto
  then have "0 < unat (n - received)" by (metis less_irrefl right_minus_eq unat_gt_0)
  with \<open>off < length prefix\<close> 2 show ?case by auto
qed simp

function receive_loop ::
  "disk \<Rightarrow> path option \<Rightarrow> int \<Rightarrow> u64 \<Rightarrow> u64 \<Rightarrow> world \<Rightarrow> bool \<times> world" where
  "receive_loop d out sock n received w =
     (if received < n then
        (let chunk = min (unat (n - received)) 8192 in
         case sys_recv sock chunk w of
           (None, w1) \<Rightarrow> (False, w1)
         | (Some buffer, w1) \<Rightarrow>
             if buffer = [] then (False, w1)
             else (case sink_write d out received buffer w1 of
                     (False, w2) \<Rightarrow> (False, w2)
                   | (True, w2) \<Rightarrow> receive_loop d out sock n (received + of_nat (length buffer)) w2))
      else (True, w))"
  by pat_completeness auto
termination
proof (relation "measure (\<lambda>(d, out, sock, n, received, w). unat (n - received))", goal_cases)
  case (2 d out sock n received w chunk res w1 buffer b w2)
  then have le: "length buffer \<le> unat (n - received)" and ne: "buffer \<noteq> []"
    using sys_recv_length [of sock chunk w buffer w1] by auto
  then have u: "unat (of_nat (length buffer) :: u64) = length buffer"
    using unat_lt_u64 [of "n - received"] by (intro unat_of_nat_u64) simp
  with le have "(of_nat (length buffer) :: u64) \<le> n - received" by (simp add: word_le_nat_alt)
  then have "unat (n - received - of_nat (length buffer)) = unat (n - received) - length buffer"
    using u by (simp add: unat_diff_u64)
  moreover have "0 < length buffer" using ne by simp
  ultimately have "unat (n - received - of_nat (length buffer)) < unat (n - received)"
    using le by linarith
  then show ?case by (simp add: diff_diff_eq)
qed simp

declare prefix_loop.simps [simp del] receive_loop.simps [simp del]

definition recv_exact :: "disk \<Rightarrow> path option \<Rightarrow> int \<Rightarrow> u64 \<Rightarrow> bytes \<Rightarrow> world \<Rightarrow> bool \<times> world" where
  "recv_exact d out sock n prefix w =
     (case prefix_loop d out n prefix 0 0 w of
        (False, received, w1) \<Rightarrow> (False, w1)
      | (True, received, w1) \<Rightarrow> receive_loop d out sock n received w1)"

section \<open>Operations\<close>

definition starts_ok :: "string \<Rightarrow> bool" where
  "starts_ok response \<longleftrightarrow> take 3 response = ''OK ''"

definition get_file ::
  "disk \<Rightarrow> client_net \<Rightarrow> config \<Rightarrow> string \<Rightarrow> bool \<Rightarrow> bool \<Rightarrow> world \<Rightarrow> int \<times> string \<times> world" where
  "get_file d net cfg name quiet write_to_disk w =
     (case connect_to_server net cfg w of (sock, w0) \<Rightarrow>
        if sock < 0 then (1, [], w0)
        else case send_all_str sock (''GET '' @ name @ [newline]) w0 of
          (False, w1) \<Rightarrow> (1, [], sys_close sock w1)
        | (True, w1) \<Rightarrow>
            (case read_status_line sock w1 of
               (None, w2) \<Rightarrow> (1, [], sys_close sock w2)
             | (Some (response, leftover), w2) \<Rightarrow>
                 if \<not> starts_ok response then (1, [], sys_close sock w2)
                 else (case stoull (drop 3 response) of
                   Inl _ \<Rightarrow> (1, [], sys_close sock w2)
                 | Inr file_size \<Rightarrow>
                     (case (if write_to_disk then open_trunc d name w2 else (True, w2)) of
                        (False, w3) \<Rightarrow> (1, [], sys_close sock w3)
                      | (True, w3) \<Rightarrow>
                          (case recv_exact d (if write_to_disk then Some name else None) sock
                                  file_size leftover w3 of
                             (False, w4) \<Rightarrow> (1, [], sys_close sock w4)
                           | (True, w4) \<Rightarrow>
                               (0, if quiet then []
                                   else ''GET '' @ name @ '': '' @ to_string file_size @
                                        '' bytes received'' @ [newline],
                                sys_close sock w4))))))"

text \<open>\<^verbatim>\<open>fs::path(p).filename()\<close>: what follows the last slash.\<close>

definition path_filename :: "path \<Rightarrow> string" where
  "path_filename p = rev (takeWhile (\<lambda>c. c \<noteq> CHR ''/'') (rev p))"

definition put_header_line :: "string \<Rightarrow> bytes \<Rightarrow> string" where
  "put_header_line name data = ''PUT '' @ name @ '' '' @ show_nat (length data) @ [newline]"

definition put_file ::
  "disk \<Rightarrow> client_net \<Rightarrow> config \<Rightarrow> path \<Rightarrow> bool \<Rightarrow> world \<Rightarrow> int \<times> string \<times> world" where
  "put_file d net cfg local_path quiet w =
     (case open_read d local_path w of
        None \<Rightarrow> (1, [], w)
      | Some data \<Rightarrow>
          (let wire_name = path_filename local_path in
           if wire_name = [] \<or> wire_name = ''.'' \<or> wire_name = ''..'' then (1, [], w)
           else case connect_to_server net cfg w of (sock, w0) \<Rightarrow>
             if sock < 0 then (1, [], w0)
             else case send_all_str sock (put_header_line wire_name data) w0 of
               (False, w1) \<Rightarrow> (1, [], sys_close sock w1)
             | (True, w1) \<Rightarrow>
                 (case read_status_line sock w1 of
                    (None, w2) \<Rightarrow> (1, [], sys_close sock w2)
                  | (Some (initial, leftover), w2) \<Rightarrow>
                      if \<not> starts_ok initial then (1, [], sys_close sock w2)
                      else (case (if data \<noteq> [] then send_all_str sock data w2 else (True, w2)) of
                        (False, w3) \<Rightarrow> (1, [], sys_close sock w3)
                      | (True, w3) \<Rightarrow>
                          (case read_status_line sock w3 of
                             (None, w4) \<Rightarrow> (1, [], sys_close sock w4)
                           | (Some (final_response, leftover2), w4) \<Rightarrow>
                               if final_response \<noteq> ''OK 0'' @ [newline] then (1, [], sys_close sock w4)
                               else (0, if quiet then []
                                        else ''PUT '' @ wire_name @ '': '' @ show_nat (length data) @
                                             '' bytes sent'' @ [newline],
                                     sys_close sock w4))))))"

definition health :: "client_net \<Rightarrow> config \<Rightarrow> world \<Rightarrow> int \<times> string \<times> world" where
  "health net cfg w =
     (case connect_to_server net cfg w of (sock, w0) \<Rightarrow>
        if sock < 0 then (1, [], w0)
        else case send_all_str sock (''HEALTH'' @ [newline]) w0 of
          (False, w1) \<Rightarrow> (1, [], sys_close sock w1)
        | (True, w1) \<Rightarrow>
            (case read_status_line sock w1 of
               (None, w2) \<Rightarrow> (1, [], sys_close sock w2)
             | (Some (response, leftover), w2) \<Rightarrow> (0, response, sys_close sock w2)))"

section \<open>The load generator\<close>

record workload_file =
  wf_path :: path
  wf_name :: string

text \<open>A directory entry is its path and whether it is a regular file.\<close>

definition list_workload :: "(path \<times> bool) list \<Rightarrow> workload_file list" where
  "list_workload entries =
     sort_key wf_name
       (filter (\<lambda>f. wf_name f \<noteq> [] \<and> hd (wf_name f) \<noteq> CHR ''.'')
          (map (\<lambda>(p, regular). \<lparr>wf_path = p, wf_name = path_filename p\<rparr>)
             (filter snd entries)))"

fun seed_workload ::
  "disk \<Rightarrow> client_net \<Rightarrow> config \<Rightarrow> workload_file list \<Rightarrow> world \<Rightarrow> bool \<times> world" where
  "seed_workload d net cfg [] w = (True, w)"
| "seed_workload d net cfg (f # fs) w =
     (case put_file d net cfg (wf_path f) True w of
        (code, out, w1) \<Rightarrow> if code \<noteq> 0 then (False, w1) else seed_workload d net cfg fs w1)"

text \<open>
  One request of the workload: a choice is a random number, of which the
  remainder selects the file, and whether the request is a GET. The result is
  the status of the operation.
\<close>

definition issue_request ::
  "disk \<Rightarrow> client_net \<Rightarrow> config \<Rightarrow> workload_file list \<Rightarrow> nat \<times> bool \<Rightarrow> world \<Rightarrow> int \<times> world" where
  "issue_request d net cfg fs choice w =
     (case choice of (k, is_get) \<Rightarrow>
        (let f = fs ! (k mod length fs) in
         case (if is_get then get_file d net cfg (wf_name f) True False w
               else put_file d net cfg (wf_path f) True w) of
           (code, out, w1) \<Rightarrow> (code, w1)))"

text \<open>
  The requests one after the other, in the order of their tickets;
  \<open>Load_Generator\<close> has the threads.
\<close>

fun load_requests ::
  "disk \<Rightarrow> client_net \<Rightarrow> config \<Rightarrow> workload_file list \<Rightarrow> (nat \<times> bool) list \<Rightarrow> nat \<Rightarrow> world \<Rightarrow> nat \<times> world" where
  "load_requests d net cfg fs [] failures w = (failures, w)"
| "load_requests d net cfg fs (choice # choices) failures w =
     (case issue_request d net cfg fs choice w of
        (code, w1) \<Rightarrow>
          load_requests d net cfg fs choices (if code \<noteq> 0 then failures + 1 else failures) w1)"

text \<open>
  \<open>entries\<close> is \<^const>\<open>None\<close> where \<^verbatim>\<open>directory_iterator\<close> throws; the
  exception is not caught and ends the program, result \<^const>\<open>None\<close>. There are
  at least as many choices as requests.
\<close>

definition load_workload ::
  "disk \<Rightarrow> client_net \<Rightarrow> config \<Rightarrow> (path \<times> bool) list option \<Rightarrow> nat \<Rightarrow> (nat \<times> bool) list \<Rightarrow> world \<Rightarrow>
   (int \<times> world) option" where
  "load_workload d net cfg entries requests choices w =
     (case entries of
        None \<Rightarrow> None
      | Some es \<Rightarrow>
          (let fs = list_workload es in
           if fs = [] then Some (1, w)
           else case seed_workload d net cfg fs w of
             (False, w1) \<Rightarrow> Some (1, w1)
           | (True, w1) \<Rightarrow>
               (case load_requests d net cfg fs (take requests choices) 0 w1 of
                  (failures, w2) \<Rightarrow> Some (if failures \<noteq> 0 then 1 else 0, w2))))"

section \<open>The command line\<close>

record client_args =
  ca_config_path :: string
  ca_positional :: "string list"
  ca_requests :: int
  ca_requests_set :: bool

definition default_client_args :: client_args where
  "default_client_args = \<lparr>ca_config_path = ''config.json'', ca_positional = [], ca_requests = -1,
     ca_requests_set = False\<rparr>"

text \<open>\<^verbatim>\<open>argv[i][0]\<close> of an empty argument is the terminating zero.\<close>

fun read_client_args :: "string list \<Rightarrow> client_args \<Rightarrow> client_args option" where
  "read_client_args [] a = Some a"
| "read_client_args (x # rest) a =
     (if x = ''--config'' then
        (case rest of
           [] \<Rightarrow> None
         | v # rest1 \<Rightarrow> read_client_args rest1 (a\<lparr>ca_config_path := v\<rparr>))
      else if x = ''--requests'' then
        (case rest of
           [] \<Rightarrow> None
         | v # rest1 \<Rightarrow>
             (case stoi v of
                Inl _ \<Rightarrow> None
              | Inr i \<Rightarrow> read_client_args rest1 (a\<lparr>ca_requests := i, ca_requests_set := True\<rparr>)))
      else if x \<noteq> [] \<and> hd x = CHR ''-'' then None
      else read_client_args rest (a\<lparr>ca_positional := ca_positional a @ [x]\<rparr>))"

datatype client_command =
    Run_health
  | Run_get string
  | Run_put path
  | Run_load path int

text \<open>What \<^verbatim>\<open>main\<close> will run; \<^const>\<open>None\<close> is a usage error, exit status 1.\<close>

definition choose_command :: "client_args \<Rightarrow> client_command option" where
  "choose_command a =
     (case ca_positional a of
        [] \<Rightarrow> None
      | command # operands \<Rightarrow>
          if ca_requests_set a \<and> command \<noteq> ''load'' then None
          else if command = ''health'' then Some Run_health
          else if command = ''get'' then
            (case operands of [name] \<Rightarrow> Some (Run_get name) | _ \<Rightarrow> None)
          else if command = ''put'' then
            (case operands of [p] \<Rightarrow> Some (Run_put p) | _ \<Rightarrow> None)
          else if command = ''load'' then
            (case operands of
               [dir] \<Rightarrow> if \<not> ca_requests_set a \<or> ca_requests a \<le> 0 then None
                        else Some (Run_load dir (ca_requests a))
             | _ \<Rightarrow> None)
          else None)"

definition client_main ::
  "disk \<Rightarrow> (string \<Rightarrow> bool) \<Rightarrow> client_net \<Rightarrow> (path \<Rightarrow> (path \<times> bool) list option) \<Rightarrow> (nat \<times> bool) list \<Rightarrow>
   string list \<Rightarrow> world \<Rightarrow> (int \<times> string \<times> world) option" where
  "client_main d stod_ok net entries choices argv w =
     (case read_client_args argv default_client_args of
        None \<Rightarrow> Some (1, [], w)
      | Some a \<Rightarrow>
          if ca_positional a = [] \<or> ca_requests_set a \<and> hd (ca_positional a) \<noteq> ''load'' then Some (1, [], w)
          else case load_config d stod_ok (ca_config_path a) False w of
            Inl _ \<Rightarrow> Some (1, [], w)
          | Inr cfg \<Rightarrow>
              (case choose_command a of
                 None \<Rightarrow> Some (1, [], w)
               | Some Run_health \<Rightarrow> Some (health net cfg w)
               | Some (Run_get name) \<Rightarrow> Some (get_file d net cfg name False True w)
               | Some (Run_put p) \<Rightarrow> Some (put_file d net cfg p False w)
               | Some (Run_load dir n) \<Rightarrow>
                   (case load_workload d net cfg (entries dir) (nat n) choices w of
                      None \<Rightarrow> None
                    | Some (code, w1) \<Rightarrow> Some (code, [], w1))))"

end
