(* ===== verification/Client_Transfer.thy ===== *)
theory Client_Transfer
  imports Client
begin

text \<open>
  The client's side of a transfer: it takes its replies from the stream of bytes
  the server sends, however that stream is cut into segments.
\<close>

section \<open>A steady connection\<close>

fun steady_event :: "recv_event \<Rightarrow> bool" where
  "steady_event (Segment delay b) \<longleftrightarrow> b \<noteq> []"
| "steady_event _ \<longleftrightarrow> False"

text \<open>The peer only sends and closes: no resets, no interrupted calls.\<close>

definition steady :: "int \<Rightarrow> world \<Rightarrow> bool" where
  "steady fd w \<longleftrightarrow> list_all steady_event (inbox (socks w fd))"

definition coming :: "int \<Rightarrow> world \<Rightarrow> bytes" where
  "coming fd w = stream_of (inbox (socks w fd))"

lemma sys_recv_steady:
  assumes "steady fd w" "coming fd w \<noteq> []" "0 < n"
  obtains bs w' where "sys_recv fd n w = (Some bs, w')" "bs \<noteq> []" "length bs \<le> n" "steady fd w'"
    "coming fd w = bs @ coming fd w'" "files w' = files w" "wire w' fd = wire w fd"
proof -
  obtain delay b q where q: "inbox (socks w fd) = Segment delay b # q" "b \<noteq> []" "list_all steady_event q"
    using assms(1,2) by (cases "inbox (socks w fd)"; cases "hd (inbox (socks w fd))")
      (auto simp: steady_def coming_def)
  obtain w' where r: "sys_recv fd n w = (Some (take n b), w')"
    using q(1) by (simp add: sys_recv_def)
  have "steady fd w'" "coming fd w = take n b @ coming fd w'"
    using q r assms(3) by (auto simp: steady_def coming_def sys_recv_def split: if_splits)
  moreover have "take n b \<noteq> []" using q(2) assms(3) by simp
  ultimately show ?thesis
    using r that [of "take n b" w'] sys_recv_frame [OF r] by (simp add: wire_def)
qed

lemma sys_recv_coming:
  assumes "sys_recv fd n w = (Some bs, w')"
  shows "coming fd w = bs @ coming fd w'" "files w' = files w" "wire w' fd = wire w fd"
  using assms take_event_stream [of n "inbox (socks w fd)" bs] sys_recv_frame [OF assms]
  by (auto simp: coming_def wire_def sys_recv_def Let_def split: prod.splits)

lemma prefix_before:
  assumes "line @ t = m @ x # rest" "x \<notin> set line"
  obtains m' where "m = line @ m'" "t = m' @ x # rest"
proof -
  have "length line \<le> length m"
  proof (rule ccontr)
    assume "\<not> length line \<le> length m"
    then have "line ! length m = x"
      using arg_cong [OF assms(1), of "\<lambda>xs. xs ! length m"] by (simp add: nth_append)
    with \<open>\<not> length line \<le> length m\<close> assms(2) show False by (metis not_le nth_mem)
  qed
  then show ?thesis using assms(1) that by (auto simp: append_eq_append_conv2)
qed

lemma scan_line_split:
  assumes "bs @ t = m @ newline # rest" "newline \<notin> set m"
  obtains (found) left where "scan_line line bs = (line @ m @ [newline], Some left)" "left @ t = rest"
    | (more) m' where "scan_line line bs = (line @ bs, None)" "t = m' @ newline # rest" "m = bs @ m'"
proof (cases "scan_line line bs")
  case (Pair l r)
  show ?thesis
  proof (cases r)
    case None
    with Pair have "l = line @ bs" "newline \<notin> set bs" using scan_line_None by auto
    with Pair None more show ?thesis using prefix_before [OF assms(1)] by metis
  next
    case (Some left)
    with Pair obtain k where k: "l = line @ k @ [newline]" "newline \<notin> set k" "bs = k @ newline # left"
      using scan_line_Some by blast
    then have "k @ newline # left @ t = m @ newline # rest" using assms(1) by simp
    then obtain m' where "m = k @ m'" "newline # left @ t = m' @ newline # rest"
      using k(2) by (rule prefix_before)
    then have "m = k" "left @ t = rest" using assms(2) by (cases m'; auto)+
    with found Pair Some k(1) show ?thesis by blast
  qed
qed

lemma status_loop_steady:
  "steady sock w \<Longrightarrow> coming sock w = m @ newline # rest \<Longrightarrow> newline \<notin> set m \<Longrightarrow>
   length line + length m < 8192 \<Longrightarrow>
   \<exists>leftover w'. status_loop sock line w = (Some (line @ m @ [newline], leftover), w') \<and> steady sock w' \<and>
     leftover @ coming sock w' = rest \<and> files w' = files w \<and> wire w' sock = wire w sock"
proof (induction sock line w arbitrary: m rule: status_loop.induct)
  case (1 sock line w)
  obtain bs w1 where r: "sys_recv sock 4096 w = (Some bs, w1)" "bs \<noteq> []" "steady sock w1"
    "coming sock w = bs @ coming sock w1" and fr: "files w1 = files w" "wire w1 sock = wire w sock"
    by (rule sys_recv_steady [OF "1.prems"(1), of 4096]) (use "1.prems"(2) in auto)
  have len: "length line < 8192" using "1.prems"(4) by simp
  have "bs @ coming sock w1 = m @ newline # rest" using r(4) "1.prems"(2) by simp
  then show ?case
    using "1.prems"(3)
  proof (cases rule: scan_line_split [where line = line])
    case (found left)
    then show ?thesis using len r fr by (subst status_loop.simps) auto
  next
    case (more m')
    have "\<exists>leftover w'. status_loop sock (line @ bs) w1 = (Some ((line @ bs) @ m' @ [newline], leftover), w') \<and>
        steady sock w' \<and> leftover @ coming sock w' = rest \<and> files w' = files w1 \<and> wire w' sock = wire w1 sock"
      using "1.IH" [OF len r(1) [symmetric] refl r(2) more(1) [symmetric] refl r(3) more(2)]
        "1.prems"(3,4) more(3) by simp
    then show ?thesis using len r fr more by (subst status_loop.simps) auto
  qed
qed

lemma status_loop_sound:
  "status_loop sock line w = (Some (l, leftover), w') \<Longrightarrow>
   \<exists>m. l = line @ m @ [newline] \<and> newline \<notin> set m \<and> coming sock w = m @ newline # leftover @ coming sock w' \<and>
     files w' = files w \<and> wire w' sock = wire w sock"
proof (induction sock line w rule: status_loop.induct)
  case (1 sock line w)
  from "1.prems" have len: "length line < 8192" by (subst (asm) status_loop.simps) (auto split: if_splits)
  obtain res w1 where r: "sys_recv sock 4096 w = (res, w1)" by fastforce
  from "1.prems" obtain bs where bs: "res = Some bs" "bs \<noteq> []"
    by (subst (asm) status_loop.simps) (auto simp: r split: if_splits option.splits)
  note c = sys_recv_coming [OF r [unfolded bs(1)]]
  obtain l1 o1 where sc: "scan_line line bs = (l1, o1)" by fastforce
  show ?case
  proof (cases o1)
    case (Some left)
    then show ?thesis
      using "1.prems" len r bs sc c scan_line_Some [of line bs l1 left]
      by (subst (asm) status_loop.simps) auto
  next
    case None
    then have l1: "l1 = line @ bs" "newline \<notin> set bs" using sc scan_line_None by auto
    have "status_loop sock l1 w1 = (Some (l, leftover), w')"
      using "1.prems" len r bs sc None by (subst (asm) status_loop.simps) auto
    from "1.IH" [OF len r [symmetric] bs sc [symmetric] None this] show ?thesis
      using l1 c by auto
  qed
qed

lemma steady_stream_Nil: "list_all steady_event q \<Longrightarrow> stream_of q = [] \<Longrightarrow> q = []"
  by (cases q rule: stream_of.cases) auto

text \<open>A line that ends with a segment leaves nothing over.\<close>

lemma status_loop_exact:
  "inbox (socks w sock) = q1 @ q2 \<Longrightarrow> list_all steady_event q1 \<Longrightarrow> stream_of q1 = m @ [newline] \<Longrightarrow>
   newline \<notin> set m \<Longrightarrow> length line + length m < 8192 \<Longrightarrow>
   \<exists>w'. status_loop sock line w = (Some (line @ m @ [newline], []), w') \<and> inbox (socks w' sock) = q2 \<and>
     files w' = files w \<and> wire w' sock = wire w sock \<and> (reliable w sock \<longrightarrow> reliable w' sock)"
proof (induction sock line w arbitrary: m q1 rule: status_loop.induct)
  case (1 sock line w)
  obtain t b q where q1: "q1 = Segment t b # q" "b \<noteq> []" "list_all steady_event q"
    using "1.prems"(2,3) by (cases q1 rule: stream_of.cases) auto
  define q' where "q' = (if length b \<le> 4096 then q else Segment 0 (drop 4096 b) # q)"
  define bs where "bs = take 4096 b"
  obtain w1 where r: "sys_recv sock 4096 w = (Some bs, w1)" "inbox (socks w1 sock) = q' @ q2"
    using "1.prems"(1) q1(1) by (simp add: sys_recv_def q'_def bs_def)
  note f = sys_recv_frame [OF r(1)]
  have st: "list_all steady_event q'" "bs \<noteq> []" using q1 by (auto simp: q'_def bs_def)
  have len: "length line < 8192" using "1.prems"(5) by simp
  have "bs @ stream_of q' = b @ stream_of q"
    using append_take_drop_id [of 4096 b] by (simp add: q'_def bs_def flip: append_assoc)
  then have "bs @ stream_of q' = m @ newline # []" using "1.prems"(3) q1(1) by simp
  then show ?case
    using "1.prems"(4)
  proof (cases rule: scan_line_split [where line = line])
    case (found left)
    with steady_stream_Nil st(1) have "left = []" "q' = []" by auto
    then show ?thesis using found(1) len r f st(2)
      by (subst status_loop.simps) (auto simp: wire_def reliable_def)
  next
    case (more m')
    from "1.IH" [OF len r(1) [symmetric] refl st(2) more(1) [symmetric] refl r(2) st(1) more(2)]
    obtain w' where "status_loop sock (line @ bs) w1 = (Some ((line @ bs) @ m' @ [newline], []), w')"
      "inbox (socks w' sock) = q2" "files w' = files w1" "wire w' sock = wire w1 sock"
      "reliable w1 sock \<longrightarrow> reliable w' sock"
      using "1.prems"(4,5) more(3) by auto
    then show ?thesis using len r f st(2) more by (subst status_loop.simps) (auto simp: wire_def reliable_def)
  qed
qed

section \<open>The body\<close>

text \<open>
  The output file, where there is one, holds \<open>s\<close>; the disk lets it grow. The
  loops are described for every course of events: what they leave when they
  succeed, and when they are bound to succeed.
\<close>

definition sink_holds :: "path option \<Rightarrow> bytes \<Rightarrow> world \<Rightarrow> bool" where
  "sink_holds out s w \<longleftrightarrow> (\<forall>p. out = Some p \<longrightarrow> files w p = Some s)"

definition sink_grows :: "disk \<Rightarrow> path option \<Rightarrow> bool" where
  "sink_grows d out \<longleftrightarrow> (\<forall>p n. out = Some p \<longrightarrow> can_write d p n)"

definition same_elsewhere :: "path option \<Rightarrow> world \<Rightarrow> world \<Rightarrow> bool" where
  "same_elsewhere out w w' \<longleftrightarrow> (\<forall>q. out \<noteq> Some q \<longrightarrow> files w' q = files w q)"

lemma same_elsewhere_trans:
  "same_elsewhere out w w1 \<Longrightarrow> same_elsewhere out w1 w' \<Longrightarrow> same_elsewhere out w w'"
  by (simp add: same_elsewhere_def)

lemma sink_write_outcome:
  assumes "sink_write d out received data w = (b, w')" "sink_holds out s w" "length s = unat received"
  shows "sink_grows d out \<Longrightarrow> b" "b \<Longrightarrow> sink_holds out (s @ data) w'" "socks w' = socks w"
    "same_elsewhere out w w'"
  using assms by (auto simp: sink_write_def sink_holds_def sink_grows_def same_elsewhere_def
      stream_write_def Let_def split: option.splits if_splits)

lemma u64_minus: "received \<le> n \<Longrightarrow> unat (n - received :: u64) = unat n - unat received"
  by (simp add: unat_diff_u64)

lemma u64_plus:
  assumes "k \<le> unat (n :: u64) - unat received" "received \<le> n"
  shows "unat (received + of_nat k) = unat received + k" "received + of_nat k \<le> n"
proof -
  have "unat received + k \<le> unat n" using assms by (auto simp: word_le_nat_alt)
  moreover from this have "k < 2 ^ 64" using unat_lt_u64 [of n] by simp
  ultimately show u: "unat (received + of_nat k) = unat received + k"
    using unat_lt_u64 [of n] by (subst unat_add_u64) (auto simp: unat_of_nat_u64)
  then show "received + of_nat k \<le> n" using \<open>unat received + k \<le> unat n\<close> by (simp add: word_le_nat_alt)
qed

lemma prefix_loop_outcome:
  "prefix_loop d out n prefix off received w = (b, received', w') \<Longrightarrow> sink_holds out s w \<Longrightarrow>
   length s = unat received \<Longrightarrow> received \<le> n \<Longrightarrow> off \<le> length prefix \<Longrightarrow>
   (sink_grows d out \<longrightarrow> b) \<and> socks w' = socks w \<and> same_elsewhere out w w' \<and>
   (b \<longrightarrow> received' \<le> n \<and> sink_holds out (s @ take (unat n - unat received) (drop off prefix)) w' \<and>
     unat received' = unat received + min (unat n - unat received) (length prefix - off))"
proof (induction d out n prefix off received w arbitrary: s rule: prefix_loop.induct)
  case (1 d out n prefix off received w)
  show ?case
  proof (cases "received < n \<and> off < length prefix")
    case True
    define chunk where "chunk = min (unat (n - received)) (length prefix - off)"
    define data where "data = take chunk (drop off prefix)"
    have ch: "chunk = min (unat n - unat received) (length prefix - off)"
      using "1.prems"(4) by (simp add: chunk_def u64_minus)
    have rec: "unat (received + of_nat chunk) = unat received + chunk" "received + of_nat chunk \<le> n"
      using "1.prems"(4) by (auto intro!: u64_plus simp: ch)
    obtain b1 w1 where sw: "sink_write d out received data w = (b1, w1)" by fastforce
    note o1 = sink_write_outcome [OF sw "1.prems"(2,3)]
    show ?thesis
    proof (cases b1)
      case False
      with "1.prems"(1) True sw have "\<not> b" "w' = w1"
        by (subst (asm) prefix_loop.simps, simp add: Let_def chunk_def [symmetric] data_def [symmetric])+
      with False o1 show ?thesis by blast
    next
      case b1: True
      have "chunk \<le> length prefix - off" by (simp add: ch)
      with "1.prems"(5) have off: "off + chunk \<le> length prefix" by linarith
      have len: "length (s @ data) = unat (received + of_nat chunk)"
        using "1.prems"(3) rec(1) by (simp add: data_def ch)
      have next_call: "prefix_loop d out n prefix (off + chunk) (received + of_nat chunk) w1 = (b, received', w')"
        using "1.prems"(1) True sw b1
        by (subst (asm) prefix_loop.simps) (simp add: Let_def chunk_def [symmetric] data_def [symmetric])
      note ih = "1.IH" [OF True chunk_def data_def sw [symmetric] b1 [THEN eqTrueI] next_call o1(2) [OF b1] len rec(2) off]
      have left: "chunk + (unat n - (unat received + chunk)) = unat n - unat received" unfolding ch by linarith
      have "data @ take (unat n - (unat received + chunk)) (drop (off + chunk) prefix) =
          take (unat n - unat received) (drop off prefix)"
        unfolding left [symmetric] by (simp add: take_add data_def add.commute)
      moreover have "chunk + min (unat n - (unat received + chunk)) (length prefix - (off + chunk)) =
          min (unat n - unat received) (length prefix - off)" using ch by linarith
      ultimately show ?thesis
        using ih rec(1) o1(3) same_elsewhere_trans [OF o1(4), of w'] by (simp add: add.assoc)
    qed
  next
    case False
    then have "unat n - unat received = 0 \<or> length prefix - off = 0"
      using "1.prems"(4) by (auto simp: word_less_nat_alt)
    moreover have "b \<and> received' = received \<and> w' = w"
      using False "1.prems"(1) by (subst (asm) prefix_loop.simps) auto
    ultimately show ?thesis using "1.prems" by (auto simp: same_elsewhere_def)
  qed
qed

text \<open>One turn of the receive loop: it gives up, or stores what has arrived.\<close>

lemma receive_turn:
  assumes "receive_loop d out sock n received w = (b, w')" "sink_holds out s w" "length s = unat received"
    and "received < n"
  defines "room \<equiv> unat n - unat received"
  obtains (stopped) "\<not> b" "\<not> (steady sock w \<and> sink_grows d out \<and> room \<le> length (coming sock w))"
      "wire w' sock = wire w sock" "same_elsewhere out w w'"
    | (stored) bs w2 where "receive_loop d out sock n (received + of_nat (length bs)) w2 = (b, w')"
      "sink_holds out (s @ bs) w2" "coming sock w = bs @ coming sock w2" "0 < length bs" "length bs \<le> room"
      "steady sock w \<Longrightarrow> room \<le> length (coming sock w) \<Longrightarrow> steady sock w2"
      "wire w2 sock = wire w sock" "same_elsewhere out w w2"
proof -
  define chunk where "chunk = min (unat (n - received)) 8192"
  have room: "0 < room" using assms(4) by (simp add: room_def word_less_nat_alt)
  then have ch: "0 < chunk" "chunk \<le> room" using assms(4) by (auto simp: chunk_def u64_minus room_def)
  obtain res w1 where r: "sys_recv sock chunk w = (res, w1)" by fastforce
  have ready: "\<exists>bs. res = Some bs \<and> bs \<noteq> [] \<and> steady sock w1"
    if "steady sock w" "room \<le> length (coming sock w)"
  proof -
    have "coming sock w \<noteq> []" using that(2) room by auto
    from sys_recv_steady [OF that(1) this ch(1)] r show ?thesis by (metis Pair_inject)
  qed
  show ?thesis
  proof (cases "res = None \<or> res = Some []")
    case True
    then have "\<not> b \<and> w' = w1" using assms(1,4) r
      by (subst (asm) receive_loop.simps) (auto simp: Let_def chunk_def [symmetric])
    then show ?thesis using True ready sys_recv_frame [OF r] by (intro stopped) (auto simp: same_elsewhere_def wire_def)
  next
    case False
    then obtain bs where bs: "res = Some bs" "bs \<noteq> []" by auto
    note c1 = sys_recv_coming [OF r [unfolded bs(1)]]
    have lb: "length bs \<le> room" using r bs(1) sys_recv_length ch(2) by fastforce
    obtain b2 w2 where sw: "sink_write d out received bs w1 = (b2, w2)" by fastforce
    have h1: "sink_holds out s w1" using assms(2) c1(2) by (simp add: sink_holds_def)
    note o2 = sink_write_outcome [OF sw h1 assms(3)]
    have s2: "steady sock w2 = steady sock w1" "coming sock w2 = coming sock w1" "wire w2 sock = wire w sock"
      "same_elsewhere out w w2"
      using o2(3,4) c1(2,3) by (simp_all add: steady_def coming_def wire_def same_elsewhere_def)
    have run: "(if b2 then receive_loop d out sock n (received + of_nat (length bs)) w2 else (False, w2)) = (b, w')"
      using assms(1,4) r bs sw
      by (subst (asm) receive_loop.simps) (cases b2; simp add: Let_def chunk_def [symmetric])
    show ?thesis
      using stored [of bs w2] stopped run o2(1,2) s2 c1(1) lb bs ready by (cases b2) auto
  qed
qed

lemma receive_loop_outcome:
  "receive_loop d out sock n received w = (b, w') \<Longrightarrow> sink_holds out s w \<Longrightarrow>
   length s = unat received \<Longrightarrow> received \<le> n \<Longrightarrow>
   (steady sock w \<and> sink_grows d out \<and> unat n - unat received \<le> length (coming sock w) \<longrightarrow> b) \<and>
   wire w' sock = wire w sock \<and> same_elsewhere out w w' \<and>
   (b \<longrightarrow> unat n - unat received \<le> length (coming sock w) \<and>
     sink_holds out (s @ take (unat n - unat received) (coming sock w)) w')"
proof (induction "unat n - unat received" arbitrary: received w s rule: less_induct)
  case less
  show ?case
  proof (cases "received < n")
    case True
    from less.prems(1-3) True show ?thesis
    proof (cases rule: receive_turn)
      case (stored bs w2)
      have rec: "unat (received + of_nat (length bs)) = unat received + length bs"
        "received + of_nat (length bs) \<le> n"
        using stored(5) less.prems(4) by (auto intro!: u64_plus)
      have "unat n - unat (received + of_nat (length bs)) < unat n - unat received"
        using rec(1) stored(4,5) by linarith
      note ih = less.hyps [OF this stored(1,2) _ rec(2)]
      have "bs @ take (unat n - (unat received + length bs)) (coming sock w2) =
          take (unat n - unat received) (coming sock w)" using stored(3,5) by simp
      moreover have "unat n - unat received \<le> length (coming sock w) \<longleftrightarrow>
          unat n - (unat received + length bs) \<le> length (coming sock w2)" using stored(3) by auto
      ultimately show ?thesis
        using ih rec(1) less.prems(3) stored(6,7) same_elsewhere_trans [OF stored(8), of w'] by auto
    qed blast
  next
    case False
    with less.prems have "unat n - unat received = 0" by (simp add: word_less_nat_alt)
    moreover have "b \<and> w' = w" using False less.prems(1) by (subst (asm) receive_loop.simps) auto
    ultimately show ?thesis using less.prems by (auto simp: same_elsewhere_def)
  qed
qed

lemma recv_exact_outcome:
  assumes "recv_exact d out sock n prefix w = (b, w')" "sink_holds out [] w"
  shows "steady sock w \<Longrightarrow> sink_grows d out \<Longrightarrow> unat n \<le> length (prefix @ coming sock w) \<Longrightarrow> b"
    and "wire w' sock = wire w sock" "same_elsewhere out w w'"
    and "b \<Longrightarrow> unat n \<le> length (prefix @ coming sock w) \<and>
      sink_holds out (take (unat n) (prefix @ coming sock w)) w'"
proof -
  obtain b1 received w1 where p: "prefix_loop d out n prefix 0 0 w = (b1, received, w1)"
    by (metis prod_cases3)
  have o1: "(sink_grows d out \<longrightarrow> b1) \<and> socks w1 = socks w \<and> same_elsewhere out w w1 \<and>
     (b1 \<longrightarrow> received \<le> n \<and> sink_holds out (take (unat n) prefix) w1 \<and>
       unat received = min (unat n) (length prefix))"
    using prefix_loop_outcome [OF p assms(2)] by simp
  have s1: "steady sock w1 = steady sock w" "coming sock w1 = coming sock w" "wire w1 sock = wire w sock"
    using o1 by (simp_all add: steady_def coming_def wire_def)
  have "(steady sock w \<and> sink_grows d out \<and> unat n \<le> length (prefix @ coming sock w) \<longrightarrow> b) \<and>
    wire w' sock = wire w sock \<and> same_elsewhere out w w' \<and>
    (b \<longrightarrow> unat n \<le> length (prefix @ coming sock w) \<and> sink_holds out (take (unat n) (prefix @ coming sock w)) w')"
  proof (cases b1)
    case False
    then have "\<not> b" "w' = w1" using assms(1) p by (simp_all add: recv_exact_def)
    with False o1 s1 show ?thesis by auto
  next
    case True
    with o1 have rec: "received \<le> n" "unat received = min (unat n) (length prefix)"
      "sink_holds out (take (unat n) prefix) w1" by auto
    have "receive_loop d out sock n received w1 = (b, w')" using True assms(1) p by (simp add: recv_exact_def)
    note o2 = receive_loop_outcome [OF this rec(3) _ rec(1)]
    have "take (unat n) prefix @ take (unat n - unat received) (coming sock w1) =
        take (unat n) (prefix @ coming sock w)" using rec(2) s1(2) by (simp add: min_def)
    moreover have "unat n - unat received \<le> length (coming sock w1) \<longleftrightarrow>
        unat n \<le> length (prefix @ coming sock w)" using rec(2) s1(2) by auto
    ultimately show ?thesis
      using o2 rec(2) s1 o1 same_elsewhere_trans [of out w w1 w'] by auto
  qed
  then show "steady sock w \<Longrightarrow> sink_grows d out \<Longrightarrow> unat n \<le> length (prefix @ coming sock w) \<Longrightarrow> b"
    "wire w' sock = wire w sock" "same_elsewhere out w w'"
    "b \<Longrightarrow> unat n \<le> length (prefix @ coming sock w) \<and> sink_holds out (take (unat n) (prefix @ coming sock w)) w'"
    by blast+
qed

section \<open>Connections and commands\<close>

lemma connect_keeps: "connect_to_server net cfg w = (sock, w0) \<Longrightarrow> 0 \<le> sock \<Longrightarrow> w0 = w"
  by (auto simp: connect_to_server_def Let_def split: if_splits)

lemma sys_close_frame [simp]:
  "files (sys_close fd w) = files w" "wire (sys_close fd w) sock = wire w sock"
  "\<not> sock_open (socks (sys_close fd w) fd)" "coming sock (sys_close fd w) = coming sock w"
  by (simp_all add: sys_close_def wire_def coming_def set_sock_def)

lemma send_all_coming:
  assumes "send_all sock data w = (b, w')"
  shows "coming sock w' = coming sock w" "steady sock w' = steady sock w" "files w' = files w"
    "b \<Longrightarrow> wire w' sock = wire w sock @ data"
  using send_all_frame [OF assms] sink.send_ok [of sock data w w'] assms by (simp_all add: coming_def steady_def)

text \<open>The steps of a download that succeeds.\<close>

lemma get_file_success:
  assumes "get_file d net cfg name quiet write_to_disk w = (0, msg, w')"
  obtains sock w1 response leftover w2 n w3 w4 where
    "connect_to_server net cfg w = (sock, w)" "0 \<le> sock"
    "send_all sock (''GET '' @ name @ [newline]) w = (True, w1)"
    "read_status_line sock w1 = (Some (response, leftover), w2)" "starts_ok response"
    "stoull (drop 3 response) = Inr n"
    "(if write_to_disk then open_trunc d name w2 else (True, w2)) = (True, w3)"
    "recv_exact d (if write_to_disk then Some name else None) sock n leftover w3 = (True, w4)"
    "w' = sys_close sock w4"
    "msg = (if quiet then [] else ''GET '' @ name @ '': '' @ to_string n @ '' bytes received'' @ [newline])"
proof -
  obtain sock w0 where c: "connect_to_server net cfg w = (sock, w0)" by fastforce
  with assms have s: "0 \<le> sock" by (auto simp: get_file_def split: if_splits)
  with c have "w0 = w" by (rule connect_keeps)
  note run = assms [unfolded get_file_def send_all_str_def c \<open>w0 = w\<close> prod.case]
  obtain b1 w1 where s1: "send_all sock (''GET '' @ name @ [newline]) w = (b1, w1)" by fastforce
  note run = run [unfolded s1 prod.case]
  with s have b1 by (cases b1) auto
  obtain res w2 where s2: "read_status_line sock w1 = (res, w2)" by fastforce
  from run s \<open>b1\<close> obtain response leftover where l: "res = Some (response, leftover)" "starts_ok response"
    by (cases res) (auto simp: s2 split: if_splits)
  from run s \<open>b1\<close> l obtain n where n: "stoull (drop 3 response) = Inr n"
    by (cases "stoull (drop 3 response)") (auto simp: s2)
  obtain b3 w3 where s3: "(if write_to_disk then open_trunc d name w2 else (True, w2)) = (b3, w3)" by fastforce
  note run = run [unfolded s2 l(1) prod.case option.case n sum.case s3]
  with s \<open>b1\<close> l have b3 by (cases b3) auto
  obtain b4 w4 where s4: "recv_exact d (if write_to_disk then Some name else None) sock n leftover w3 = (b4, w4)"
    by fastforce
  note run = run [unfolded s4 prod.case]
  with s \<open>b1\<close> \<open>b3\<close> l have b4 by (cases b4) auto
  with that c s \<open>w0 = w\<close> s1 s2 l n s3 s4 run \<open>b1\<close> \<open>b3\<close> show ?thesis by simp
qed

lemma open_sink:
  assumes "(if write_to_disk then open_trunc d name w else (True, w)) = (True, w1)"
  shows "sink_holds (if write_to_disk then Some name else None) [] w1" "socks w1 = socks w"
    "same_elsewhere (if write_to_disk then Some name else None) w w1"
  using assms by (auto simp: open_trunc_def sink_holds_def same_elsewhere_def split: if_splits)

text \<open>The files a download of \<open>c\<close> leaves.\<close>

definition downloaded :: "bool \<Rightarrow> string \<Rightarrow> bytes \<Rightarrow> (path \<rightharpoonup> bytes) \<Rightarrow> path \<rightharpoonup> bytes" where
  "downloaded write_to_disk name c fs = (if write_to_disk then fs(name \<mapsto> c) else fs)"

lemma downloaded_sink:
  assumes "sink_holds (if write_to_disk then Some name else None) c w'"
    "same_elsewhere (if write_to_disk then Some name else None) w w'"
  shows "files w' = downloaded write_to_disk name c (files w)"
  using assms by (auto simp: downloaded_def sink_holds_def same_elsewhere_def fun_eq_iff)

lemma show_nat_length: "n < 10 ^ Suc k \<Longrightarrow> length (show_nat n) \<le> Suc k"
proof (induction n arbitrary: k rule: show_nat.induct)
  case (1 n)
  show ?case
  proof (cases "n < 10")
    case False
    with "1.prems" obtain j where "k = Suc j" by (cases k) auto
    with "1.prems" have "n div 10 < 10 ^ Suc j" by (simp add: div_less_iff_less_mult mult.commute)
    with "1.IH" False \<open>k = Suc j\<close> show ?thesis by (subst show_nat.simps) simp
  qed (simp add: show_nat.simps [of n])
qed

lemma ok_line_reply:
  "newline \<notin> set (''OK '' @ to_string n)" "starts_ok (ok_line n)" "stoull (drop 3 (ok_line n)) = Inr n"
  "length (''OK '' @ to_string n) < 8192" "length (to_string n) \<le> 20"
proof -
  have "newline \<notin> set (to_string n)"
    using to_string_props(2) [of n] by (auto simp: list_all_iff isdigit_def newline_def)
  then show "newline \<notin> set (''OK '' @ to_string n)" by (simp add: newline_def)
  show "starts_ok (ok_line n)" by (simp add: starts_ok_def ok_line_def)
  show "stoull (drop 3 (ok_line n)) = Inr n"
    using stoull_to_string [of "[newline]" n] by (simp add: ok_line_def newline_def isdigit_def)
  have "unat n < 10 ^ Suc 19" using unat_lt_u64 [of n] by simp
  then show "length (to_string n) \<le> 20" using show_nat_length [of "unat n" 19] by (simp add: to_string_def)
  then show "length (''OK '' @ to_string n) < 8192" by simp
qed

lemma ok_line_zero: "ok_line 0 = ''OK 0'' @ [newline]"
  by code_simp

lemma get_file_completes:
  assumes "connect_to_server net cfg w = (sock, w)" "0 \<le> sock" "steady sock w" "reliable w sock"
    and "coming sock w = ok_line n @ c @ extra" "length c = unat n"
    and "write_to_disk \<Longrightarrow> can_create d name \<and> (\<forall>k. can_write d name k)"
  obtains msg w' where "get_file d net cfg name quiet write_to_disk w = (0, msg, w')"
    "files w' = downloaded write_to_disk name c (files w)"
    "wire w' sock = wire w sock @ ''GET '' @ name @ [newline]"
proof -
  let ?out = "if write_to_disk then Some name else None"
  obtain w1 where s1: "send_all sock (''GET '' @ name @ [newline]) w = (True, w1)"
    "wire w1 sock = wire w sock @ ''GET '' @ name @ [newline]"
    using assms(4) by (rule send_all_reliable)
  note f1 = send_all_coming [OF s1(1)]
  have "coming sock w1 = (''OK '' @ to_string n) @ newline # c @ extra"
    using f1(1) assms(5) by (simp add: ok_line_def)
  from status_loop_steady [OF _ this ok_line_reply(1), of "[]"] obtain leftover w2 where
    s2: "read_status_line sock w1 = (Some (ok_line n, leftover), w2)" "steady sock w2"
      "leftover @ coming sock w2 = c @ extra" "files w2 = files w1" "wire w2 sock = wire w1 sock"
    using f1(2) assms(3) ok_line_reply(4) by (auto simp: read_status_line_def ok_line_def)
  obtain w3 where s3: "(if write_to_disk then open_trunc d name w2 else (True, w2)) = (True, w3)"
    using assms(7) by (cases write_to_disk) (auto simp: open_trunc_def)
  note f3 = open_sink [OF s3]
  have c3: "steady sock w3" "coming sock w3 = coming sock w2" "wire w3 sock = wire w2 sock"
    using s2(2) f3(2) by (simp_all add: steady_def coming_def wire_def)
  obtain b4 w4 where s4: "recv_exact d ?out sock n leftover w3 = (b4, w4)" by fastforce
  note o4 = recv_exact_outcome [OF s4 f3(1)]
  have "sink_grows d ?out" using assms(7) by (auto simp: sink_grows_def)
  moreover have all: "leftover @ coming sock w3 = c @ extra" using s2(3) c3(2) by simp
  ultimately have b4 using o4(1) c3(1) assms(6) by simp
  moreover have "sink_holds ?out c w4" using o4(4) \<open>b4\<close> all assms(6) by simp
  then have "files w4 = downloaded write_to_disk name c (files w)"
    using same_elsewhere_trans [OF f3(3) o4(3)] s2(4) f1(3) downloaded_sink [of write_to_disk name c w4 w2] by simp
  ultimately show ?thesis
    using assms(1,2) s1 s2 s3 s4 ok_line_reply(2,3) [of n] o4(2) c3(3)
    by (intro that [of _ "sys_close sock w4"]) (auto simp: get_file_def send_all_str_def simp del: if_split)
qed

text \<open>The steps of an upload that succeeds.\<close>

lemma put_file_success:
  assumes "put_file d net cfg local_path quiet w = (0, msg, w')"
  obtains data sock w1 initial leftover w2 w3 leftover2 w4 where
    "open_read d local_path w = Some data" "connect_to_server net cfg w = (sock, w)" "0 \<le> sock"
    "send_all sock (put_header_line (path_filename local_path) data) w = (True, w1)"
    "read_status_line sock w1 = (Some (initial, leftover), w2)" "starts_ok initial"
    "(if data \<noteq> [] then send_all sock data w2 else (True, w2)) = (True, w3)"
    "read_status_line sock w3 = (Some (''OK 0'' @ [newline], leftover2), w4)" "w' = sys_close sock w4"
proof -
  obtain data where o: "open_read d local_path w = Some data"
    using assms by (cases "open_read d local_path w") (auto simp: put_file_def)
  obtain sock w0 where c: "connect_to_server net cfg w = (sock, w0)" by fastforce
  note run = assms [unfolded put_file_def send_all_str_def c o option.case Let_def prod.case]
  then have s: "0 \<le> sock" "w0 = w" using connect_keeps [OF c] by (auto split: if_splits)
  from run have name: "path_filename local_path \<noteq> []" "path_filename local_path \<noteq> ''.''"
    "path_filename local_path \<noteq> ''..''" by (auto split: if_splits)
  note run = run [unfolded s(2), simplified name s(1), simplified]
  obtain b1 w1 where s1: "send_all sock (put_header_line (path_filename local_path) data) w = (b1, w1)" by fastforce
  note run = run [unfolded s1 prod.case]
  with s name have b1 by (cases b1) auto
  obtain res w2 where s2: "read_status_line sock w1 = (res, w2)" by fastforce
  from run s name \<open>b1\<close> obtain initial leftover where l: "res = Some (initial, leftover)" "starts_ok initial"
    by (cases res) (auto simp: s2 split: if_splits)
  obtain b3 w3 where s3: "(if data \<noteq> [] then send_all sock data w2 else (True, w2)) = (b3, w3)" by fastforce
  note run = run [unfolded s2 l(1) prod.case option.case s3]
  with s name \<open>b1\<close> l have b3 by (cases b3) auto
  obtain res4 w4 where s4: "read_status_line sock w3 = (res4, w4)" by fastforce
  with run s name \<open>b1\<close> \<open>b3\<close> l obtain leftover2 where "res4 = Some (''OK 0'' @ [newline], leftover2)" "w' = sys_close sock w4"
    by (cases res4) (auto split: if_splits)
  with that o c s s1 s2 l s3 s4 \<open>b1\<close> \<open>b3\<close> show ?thesis by simp
qed

lemma send_body:
  assumes "(if data \<noteq> [] then send_all sock data w else (True, w)) = (True, w')"
  shows "coming sock w' = coming sock w" "files w' = files w" "wire w' sock = wire w sock @ data"
  using assms send_all_coming [of sock data w True w'] by (auto split: if_splits)

lemma put_file_completes:
  assumes "connect_to_server net cfg w = (sock, w)" "0 \<le> sock" "reliable w sock"
    and "open_read d local_path w = Some data"
    and "path_filename local_path \<notin> {[], ''.'', ''..''}"
    and "inbox (socks w sock) = q1 @ q2" "list_all steady_event (q1 @ q2)"
    and "stream_of q1 = ok_line 0" "stream_of q2 = ok_line 0 @ extra"
  obtains msg w' where "put_file d net cfg local_path quiet w = (0, msg, w')"
    "wire w' sock = wire w sock @ put_header_line (path_filename local_path) data @ data" "files w' = files w"
proof -
  let ?h = "put_header_line (path_filename local_path) data" and ?m = "''OK '' @ to_string 0"
  obtain w1 where s1: "send_all sock ?h w = (True, w1)" "reliable w1 sock" "wire w1 sock = wire w sock @ ?h"
    using assms(3) by (rule send_all_reliable)
  have ok: "ok_line 0 = ?m @ [newline]" by (simp add: ok_line_def)
  have "inbox (socks w1 sock) = q1 @ q2" using send_all_frame(4) [OF s1(1)] assms(6) by simp
  from status_loop_exact [OF this, of ?m "[]"] obtain w2 where
    s2: "read_status_line sock w1 = (Some (ok_line 0, []), w2)" "inbox (socks w2 sock) = q2"
      "files w2 = files w1" "wire w2 sock = wire w1 sock" "reliable w2 sock"
    using assms(7,8) ok ok_line_reply(1,4) [of 0] s1(2) by (auto simp: read_status_line_def)
  obtain wd where wd: "send_all sock data w2 = (True, wd)" using s2(5) by (rule send_all_reliable)
  obtain w3 where s3: "(if data \<noteq> [] then send_all sock data w2 else (True, w2)) = (True, w3)"
    "inbox (socks w3 sock) = q2"
    using wd send_all_frame(4) [OF wd] s2(2) by (cases "data = []") simp_all
  note f3 = send_body [OF s3(1)]
  have "steady sock w3" "coming sock w3 = ?m @ newline # extra"
    using s3(2) assms(7,9) ok by (simp_all add: steady_def coming_def)
  from status_loop_steady [OF this ok_line_reply(1), of "[]"] obtain leftover w4 where
    s4: "read_status_line sock w3 = (Some (''OK 0'' @ [newline], leftover), w4)" "files w4 = files w3"
      "wire w4 sock = wire w3 sock"
    using ok_line_reply(4) [of 0] ok ok_line_zero by (auto simp: read_status_line_def)
  have "\<exists>msg. put_file d net cfg local_path quiet w = (0, msg, sys_close sock w4)"
    using assms(1,2,4,5) s1(1) s2(1) ok_line_reply(2) [of 0] s3(1) s4(1)
    by (cases quiet; cases "data = []") (simp_all add: put_file_def send_all_str_def Let_def)
  with that show ?thesis
    using s4(2,3) f3 s1(3) s2(3,4) send_all_frame(1) [OF s1(1)] by auto
qed

text \<open>
  The two confirmations of an upload have to come apart. The bytes that follow
  the first \<open>OK\<close> line in the same segment are dropped, so an empty upload
  whose two \<open>OK 0\<close> lines arrive together is reported as a failure although
  the server has stored the file.
\<close>

lemma put_file_merged_replies:
  assumes "connect_to_server net cfg w = (sock, w)" "reliable w sock"
    and "open_read d local_path w = Some []"
    and "inbox (socks w sock) = [Segment t (ok_line 0 @ ok_line 0)]"
  shows "fst (put_file d net cfg local_path quiet w) = 1"
proof (rule ccontr)
  assume neq: "fst (put_file d net cfg local_path quiet w) \<noteq> 1"
  obtain code msg w' where run: "put_file d net cfg local_path quiet w = (code, msg, w')" by (metis prod_cases3)
  with neq have "code = 0"
    by (auto simp: put_file_def send_all_str_def Let_def split: prod.splits if_splits option.splits bool.splits)
  obtain w1 w2 initial leftover w4 leftover2 where
    s1: "send_all sock (put_header_line (path_filename local_path) []) w = (True, w1)" and
    s2: "read_status_line sock w1 = (Some (initial, leftover), w2)" and
    s4: "read_status_line sock w2 = (Some (''OK 0'' @ [newline], leftover2), w4)"
    by (rule put_file_success [OF run [unfolded \<open>code = 0\<close>]]) (use assms(1,3) in auto)
  have "inbox (socks w1 sock) = [Segment t (ok_line 0 @ ok_line 0)]"
    using send_all_frame(4) [OF s1] assms(4) by simp
  then have "coming sock w2 = []"
    using s2 by (auto simp: read_status_line_def status_loop.simps [of sock "[]" w1] sys_recv_def coming_def
        ok_line_zero newline_def)
  with status_loop_sound [OF s4 [unfolded read_status_line_def]] show False by simp
qed

section \<open>Properties\<close>


definition demo_client_net :: client_net where
  "demo_client_net = \<lparr>cn_socket = \<lambda>_. 4, cn_inet_pton_ok = \<lambda>_. True, cn_connect_ok = \<lambda>_ _ _. True\<rparr>"

definition demo_client_config :: config where
  "demo_client_config = \<lparr>server_cfg = \<lparr>sc_ip = ''127.0.0.1'', sc_port = 9000, sc_server_threads = 4,
     sc_client_threads = 8\<rparr>, load_balancer = no_load_balancer, has_load_balancer = False\<rparr>"

lemma demo_client_net_connects [simp]: "connect_to_server demo_client_net cfg w = (4, w)"
  by (simp add: connect_to_server_def demo_client_net_def)


text \<open>
  C24. The client reports a successful upload only after the server confirmed it:
  if \<^verbatim>\<open>put_file\<close> exits with 0, the header line and the whole file were sent, in
  this order, and the server's stream held an \<open>OK\<close> line and later the line
  \<open>OK 0\<close>. The client's own files are untouched.
\<close>

theorem client_put_sound:
  assumes "put_file d net cfg local_path quiet w = (0, msg, w')"
  shows "\<exists>sock data line skipped rest. open_read d local_path w = Some data \<and>
    connect_to_server net cfg w = (sock, w) \<and>
    wire w' sock = wire w sock @ put_header_line (path_filename local_path) data @ data \<and>
    coming sock w = line @ skipped @ ok_line 0 @ rest \<and> starts_ok line \<and> (\<exists>m. line = m @ [newline]) \<and>
    files w' = files w \<and> \<not> sock_open (socks w' sock)"
proof -
  obtain data sock w1 initial leftover w2 w3 leftover2 w4 where
    o: "open_read d local_path w = Some data" and conn: "connect_to_server net cfg w = (sock, w)" and
    s1: "send_all sock (put_header_line (path_filename local_path) data) w = (True, w1)" and
    s2: "read_status_line sock w1 = (Some (initial, leftover), w2)" and ok: "starts_ok initial" and
    s3: "(if data \<noteq> [] then send_all sock data w2 else (True, w2)) = (True, w3)" and
    s4: "read_status_line sock w3 = (Some (''OK 0'' @ [newline], leftover2), w4)" and w': "w' = sys_close sock w4"
    using assms by (rule put_file_success)
  note f1 = send_all_coming [OF s1] and f3 = send_body [OF s3]
  obtain m where m: "initial = m @ [newline]" "coming sock w1 = m @ newline # leftover @ coming sock w2"
    "files w2 = files w1" "wire w2 sock = wire w1 sock"
    using status_loop_sound [OF s2 [unfolded read_status_line_def]] by auto
  have f4: "coming sock w3 = ok_line 0 @ leftover2 @ coming sock w4" "files w4 = files w3"
    "wire w4 sock = wire w3 sock"
    using status_loop_sound [OF s4 [unfolded read_status_line_def]]
    by (auto simp: ok_line_zero)
  have "coming sock w = initial @ leftover @ ok_line 0 @ leftover2 @ coming sock w4"
    using f1(1) m(1,2) f3(1) f4(1) by simp
  moreover have "wire w' sock = wire w sock @ put_header_line (path_filename local_path) data @ data"
    "files w' = files w"
    using f1(3,4) m(3,4) f3(2,3) f4(2,3) w' by simp_all
  ultimately show ?thesis
    using o conn ok m(1) w'
    by (rule_tac x = sock in exI, rule_tac x = data in exI, rule_tac x = initial in exI,
        rule_tac x = leftover in exI, rule_tac x = "leftover2 @ coming sock w4" in exI) auto
qed

theorem client_put_sound_witness:
  "\<exists>msg w'. put_file healthy_disk demo_client_net demo_client_config ''a/f'' True
       (demo_world [''a/f'' \<mapsto> ''hi''] [Segment 3 (''OK 0'' @ [newline]), Segment 7 (''OK 0'' @ [newline])]) = (0, msg, w') \<and>
     wire w' 4 = ''PUT f 2'' @ newline # ''hi'' \<and> \<not> sock_open (socks w' 4)"
proof -
  let ?w = "demo_world [''a/f'' \<mapsto> ''hi''] [Segment 3 (''OK 0'' @ [newline]), Segment 7 (''OK 0'' @ [newline])]"
  have h: "put_header_line (path_filename ''a/f'') ''hi'' = ''PUT f 2'' @ [newline]" by code_simp
  obtain msg w' where w': "put_file healthy_disk demo_client_net demo_client_config ''a/f'' True ?w = (0, msg, w')"
    "wire w' 4 = wire ?w 4 @ put_header_line (path_filename ''a/f'') ''hi'' @ ''hi''"
    by (rule put_file_completes [of demo_client_net demo_client_config ?w 4 healthy_disk "''a/f''" "''hi''"
          "[Segment 3 (''OK 0'' @ [newline])]" "[Segment 7 (''OK 0'' @ [newline])]" "[]" True])
       (simp_all add: reliable_def ok_line_zero healthy_disk_def open_read_def path_filename_def)
  from client_put_sound [OF w'(1)] have "\<not> sock_open (socks w' 4)" by auto
  with w' h show ?thesis by (auto simp: wire_def)
qed

end
