(* ===== verification/Load_Generator.thy ===== *)
theory Load_Generator
  imports Client_Transfer
begin

text \<open>
  The threads of \<^verbatim>\<open>load_workload\<close> in \<^verbatim>\<open>client.cpp\<close>: each draws tickets from
  a shared counter until they are used up, sends one request per ticket and
  counts its failures in a second shared counter. Both counters are 32 bits
  wide. A step is one step of one thread: the drawing of a ticket, a whole
  request, or the count of a failure. The random choice of file and operation is
  left open. \<open>Client.load_requests\<close> is the sequential reference: it issues a
  given list of choices one after the other.
\<close>

section \<open>Threads\<close>

text \<open>
  A thread is about to draw a ticket, has chosen a request, is about to count a
  failure, or has left its loop.
\<close>

datatype load_phase = L_ticket | L_request "nat \<times> bool" | L_failed | L_done

record load_state =
  ld_threads :: "load_phase list"
  ld_next :: i32
  ld_failures :: i32
  ld_world :: world

definition load_start :: "int \<Rightarrow> world \<Rightarrow> load_state" where
  "load_start thread_count w =
     \<lparr>ld_threads = replicate (nat thread_count) L_ticket, ld_next = 0, ld_failures = 0, ld_world = w\<rparr>"

inductive load_step ::
  "disk \<Rightarrow> client_net \<Rightarrow> config \<Rightarrow> workload_file list \<Rightarrow> int \<Rightarrow>
   load_state \<Rightarrow> (nat \<times> bool) list \<Rightarrow> load_state \<Rightarrow> bool" for d net cfg fs requests where
  step_ticket: "t < length (ld_threads s) \<Longrightarrow> ld_threads s ! t = L_ticket \<Longrightarrow> sint (ld_next s) < requests \<Longrightarrow>
    load_step d net cfg fs requests s []
      (s\<lparr>ld_next := ld_next s + 1, ld_threads := (ld_threads s)[t := L_request choice]\<rparr>)"
| step_leave: "t < length (ld_threads s) \<Longrightarrow> ld_threads s ! t = L_ticket \<Longrightarrow> requests \<le> sint (ld_next s) \<Longrightarrow>
    load_step d net cfg fs requests s []
      (s\<lparr>ld_next := ld_next s + 1, ld_threads := (ld_threads s)[t := L_done]\<rparr>)"
| step_request: "t < length (ld_threads s) \<Longrightarrow> ld_threads s ! t = L_request choice \<Longrightarrow>
    issue_request d net cfg fs choice (ld_world s) = (code, w1) \<Longrightarrow>
    load_step d net cfg fs requests s [choice]
      (s\<lparr>ld_world := w1, ld_threads := (ld_threads s)[t := if code \<noteq> 0 then L_failed else L_ticket]\<rparr>)"
| step_count: "t < length (ld_threads s) \<Longrightarrow> ld_threads s ! t = L_failed \<Longrightarrow>
    load_step d net cfg fs requests s []
      (s\<lparr>ld_failures := ld_failures s + 1, ld_threads := (ld_threads s)[t := L_ticket]\<rparr>)"

text \<open>A run lists the requests in the order in which they were issued.\<close>

inductive load_run ::
  "disk \<Rightarrow> client_net \<Rightarrow> config \<Rightarrow> workload_file list \<Rightarrow> int \<Rightarrow>
   load_state \<Rightarrow> (nat \<times> bool) list \<Rightarrow> load_state \<Rightarrow> bool" for d net cfg fs requests s0 where
  load_none: "load_run d net cfg fs requests s0 [] s0"
| load_next: "load_run d net cfg fs requests s0 tr s \<Longrightarrow> load_step d net cfg fs requests s evs s' \<Longrightarrow>
    load_run d net cfg fs requests s0 (tr @ evs) s'"

text \<open>All threads have been joined.\<close>

definition load_joined :: "load_state \<Rightarrow> bool" where
  "load_joined s \<longleftrightarrow> list_all (\<lambda>ph. ph = L_done) (ld_threads s)"

text \<open>\<^verbatim>\<open>load_workload\<close> with its threads; \<^const>\<open>None\<close> is the uncaught exception.\<close>

inductive load_threads ::
  "disk \<Rightarrow> client_net \<Rightarrow> config \<Rightarrow> (path \<times> bool) list option \<Rightarrow> int \<Rightarrow> world \<Rightarrow> (int \<times> world) option \<Rightarrow> bool"
  for d net cfg entries requests w where
  directory_throws: "entries = None \<Longrightarrow> load_threads d net cfg entries requests w None"
| no_files: "entries = Some es \<Longrightarrow> list_workload es = [] \<Longrightarrow>
    load_threads d net cfg entries requests w (Some (1, w))"
| seeding_failed: "entries = Some es \<Longrightarrow> list_workload es \<noteq> [] \<Longrightarrow>
    seed_workload d net cfg (list_workload es) w = (False, w1) \<Longrightarrow>
    load_threads d net cfg entries requests w (Some (1, w1))"
| joined: "entries = Some es \<Longrightarrow> list_workload es \<noteq> [] \<Longrightarrow>
    seed_workload d net cfg (list_workload es) w = (True, w1) \<Longrightarrow>
    load_run d net cfg (list_workload es) requests (load_start (sc_client_threads (server_cfg cfg)) w1) tr s \<Longrightarrow>
    load_joined s \<Longrightarrow>
    load_threads d net cfg entries requests w (Some (if ld_failures s \<noteq> 0 then 1 else 0, ld_world s))"

section \<open>Counting\<close>

lemma sum_list_map_update:
  fixes f :: "'a \<Rightarrow> nat"
  shows "i < length xs \<Longrightarrow> sum_list (map f (xs[i := y])) + f (xs ! i) = sum_list (map f xs) + f y"
proof (induction xs arbitrary: i)
  case (Cons x xs)
  then show ?case by (cases i) (auto simp: ac_simps)
qed simp

definition in_phase :: "(load_phase \<Rightarrow> bool) \<Rightarrow> load_state \<Rightarrow> nat" where
  "in_phase P s = sum_list (map (\<lambda>ph. of_bool (P ph)) (ld_threads s))"

fun is_request :: "load_phase \<Rightarrow> bool" where
  "is_request (L_request c) = True" | "is_request _ = False"

lemma in_phase_update:
  "t < length (ld_threads s) \<Longrightarrow> ld_threads s' = (ld_threads s)[t := ph] \<Longrightarrow>
   in_phase P s' + of_bool (P (ld_threads s ! t)) = in_phase P s + of_bool (P ph)"
  using sum_list_map_update [of t "ld_threads s" "\<lambda>ph. of_bool (P ph)" ph]
  unfolding in_phase_def by (simp only:)

lemma in_phase_zero: "in_phase P s = 0 \<longleftrightarrow> list_all (\<lambda>ph. \<not> P ph) (ld_threads s)"
  by (auto simp: in_phase_def list_all_iff)

lemma in_phase_le: "in_phase P s \<le> length (ld_threads s)"
proof -
  have "sum_list (map (\<lambda>ph. of_bool (P ph)) xs) \<le> length xs" for xs :: "load_phase list"
    by (induction xs) auto
  then show ?thesis by (simp add: in_phase_def)
qed

section \<open>Every run is a sequence of requests\<close>

lemma load_requests_append:
  "load_requests d net cfg fs (xs @ ys) n w =
     (case load_requests d net cfg fs xs n w of (n1, w1) \<Rightarrow> load_requests d net cfg fs ys n1 w1)"
  by (induction xs arbitrary: n w) (auto split: prod.splits)

lemma load_requests_count: "load_requests d net cfg fs xs n w = (n', w') \<Longrightarrow> n \<le> n' \<and> n' \<le> n + length xs"
proof (induction xs arbitrary: n w)
  case (Cons x xs)
  obtain code w1 where "issue_request d net cfg fs x w = (code, w1)" by fastforce
  with Cons.prems have "load_requests d net cfg fs xs (if code \<noteq> 0 then n + 1 else n) w1 = (n', w')" by simp
  from Cons.IH [OF this] show ?case by (auto split: if_splits)
qed simp

text \<open>
  A ticket has been drawn for every request that was issued or is under way and
  by every thread that has left; no thread leaves before all tickets of requests
  are drawn; the failures are those of the requests issued so far, one after the
  other, but for the ones about to be counted.
\<close>

definition load_inv ::
  "disk \<Rightarrow> client_net \<Rightarrow> config \<Rightarrow> workload_file list \<Rightarrow> nat \<Rightarrow> nat \<Rightarrow> world \<Rightarrow> (nat \<times> bool) list \<Rightarrow> load_state \<Rightarrow> bool" where
  "load_inv d net cfg fs n threads w tr s \<longleftrightarrow>
     length (ld_threads s) = threads \<and>
     sint (ld_next s) = int (length tr + in_phase is_request s + in_phase (\<lambda>ph. ph = L_done) s) \<and>
     length tr + in_phase is_request s \<le> n \<and>
     (0 < in_phase (\<lambda>ph. ph = L_done) s \<longrightarrow> length tr + in_phase is_request s = n) \<and>
     load_requests d net cfg fs tr 0 w = (unat (ld_failures s) + in_phase (\<lambda>ph. ph = L_failed) s, ld_world s)"

lemma sint_suc: "0 \<le> sint (k :: i32) \<Longrightarrow> sint k < 2 ^ 31 - 1 \<Longrightarrow> sint (k + 1) = sint k + 1"
  by (simp add: sint_word_add signed_take_bit_int_eq_self)

lemma unat_suc: "unat (k :: i32) + 1 < 2 ^ 32 \<Longrightarrow> unat (k + 1) = unat k + 1"
  by (simp add: unat_word_ariths)

lemma load_inv_ticket:
  assumes "load_inv d net cfg fs n threads w tr s" "n + threads < 2 ^ 31" "t < length (ld_threads s)" "ld_threads s ! t = L_ticket"
    and "ph = L_done \<and> int n \<le> sint (ld_next s) \<or> is_request ph \<and> sint (ld_next s) < int n"
  shows "load_inv d net cfg fs n threads w tr (s\<lparr>ld_next := ld_next s + 1, ld_threads := (ld_threads s)[t := ph]\<rparr>)"
proof -
  let ?s' = "s\<lparr>ld_next := ld_next s + 1, ld_threads := (ld_threads s)[t := ph]\<rparr>"
  let ?done = "in_phase (\<lambda>ph. ph = L_done)" and ?run = "in_phase is_request"
  have u: "in_phase P ?s' + of_bool (P L_ticket) = in_phase P s + of_bool (P ph)" for P
    using in_phase_update [OF assms(3), of ?s' ph P] assms(4) by simp
  have next1: "sint (ld_next s) = int (length tr + ?run s + ?done s)" and le: "length tr + ?run s \<le> n"
    and len: "length (ld_threads s) = threads"
    using assms(1) by (simp_all add: load_inv_def)
  have "?done s < threads"
    using in_phase_update [OF assms(3), of "s\<lparr>ld_threads := (ld_threads s)[t := L_done]\<rparr>" L_done "\<lambda>ph. ph = L_done"]
      in_phase_le [of "\<lambda>ph. ph = L_done" "s\<lparr>ld_threads := (ld_threads s)[t := L_done]\<rparr>"] assms(4) len by simp
  then have "sint (ld_next s + 1) = sint (ld_next s) + 1" using next1 le assms(2) by (intro sint_suc) simp_all
  with assms(1,5) next1 u [of "\<lambda>ph. ph = L_done"] u [of is_request] u [of "\<lambda>ph. ph = L_failed"] show ?thesis
    by (auto simp: load_inv_def)
qed

lemma load_inv_step:
  assumes "load_step d net cfg fs (int n) s evs s'" "load_inv d net cfg fs n threads w tr s" "n + threads < 2 ^ 31"
  shows "load_inv d net cfg fs n threads w (tr @ evs) s'"
  using assms(1)
proof (cases rule: load_step.cases)
  case (step_ticket t choice)
  then show ?thesis using load_inv_ticket [OF assms(2,3)] by simp
next
  case (step_leave t)
  then show ?thesis using load_inv_ticket [OF assms(2,3)] by simp
next
  case (step_request t choice code w1)
  have u: "in_phase P s' + of_bool (P (L_request choice)) = in_phase P s + of_bool (P (if code \<noteq> 0 then L_failed else L_ticket))" for P
    using in_phase_update [OF step_request(3), of s' "if code \<noteq> 0 then L_failed else L_ticket" P] step_request(2,4) by simp
  have "load_requests d net cfg fs (tr @ evs) 0 w =
      ((if code \<noteq> 0 then Suc (unat (ld_failures s) + in_phase (\<lambda>ph. ph = L_failed) s)
        else unat (ld_failures s) + in_phase (\<lambda>ph. ph = L_failed) s), w1)"
    using assms(2) step_request(1,5) by (simp add: load_inv_def load_requests_append)
  with assms(2) step_request(1,2) u [of "\<lambda>ph. ph = L_done"] u [of is_request] u [of "\<lambda>ph. ph = L_failed"] show ?thesis
    by (auto simp: load_inv_def split: if_splits)
next
  case (step_count t)
  have u: "in_phase P s' + of_bool (P L_failed) = in_phase P s + of_bool (P L_ticket)" for P
    using in_phase_update [OF step_count(3), of s' L_ticket P] step_count(2,4) by simp
  have "load_requests d net cfg fs tr 0 w = (unat (ld_failures s) + in_phase (\<lambda>ph. ph = L_failed) s, ld_world s)"
    and le: "length tr \<le> n" using assms(2) by (simp_all add: load_inv_def)
  from load_requests_count [OF this(1)] u [of "\<lambda>ph. ph = L_failed"] have "unat (ld_failures s) + 1 \<le> n" using le by simp
  then have "unat (ld_failures s + 1) = unat (ld_failures s) + 1" using assms(3) by (intro unat_suc) simp
  with assms(2) step_count(1,2) u [of "\<lambda>ph. ph = L_done"] u [of is_request] u [of "\<lambda>ph. ph = L_failed"] show ?thesis
    by (auto simp: load_inv_def)
qed

lemma load_inv_run:
  assumes "load_run d net cfg fs (int n) (load_start (int threads) w) tr s" "n + threads < 2 ^ 31"
  shows "load_inv d net cfg fs n threads w tr s"
  using assms(1)
proof (induction rule: load_run.induct)
  case load_none
  have "in_phase P (load_start (int threads) w) = 0" if "\<not> P L_ticket" for P
    using that by (simp add: in_phase_zero load_start_def list_all_iff)
  then show ?case by (simp add: load_inv_def) (simp add: load_start_def)
qed (use load_inv_step assms(2) in blast)

section \<open>Termination\<close>

text \<open>Tickets still to be drawn and work still to be done by each thread.\<close>

fun phase_work :: "load_phase \<Rightarrow> nat" where
  "phase_work L_ticket = 1" | "phase_work (L_request c) = 3" | "phase_work L_failed = 2" | "phase_work L_done = 0"

definition load_work :: "nat \<Rightarrow> load_state \<Rightarrow> nat" where
  "load_work n s = 4 * nat (int n - sint (ld_next s)) + sum_list (map phase_work (ld_threads s))"

lemma load_step_work:
  assumes "load_step d net cfg fs (int n) s evs s'" "load_inv d net cfg fs n threads w tr s" "n + threads < 2 ^ 31"
  shows "load_work n s' < load_work n s"
proof -
  have "load_inv d net cfg fs n threads w (tr @ evs) s'" using assms by (rule load_inv_step)
  then have pos: "0 \<le> sint (ld_next s')" by (simp add: load_inv_def)
  have pos0: "0 \<le> sint (ld_next s)" using assms(2) by (simp add: load_inv_def)
  have sum: "sum_list (map phase_work ((ld_threads s)[t := ph])) + phase_work (ld_threads s ! t) =
      sum_list (map phase_work (ld_threads s)) + phase_work ph" if "t < length (ld_threads s)" for t ph
    using that by (rule sum_list_map_update)
  have suc: "sint (ld_next s + 1) = sint (ld_next s) + 1" if "0 \<le> sint (ld_next s + 1)"
  proof (rule sint_suc [OF pos0], rule ccontr)
    assume "\<not> sint (ld_next s) < 2 ^ 31 - 1"
    then have "sint (ld_next s) = 2 ^ 31 - 1" using sint_less [of "ld_next s"] by simp
    then have "sint (ld_next s + 1) = - (2 ^ 31)" by (simp add: sint_word_add signed_take_bit_int_eq_self_iff)
    with that show False by simp
  qed
  show ?thesis
    using assms(1)
  proof (cases rule: load_step.cases)
    case (step_ticket t choice)
    then show ?thesis using sum [of t "L_request choice"] suc pos by (simp add: load_work_def)
  next
    case (step_leave t)
    then show ?thesis using sum [of t L_done] suc pos by (simp add: load_work_def)
  next
    case (step_request t choice code w1)
    then show ?thesis
      using sum [of t "if code \<noteq> 0 then L_failed else L_ticket"] by (simp add: load_work_def split: if_splits)
  next
    case (step_count t)
    then show ?thesis using sum [of t L_ticket] by (simp add: load_work_def)
  qed
qed

lemma load_can_step:
  assumes "\<not> load_joined s"
  shows "\<exists>evs s'. load_step d net cfg fs requests s evs s'"
proof -
  obtain t where t: "t < length (ld_threads s)" "ld_threads s ! t \<noteq> L_done"
    using assms by (auto simp: load_joined_def list_all_length)
  show ?thesis
  proof (cases "ld_threads s ! t")
    case L_ticket
    with t(1) show ?thesis
      using step_ticket [of t s requests d net cfg fs] step_leave [of t s requests d net cfg fs]
      by (cases "sint (ld_next s) < requests") (blast, force simp: not_less)
  next
    case (L_request choice)
    obtain code w1 where "issue_request d net cfg fs choice (ld_world s) = (code, w1)" by fastforce
    with t(1) L_request show ?thesis by (blast intro: step_request)
  next
    case L_failed
    with t(1) show ?thesis by (blast intro: step_count)
  qed (use t(2) in simp)
qed

lemma load_completes:
  assumes "load_run d net cfg fs (int n) (load_start (int threads) w) tr s" "n + threads < 2 ^ 31"
  shows "\<exists>tr' s'. load_run d net cfg fs (int n) (load_start (int threads) w) (tr @ tr') s' \<and> load_joined s'"
  using assms(1)
proof (induction "load_work n s" arbitrary: tr s rule: less_induct)
  case less
  show ?case
  proof (cases "load_joined s")
    case True
    with less.prems show ?thesis by (intro exI [of _ "[]"]) auto
  next
    case False
    then obtain evs s1 where st: "load_step d net cfg fs (int n) s evs s1" using load_can_step by blast
    have "load_work n s1 < load_work n s"
      using st load_inv_run [OF less.prems assms(2)] assms(2) by (rule load_step_work)
    from less.hyps [OF this load_next [OF less.prems st]] show ?thesis by (auto intro: exI [of _ "evs @ _"])
  qed
qed

lemma load_joined_requests:
  assumes "load_run d net cfg fs (int n) (load_start (int threads) w) tr s" "n + threads < 2 ^ 31" "0 < threads" "load_joined s"
  shows "length tr = n \<and> load_requests d net cfg fs tr 0 w = (unat (ld_failures s), ld_world s)"
proof -
  have inv: "load_inv d net cfg fs n threads w tr s" using assms(1,2) by (rule load_inv_run)
  have zero: "in_phase is_request s = 0" "in_phase (\<lambda>ph. ph = L_failed) s = 0"
    using assms(4) unfolding in_phase_zero by (auto simp: load_joined_def list_all_iff)
  have "ld_threads s \<noteq> []" using inv assms(3) by (auto simp: load_inv_def)
  then have "0 < in_phase (\<lambda>ph. ph = L_done) s"
    using assms(4) in_phase_zero [of "\<lambda>ph. ph = L_done" s] by (cases "ld_threads s") (auto simp: load_joined_def)
  with inv zero show ?thesis by (simp add: load_inv_def)
qed

section \<open>Properties\<close>

text \<open>
  C27. The threads of the load generator together do exactly what one thread would.
  Whatever their interleaving, the result of \<^verbatim>\<open>load_workload\<close> is that of
  issuing exactly \<open>requests\<close> requests one after the other, with some choice of
  files and operations; no ticket is lost or drawn twice, and the exit status is
  1 exactly if one of the requests failed. The ticket counter is 32 bits wide, so
  that requests and threads together have to stay below \<open>2 ^ 31\<close>.
\<close>

theorem load_threads_serialise:
  assumes "load_threads d net cfg entries requests w res" and "0 < requests"
    and "0 < sc_client_threads (server_cfg cfg)" and "requests + sc_client_threads (server_cfg cfg) < 2 ^ 31"
  shows "\<exists>choices. length choices = nat requests \<and> res = load_workload d net cfg entries (nat requests) choices w"
proof -
  let ?n = "nat requests" and ?t = "nat (sc_client_threads (server_cfg cfg))"
  have n: "requests = int ?n" "sc_client_threads (server_cfg cfg) = int ?t" using assms(2,3) by simp_all
  have b: "?n + ?t < 2 ^ 31" using assms(2-4) by (simp add: nat_less_iff flip: nat_add_distrib)
  from assms(1) show ?thesis
  proof (cases rule: load_threads.cases)
    case (joined es w1 tr s)
    have t: "load_run d net cfg (list_workload es) (int ?n) (load_start (int ?t) w1) tr s"
      using joined(5) unfolding n [symmetric] .
    have "length tr = ?n \<and> load_requests d net cfg (list_workload es) tr 0 w1 = (unat (ld_failures s), ld_world s)"
      using t by (rule load_joined_requests) (use b assms(3) joined(6) in simp_all)
    with joined show ?thesis by (intro exI [of _ tr]) (auto simp: load_workload_def unat_eq_0)
  qed (auto simp: load_workload_def Let_def intro!: exI [of _ "replicate ?n (0, True)"])
qed

lemma demo_seed:
  "\<exists>w1. seed_workload healthy_disk demo_client_net demo_client_config (list_workload [(''a/f'', True)])
     (demo_world [''a/f'' \<mapsto> ''hi''] [Segment 3 (''OK 0'' @ [newline]), Segment 7 (''OK 0'' @ [newline])]) = (True, w1)"
proof -
  let ?w = "demo_world [''a/f'' \<mapsto> ''hi''] [Segment 3 (''OK 0'' @ [newline]), Segment 7 (''OK 0'' @ [newline])]"
  obtain msg w' where "put_file healthy_disk demo_client_net demo_client_config ''a/f'' True ?w = (0, msg, w')"
    by (rule put_file_completes [of demo_client_net demo_client_config ?w 4 healthy_disk "''a/f''" "''hi''"
          "[Segment 3 (''OK 0'' @ [newline])]" "[Segment 7 (''OK 0'' @ [newline])]" "[]" True])
       (simp_all add: reliable_def ok_line_zero healthy_disk_def open_read_def path_filename_def)
  then show ?thesis by (simp add: list_workload_def path_filename_def)
qed

theorem load_threads_serialise_witness:
  "\<exists>res choices. load_threads healthy_disk demo_client_net demo_client_config (Some [(''a/f'', True)]) 3
       (demo_world [''a/f'' \<mapsto> ''hi''] [Segment 3 (''OK 0'' @ [newline]), Segment 7 (''OK 0'' @ [newline])]) res \<and>
     length choices = 3 \<and>
     res = load_workload healthy_disk demo_client_net demo_client_config (Some [(''a/f'', True)]) 3 choices
       (demo_world [''a/f'' \<mapsto> ''hi''] [Segment 3 (''OK 0'' @ [newline]), Segment 7 (''OK 0'' @ [newline])])"
proof -
  let ?d = healthy_disk and ?net = demo_client_net and ?cfg = demo_client_config and ?fs = "list_workload [(''a/f'', True)]"
  let ?w = "demo_world [''a/f'' \<mapsto> ''hi''] [Segment 3 (''OK 0'' @ [newline]), Segment 7 (''OK 0'' @ [newline])]"
  obtain w1 where w1: "seed_workload ?d ?net ?cfg ?fs ?w = (True, w1)" using demo_seed by blast
  have k: "sc_client_threads (server_cfg ?cfg) = int 8" by (simp add: demo_client_config_def)
  obtain tr s where s: "load_run ?d ?net ?cfg ?fs (int 3) (load_start (int 8) w1) tr s" "load_joined s"
    using load_completes [OF load_none [of ?d ?net ?cfg ?fs "int 3" "load_start (int 8) w1"]] by auto
  have "load_threads ?d ?net ?cfg (Some [(''a/f'', True)]) 3 ?w (Some (if ld_failures s \<noteq> 0 then 1 else 0, ld_world s))"
    by (rule joined [OF refl _ w1 _ s(2)]) (use s(1) k in \<open>simp_all add: list_workload_def path_filename_def\<close>)
  from load_threads_serialise [OF this] this k show ?thesis by auto
qed



end
