(* ===== verification/Spec2Isabelle.thy ===== *)
theory Spec2Isabelle
  imports Server_Main Observations Wakeups Measurements Percentiles Load_Generator
begin

text \<open>
  \<^bold>\<open>A verification of the link-scheduling file server and its client.\<close>

  The program is a multithreaded TCP file server that schedules transfers under
  one of four policies (FCFS, SJF, RR, DRR), and a command-line client for it.
  One request is made per connection: \<open>GET name\<close> is answered with
  \<open>OK n\<close> and \<open>n\<close> bytes, \<open>PUT name n\<close> with \<open>OK 0\<close>
  before and after the body, \<open>HEALTH\<close> with the length of the queue, and a
  fault with \<open>ERR reason\<close>.

  \<^bold>\<open>Parts and how they interact.\<close> An acceptor thread puts accepted sockets into
  the connection queue. Parser threads take them out, read one header line with
  a deadline, check it, and push a request into the request queue. Worker
  threads ask the scheduler for the next request and its byte budget, run one
  round of the transfer, account for it, and requeue, finish or drop the
  request. The main thread starts the others and joins them in the order
  acceptor, parsers, workers; the queues are closed in the same order. The
  client parses its command line, reads the same configuration file, and runs
  one exchange, or a load of many.

  \<^bold>\<open>Theories, in the order of their dependence.\<close>

    \<^item> \<open>Prelude\<close>: characters, decimal numbers, \<^verbatim>\<open>stoull\<close>/\<^verbatim>\<open>stoi\<close>,
      word extraction from a string stream, 64-bit arithmetic, slices.
    \<^item> \<open>Os_Model\<close>: the environment, not code of the repository. A
      \<^typ>\<open>world\<close> has the files, the sockets and the clock; a \<^typ>\<open>disk\<close> says
      which file operations fail; a socket's inbox says what its peer does and
      when, its plan how much each \<^verbatim>\<open>send\<close> takes. So every error branch of
      the code can be reached.
    \<^item> \<open>Socket_IO\<close> (\<^verbatim>\<open>socket.cpp\<close>): header reading, \<^verbatim>\<open>send_all\<close>, the
      listening socket. No byte of the stream is lost or duplicated whatever
      the segmentation; the deadline holds; \<^verbatim>\<open>send_all\<close> is all or a prefix.
      The locale \<open>byte_sink\<close> is the interface its callers use.
    \<^item> \<open>File_IO\<close> (\<^verbatim>\<open>file_io.cpp\<close>): file names and line-wise reading.
    \<^item> \<open>Request_Queue\<close> (\<^verbatim>\<open>queue.h\<close>, \<^verbatim>\<open>queue.cpp\<close>): both queues;
      refinement to an abstract FIFO with an in-flight counter.
    \<^item> \<open>Wakeups\<close> (\<^verbatim>\<open>queue.cpp\<close>): the condition variables. A thread that
      finds its predicate false sleeps until it is notified, and the operations
      notify under the mutex or after it as in the source; no wake-up is lost
      (the locale \<open>sleeping_pool\<close>, interpreted for both queues and both
      kinds of pop).
    \<^item> \<open>Scheduling\<close> (\<^verbatim>\<open>scheduling.cpp\<close>): selection, budgets,
      accounting; the DRR ledger, SJF's choice, bounds and termination.
    \<^item> \<open>Protocol\<close> (\<^verbatim>\<open>protocol.cpp\<close>): the grammar of headers and the
      round trip of printing and parsing.
    \<^item> \<open>Serve\<close> (\<^verbatim>\<open>server.cpp\<close>), with \<open>Get_Service\<close> and
      \<open>Put_Service\<close>: one round of a GET or a PUT, against the reference
      choice of whole lines and against the stream of the upload.
    \<^item> \<open>Metrics\<close>, \<open>Percentiles\<close> (\<^verbatim>\<open>metrics.cpp\<close>): the records, the CSV
      file, the summary; the percentiles, computed in double precision, are the
      exact ones.
    \<^item> \<open>Worker\<close> (\<^verbatim>\<open>main.cpp\<close>, \<^verbatim>\<open>clock_ns.h\<close>): one turn of a
      parser thread and of a worker thread.
    \<^item> \<open>Whole_Transfer\<close>: all rounds of a request. Every policy delivers a
      download and stores an upload completely, and an upload is all or
      nothing.
    \<^item> \<open>Server_System\<close>, \<open>Server_Safety\<close>, \<open>Server_Confinement\<close>
      (\<^verbatim>\<open>main.cpp\<close>): the threads as a step relation over the shared state.
      Connections and requests are conserved (the locale \<open>ledger\<close>,
      interpreted for both), shutdown loses nothing, there is no deadlock, every
      request is well-formed, all writes stay in the served directory, and
      faulty requests are refused.
    \<^item> \<open>Isolation\<close>, \<open>Concurrent_Transfers\<close>: requests that are in the
      system at the same time do not disturb each other. A step of one thread
      leaves alone the file and the connection of every request it does not
      hold, so that the running server simulates, for each request, the
      sequential transfer of \<open>Whole_Transfer\<close>; uploads and downloads are
      complete under every interleaving with any number of clients.
    \<^item> \<open>Measurements\<close>: the clock of a run never goes back, and the stamps of
      every recorded row are in order.
    \<^item> \<open>Json_Config\<close>, \<open>Config_Loading\<close>, \<open>Json_Print\<close>
      (\<^verbatim>\<open>config.h\<close>, \<^verbatim>\<open>config.cpp\<close>): the JSON parser and the checks on the
      configuration; the parser always returns, accepted configurations are
      valid, and printing followed by parsing is the identity. The test program
      \<^verbatim>\<open>test_config.cpp\<close> is a definition of \<open>Json_Config\<close>.
    \<^item> \<open>Server_Main\<close> (\<^verbatim>\<open>main.cpp\<close>): the command line of the server;
      a server that starts has sound parameters.
    \<^item> \<open>Client\<close>, \<open>Client_Transfer\<close> (\<^verbatim>\<open>client.cpp\<close>): the client;
      success is reported only for complete transfers.
    \<^item> \<open>Load_Generator\<close> (\<^verbatim>\<open>client.cpp\<close>): the threads of
      \<^verbatim>\<open>load_workload\<close> over their two shared counters; every run has the
      result of a sequence of exactly the requested number of requests, and
      every run ends.
    \<^item> \<open>Observations\<close>: proved behaviours that the documentation does not
      announce (a download that never ends, a download of two versions of a
      file, a staging file that can be downloaded, or overwritten by an upload
      to its name).
    \<^item> this theory: a download and an upload from end to end, client, parser
      and worker together.

  \<^bold>\<open>How state and operations correspond.\<close> A class is a \<open>record\<close> and a method a
  function that takes and returns it, together with the world where it does
  input or output. \<^verbatim>\<open>uint64_t\<close> is a 64-bit word, so that wrap-around is that
  of the code; \<^verbatim>\<open>next_request_id\<close> is a 32-bit word. An exception is
  \<^const>\<open>Inl\<close> of its message, \<^verbatim>\<open>false\<close> or a negative result a value of a
  sum, an option or a boolean. A blocking pop is \<open>Blocked\<close> in a state
  in which the code would wait.

  \<^bold>\<open>Concurrency.\<close> A step of the system is one step of one thread: taking a
  connection, reading its header, numbering the request, pushing it, popping a
  decision, one transfer round, the end of a round. Steps of different threads
  interleave freely; within a step a thread runs alone. So a round is atomic
  towards the other workers. What happens between the rounds of one request is
  arbitrary in \<open>Whole_Transfer\<close>, up to the file and the connection the
  request uses; \<open>Concurrent_Transfers\<close> proves that the other threads of the
  server keep to that, if \<^verbatim>\<open>accept\<close> returns descriptors that are not in use,
  the 32-bit request counter has not wrapped, and no upload is admitted whose
  name is the file another request works on (\<open>orderly\<close>).

  \<^bold>\<open>Bounds and fuel.\<close> All loops are terminating functions without fuel except the
  JSON parser, whose recursion takes a fuel argument. \<^const>\<open>json_parse\<close> starts
  with twice the length of the text plus one; every call consumes a character or
  is the one call of \<^verbatim>\<open>parse_value\<close> an object or array loop makes before it
  does, and \<open>Config_Loading\<close> proves that the fuel is never used up.
  The number of rounds of a transfer is the length of a list, and the theorems
  say which length is enough for each policy.

  \<^bold>\<open>Parameters.\<close> Whether \<^verbatim>\<open>std::stod\<close> accepts a literal, the results of
  \<^verbatim>\<open>socket\<close>, \<^verbatim>\<open>bind\<close>, \<^verbatim>\<open>connect\<close> and their kin, the entries of the
  workload directory and the choices of the random generator are arguments.

  \<^bold>\<open>Not modelled.\<close> Diagnostics on the error stream and the progress lines of the
  server; the text the summary prints (its numbers are modelled); the
  interleaving of threads inside one step and the memory model; the Python and
  shell scripts, the Makefile and the data files.
\<close>

section \<open>A request line reaches the server\<close>

lemma get_header_read:
  assumes "inbox (socks w fd) = Segment t (h @ [newline]) # q" "newline \<notin> set h" "length h < 4096"
    "t \<le> 1000000000"
  obtains w1 where "read_header_line fd 1000 w = (h @ [newline], [], w1)" "inbox (socks w1 fd) = q"
    "files w1 = files w" "wire w1 fd = wire w fd" "reliable w1 fd = reliable w fd"
proof -
  obtain w1 where w1: "read_header_line fd 1000 w = (h @ [newline], [], w1)" "inbox (socks w1 fd) = q"
    using read_header_line_segment [of w fd t h "[]" q 1000] assms by auto
  with that show ?thesis
    using read_header_loop_frame [OF w1(1) [unfolded read_header_line_def]] by (simp add: wire_def reliable_def)
qed

lemma newline_is_space: "isspace newline"
  by (simp add: isspace_def newline_def)

lemma word_has_no_newline: "list_all (\<lambda>c. \<not> isspace c) s \<Longrightarrow> newline \<notin> set s"
  using newline_is_space by (auto simp: list_all_iff)

text \<open>The parser admits the client's GET line with the size of the served file.\<close>

lemma get_admitted:
  assumes "inbox (socks w fd) = [Segment t (''GET '' @ name @ [newline])]" "t \<le> 1000000000"
    and "is_valid_filename name" "list_all (\<lambda>c. \<not> isspace c) name" "length name < 4000"
    and "open_read d (join_path dir name) w = Some c"
  obtains w1 where "parse_connection dir fd w =
      (Admitted (new_request\<lparr>client_fd := fd, op := GET, filename := name, total_bytes := of_nat (length c)\<rparr>), w1)"
    "files w1 = files w" "wire w1 fd = wire w fd" "reliable w1 fd = reliable w fd"
proof -
  have "newline \<notin> set (''GET '' @ name)" using word_has_no_newline [OF assms(4)] by (simp add: newline_def)
  then obtain w1 where w1: "read_header_line fd 1000 w = (''GET '' @ name @ [newline], [], w1)"
    "files w1 = files w" "wire w1 fd = wire w fd" "reliable w1 fd = reliable w fd"
    using get_header_read [of w fd t "''GET '' @ name" "[]"] assms(1,2,5) by auto
  have f: "files w1 (join_path dir name) = Some c"
    using assms(6) w1(2) by (auto simp: open_read_def split: option.splits if_splits)
  have "name \<noteq> []" using assms(3) by (auto simp: is_valid_filename_def)
  from request_header_parses [OF this assms(4)] w1 f assms(3) show ?thesis
    by (intro that [of w1])
       (auto simp: parse_connection_def file_exists_def get_file_size_def new_request_def)
qed

text \<open>And its PUT line, with the bytes still to come.\<close>

lemma put_admitted:
  assumes "inbox (socks w fd) = Segment t (put_header_line name data) # body" "t \<le> 1000000000"
    and "is_valid_filename name" "list_all (\<lambda>c. \<not> isspace c) name" "length name < 4000" "length data < 2 ^ 63"
  obtains w1 where "parse_connection dir fd w =
      (Admitted (new_request\<lparr>client_fd := fd, op := PUT, filename := name, total_bytes := of_nat (length data)\<rparr>), w1)"
    "files w1 = files w" "wire w1 fd = wire w fd" "reliable w1 fd = reliable w fd" "inbox (socks w1 fd) = body"
proof -
  let ?n = "of_nat (length data) :: u64"
  let ?h = "''PUT '' @ name @ '' '' @ to_string ?n"
  have sz: "unat ?n = length data" using assms(6) by (simp add: unat_of_nat_u64)
  then have h: "put_header_line name data = ?h @ [newline]"
    by (simp add: put_header_line_def to_string_def)
  have "newline \<notin> set ?h"
    using word_has_no_newline [OF assms(4)] word_has_no_newline [OF to_string_props(3)] by (simp add: newline_def)
  moreover have "length ?h < 4096" using ok_line_reply(5) [of ?n] assms(5) by simp
  ultimately obtain w1 where w1: "read_header_line fd 1000 w = (?h @ [newline], [], w1)"
    "files w1 = files w" "wire w1 fd = wire w fd" "reliable w1 fd = reliable w fd" "inbox (socks w1 fd) = body"
    using get_header_read [of w fd t ?h body] assms(1,2) h by auto
  have "name \<noteq> []" using assms(3) by (auto simp: is_valid_filename_def)
  from request_header_parses [OF this assms(4), of fd ?n] w1 assms(3) show ?thesis
    by (intro that [of w1]) (auto simp: parse_connection_def new_request_def)
qed

section \<open>Properties\<close>

text \<open>
  C1. A download, end to end, under every policy. The client's request line
  reaches the server in one segment within the header time-out; the parser
  admits it, and the rounds of the worker finish it while the other threads
  leave the file and the connection alone. A client whose connection delivers
  what the server sent, in whatever segments, exits with 0, its file is
  byte for byte the served file, and what it sent is the line the server read.
\<close>

theorem get_end_to_end:
  assumes "inbox (socks ws fd) = [Segment t (''GET '' @ name @ [newline])]" and "t \<le> 1000000000"
    and "is_valid_filename name" and "list_all (\<lambda>c. \<not> isspace c) name" and "length name < 4000"
    and "open_read (we_disk e) (join_path (we_dir e) name) ws = Some c"
    and "reliable ws fd" and "wire ws fd = []"
    and "0 < we_packetization e" and "policy (we_sched e) \<in> {RR, DRR} \<longrightarrow> 0 < quantum (we_sched e)"
    and "list_all (calm (join_path (we_dir e) name) fd) others" and "others \<noteq> []"
    and "length c \<le> length others * pace e"
  shows "\<exists>r ws1 r' ws2. parse_connection (we_dir e) fd ws = (Admitted r, ws1) \<and>
    transfer e others (number_request k ws1 r) ws1 = (Finished r', ws2) \<and>
    (\<forall>d net cfg sock quiet wc. connect_to_server net cfg wc = (sock, wc) \<and> 0 \<le> sock \<and> steady sock wc \<and>
       reliable wc sock \<and> coming sock wc = wire ws2 fd \<and> can_create d name \<and> (\<forall>n. can_write d name n) \<longrightarrow>
       (\<exists>msg wc'. get_file d net cfg name quiet True wc = (0, msg, wc') \<and> files wc' = (files wc)(name \<mapsto> c) \<and>
          wire wc' sock = wire wc sock @ stream_of (inbox (socks ws fd))))"
proof -
  let ?r = "new_request\<lparr>client_fd := fd, op := GET, filename := name, total_bytes := of_nat (length c)\<rparr>"
  obtain ws1 where p: "parse_connection (we_dir e) fd ws = (Admitted ?r, ws1)" and
    f: "files ws1 = files ws" "wire ws1 fd = wire ws fd" "reliable ws1 fd = reliable ws fd"
    using assms(1-6) by (rule get_admitted)
  define r where "r = number_request k ws1 ?r"
  have r: "client_fd r = fd" "op r = GET" "filename r = name" "total_bytes r = of_nat (length c)" "offset r = 0"
    "deficit r = 0" "\<not> response_sent r"
    by (simp_all add: r_def number_request_def new_request_def)
  have "length c < 2 ^ 63" using assms(6) by (auto simp: open_read_def split: option.splits if_splits)
  then have sz: "unat (of_nat (length c) :: u64) = length c" by (simp add: unat_of_nat_u64)
  have st: "get_state e c r ws1"
    using assms(3,6,7,9,10) f r sz by (simp add: get_state_def get_ready_def open_read_def)
  have "left r - credit e r \<le> length others * pace e" using assms(13) r sz by (simp add: left_def)
  from get_transfer [OF st _ assms(12) this] obtain r' ws2 where
    fin: "transfer e others r ws1 = (Finished r', ws2)" and out: "wire ws2 fd = ok_line (of_nat (length c)) @ c @ []"
    using assms(8,11) f(2) r by (auto simp: get_header_def)
  have "\<exists>msg wc'. get_file d net cfg name quiet True wc = (0, msg, wc') \<and> files wc' = (files wc)(name \<mapsto> c) \<and>
      wire wc' sock = wire wc sock @ stream_of (inbox (socks ws fd))"
    if "connect_to_server net cfg wc = (sock, wc)" "0 \<le> sock" "steady sock wc" "reliable wc sock"
      "coming sock wc = wire ws2 fd" "can_create d name" "\<forall>n. can_write d name n" for d net cfg sock quiet wc
    by (rule get_file_completes [OF that(1-4) that(5) [unfolded out] sz [symmetric], of True d name quiet])
       (use that(6,7) assms(1) in \<open>auto simp: downloaded_def\<close>)
  with p fin show ?thesis unfolding r_def by blast
qed

theorem get_end_to_end_witness:
  "\<exists>r ws1 r' ws2 msg wc'.
     parse_connection ''d'' 4 (demo_world [''d/f'' \<mapsto> two_lines] [Segment 5 (''GET f'' @ [newline])]) = (Admitted r, ws1) \<and>
     transfer (demo_env DRR 2) [id, id] (number_request 7 ws1 r) ws1 = (Finished r', ws2) \<and>
     get_file healthy_disk demo_client_net demo_client_config ''f'' True True
       (demo_world Map.empty (filter steady_event [Segment 9 (wire ws2 4)])) = (0, msg, wc') \<and>
     files wc' = [''f'' \<mapsto> two_lines]"
proof -
  let ?e = "demo_env DRR 2" and ?ws = "demo_world [''d/f'' \<mapsto> two_lines] [Segment 5 (''GET f'' @ [newline])]"
  obtain r ws1 r' ws2 where s: "parse_connection (we_dir ?e) 4 ?ws = (Admitted r, ws1)"
    "transfer ?e [id, id] (number_request 7 ws1 r) ws1 = (Finished r', ws2)" and
    c: "\<forall>d net cfg sock quiet wc. connect_to_server net cfg wc = (sock, wc) \<and> 0 \<le> sock \<and> steady sock wc \<and>
       reliable wc sock \<and> coming sock wc = wire ws2 4 \<and> can_create d ''f'' \<and> (\<forall>n. can_write d ''f'' n) \<longrightarrow>
       (\<exists>msg wc'. get_file d net cfg ''f'' quiet True wc = (0, msg, wc') \<and> files wc' = (files wc)(''f'' \<mapsto> two_lines) \<and>
          wire wc' sock = wire wc sock @ stream_of (inbox (socks ?ws 4)))"
    using get_end_to_end [of ?ws 4 5 "''f''" ?e two_lines "[id, id]" 7]
    by (auto simp: demo_env_def is_valid_filename_def isspace_def open_read_def join_path_def healthy_disk_def
        two_lines_def reliable_def wire_def calm_def pace_def)
  from c [rule_format, of demo_client_net demo_client_config "demo_world Map.empty (filter steady_event [Segment 9 (wire ws2 4)])"
      4 healthy_disk True] s show ?thesis
    by (fastforce simp: demo_env_def steady_def reliable_def coming_def healthy_disk_def)
qed

text \<open>
  C2. An upload, end to end, under every policy: when the server receives what
  \<^verbatim>\<open>put_file\<close> sends, the header in one segment and then the body without long
  pauses, the stored file is byte for byte the client's file and no staging
  file is left. A client to which the server's two status lines come apart
  exits with 0 and has sent exactly what the server received.
\<close>

theorem put_end_to_end:
  assumes "inbox (socks ws fd) = Segment t (put_header_line name data) # body" and "t \<le> 1000000000"
    and "list_all prompt_event body" and "stream_of body = data" and "data \<noteq> []" and "length data < 2 ^ 63"
    and "is_valid_filename name" and "list_all (\<lambda>c. \<not> isspace c) name" and "length name < 4000"
    and "reliable ws fd" and "wire ws fd = []"
    and "policy (we_sched e) \<in> {RR, DRR} \<longrightarrow> 0 < quantum (we_sched e)"
    and "staging = join_path (we_dir e) (name @ ''.upload.'' @ show_int (sint k))"
    and "disk_accepts (we_disk e) staging" and "can_rename (we_disk e) staging (join_path (we_dir e) name)"
    and "list_all (calm staging fd) others" and "others \<noteq> []"
    and "length data \<le> length others * put_pace e"
  shows "\<exists>r ws1 r' ws2. parse_connection (we_dir e) fd ws = (Admitted r, ws1) \<and>
    transfer e others (number_request k ws1 r) ws1 = (Finished r', ws2) \<and>
    files ws2 (join_path (we_dir e) name) = Some data \<and>
    files ws2 staging = None \<and>
    (\<forall>d net cfg sock local_path quiet wc q1 q2. connect_to_server net cfg wc = (sock, wc) \<and> 0 \<le> sock \<and>
       reliable wc sock \<and> open_read d local_path wc = Some data \<and> path_filename local_path = name \<and>
       inbox (socks wc sock) = q1 @ q2 \<and> list_all steady_event (q1 @ q2) \<and> stream_of q1 = ok_line 0 \<and>
       stream_of q1 @ stream_of q2 = wire ws2 fd \<longrightarrow>
       (\<exists>msg wc'. put_file d net cfg local_path quiet wc = (0, msg, wc') \<and>
          wire wc' sock = wire wc sock @ stream_of (inbox (socks ws fd))))"
proof -
  let ?n = "of_nat (length data) :: u64"
  let ?r = "new_request\<lparr>client_fd := fd, op := PUT, filename := name, total_bytes := ?n\<rparr>"
  obtain ws1 where p: "parse_connection (we_dir e) fd ws = (Admitted ?r, ws1)" and
    f: "files ws1 = files ws" "wire ws1 fd = wire ws fd" "reliable ws1 fd = reliable ws fd" "inbox (socks ws1 fd) = body"
    using assms(1,2,7-9,6) by (rule put_admitted)
  define r where "r = number_request k ws1 ?r"
  have r: "client_fd r = fd" "op r = PUT" "filename r = name" "total_bytes r = ?n" "offset r = 0"
    "deficit r = 0" "pending_bytes r = []" "pending_offset r = 0"
    by (simp_all add: r_def number_request_def new_request_def)
  have sz: "unat ?n = length data" using assms(6) by (simp add: unat_of_nat_u64)
  have up: "upload_stream r ws1 = data" using f(4) r assms(4) by (simp add: upload_stream_def pending_rest_def)
  have sp: "staging_path e r = staging" "final_path e r = join_path (we_dir e) name"
    using assms(13) by (simp_all add: staging_path_def staged_def staging_name_def final_path_def r_def
        number_request_def new_request_def)
  have st: "put_state e [] r ws1"
    using assms(3,5-7,10,12,14,15) f(3,4) r sz up sp
    by (simp add: put_state_def put_ready_def pending_wf_def staged_def staging_name_def left_def prompt_def)
  have "left r \<le> length others * put_pace e" using assms(18) r sz by (simp add: left_def)
  then obtain r' ws2 where
    fin: "transfer e others r ws1 = (Finished r', ws2)" and out: "wire ws2 fd = ok_line 0 @ ok_line 0" and
    st2: "files ws2 (join_path (we_dir e) name) = Some data" "files ws2 staging = None"
    using put_transfer [OF st _ assms(17)] assms(11,16) f(2) r up sz sp by (auto simp: put_header_def left_def)
  have "path_filename local_path \<notin> {[], ''.'', ''..''}" if "path_filename local_path = name" for local_path
    using that assms(7) by (auto simp: is_valid_filename_def)
  then have "\<exists>msg wc'. put_file d net cfg local_path quiet wc = (0, msg, wc') \<and>
      wire wc' sock = wire wc sock @ stream_of (inbox (socks ws fd))"
    if "connect_to_server net cfg wc = (sock, wc)" "0 \<le> sock" "reliable wc sock"
      "open_read d local_path wc = Some data" "path_filename local_path = name" "inbox (socks wc sock) = q1 @ q2"
      "list_all steady_event (q1 @ q2)" "stream_of q1 = ok_line 0" "stream_of q1 @ stream_of q2 = wire ws2 fd"
    for d net cfg sock local_path quiet wc q1 q2
    by (rule put_file_completes [OF that(1-4) _ that(6-8), of "[]" quiet])
       (use that(5,8,9) out assms(1,4) in auto)
  with p fin st2 show ?thesis unfolding r_def by blast
qed

theorem put_end_to_end_witness:
  "\<exists>r ws1 r' ws2.
     parse_connection ''d'' 4 (demo_world Map.empty [Segment 5 (put_header_line ''f'' ''hello''), Segment 0 ''he'',
       Segment 8 ''llo'']) = (Admitted r, ws1) \<and>
     transfer (demo_env RR 2) [id, id, id] (number_request 7 ws1 r) ws1 = (Finished r', ws2) \<and>
     files ws2 ''d/f'' = Some ''hello''"
proof -
  let ?e = "demo_env RR 2"
    and ?ws = "demo_world Map.empty [Segment 5 (put_header_line ''f'' ''hello''), Segment 0 ''he'', Segment 8 ''llo'']"
  have "\<exists>r ws1 r' ws2. parse_connection (we_dir ?e) 4 ?ws = (Admitted r, ws1) \<and>
      transfer ?e [id, id, id] (number_request 7 ws1 r) ws1 = (Finished r', ws2) \<and>
      files ws2 (join_path (we_dir ?e) ''f'') = Some ''hello''"
    using put_end_to_end [of ?ws 4 5 "''f''" "''hello''" "[Segment 0 ''he'', Segment 8 ''llo'']" ?e _ 7 "[id, id, id]", OF _ _ _ _ _ _ _ _ _ _ _ _ refl]
    by (fastforce simp: demo_env_def is_valid_filename_def isspace_def disk_accepts_def healthy_disk_def
        reliable_def wire_def calm_def put_pace_def)
  then show ?thesis by (simp add: demo_env_def join_path_def)
qed

end
